(* ===== verification/Prelude.thy ===== *)
theory Prelude
  imports Main "HOL-Library.Word" "HOL-Library.Monad_Syntax"
begin

text \<open>
  Shared vocabulary of the development: the C types of the modelled platform (LP64, as the
  Makefiles' gcc on x86-64 Linux: \<open>unsigned\<close> has 32 bits, \<open>size_t\<close> and \<open>long\<close> have 64,
  plain \<open>char\<close> is signed), the values of \<open>errno\<close> the library sets, the reading of undefined
  behaviour as \<^term>\<open>None\<close>, and the generic facts on lists and words the components share.

  An operation of the C code that can be undefined (an access outside an object, a double
  \<open>free\<close>, a use of freed memory) is a function into an \<^typ>\<open>'a option\<close>: \<^term>\<open>None\<close> says the
  execution is undefined, so a lemma of the form \<open>f x = Some r\<close> states memory safety as well as
  the result.
\<close>

unbundle bit_operations_syntax

type_synonym u8 = "8 word"
type_synonym u16 = "16 word"
type_synonym u32 = "32 word"
type_synonym u64 = "64 word"
type_synonym size_t = "64 word"

text \<open>Block handles of the allocator (\<open>C_Heap\<close>); \<open>NULL\<close> is 0.\<close>

type_synonym ptr = nat

abbreviation (input) NULL :: ptr where "NULL \<equiv> 0"

datatype errno = EINVAL | ENOENT | ENOSPC | EAGAIN | ENOMEM | ETIMEDOUT

named_theorems c_defs "definitions unfolded when an operation is evaluated on a concrete state"

subsection \<open>Options as executions\<close>

lemma bind_Some_iff: "Option.bind x f = Some r \<longleftrightarrow> (\<exists>y. x = Some y \<and> f y = Some r)"
  by (cases x) auto

lemma bind_None_iff: "Option.bind x f = None \<longleftrightarrow> x = None \<or> (\<exists>y. x = Some y \<and> f y = None)"
  by (cases x) auto

subsection \<open>Lists\<close>

lemma list_update_append_mid [simp]: "(xs @ y # ys)[length xs := z] = xs @ z # ys"
  by (induction xs) auto

lemma nth_append_mid [simp]: "(xs @ y # ys) ! length xs = y"
  by (simp add: nth_append)

lemma split_at_index:
  assumes "i < length xs"
  obtains as bs where "xs = as @ (xs ! i) # bs" and "length as = i"
proof
  show "xs = take i xs @ (xs ! i) # drop (Suc i) xs"
    using assms by (rule id_take_nth_drop)
  show "length (take i xs) = i" using assms by simp
qed

lemma hd_notin_tl: "distinct xs \<Longrightarrow> xs \<noteq> [] \<Longrightarrow> hd xs \<notin> set (tl xs)"
  by (cases xs) auto

lemma last_notin_butlast: "distinct xs \<Longrightarrow> xs \<noteq> [] \<Longrightarrow> last xs \<notin> set (butlast xs)"
  by (cases xs rule: rev_cases) auto

lemma in_set_tlD: "x \<in> set (tl xs) \<Longrightarrow> x \<in> set xs"
  by (cases xs) auto

subsection \<open>Words\<close>

lemma unat_lt_64 [simp]: "unat (x :: u64) < 2 ^ 64"
  using unsigned_less [of x] by simp

lemma unat_mask_word: "k \<le> LENGTH('a) \<Longrightarrow> unat (mask k :: 'a::len word) = mask k"
  by (rule bit_eqI) (auto simp: bit_simps possible_bit_less_imp)

lemma unat_of_nat_64: "n < 2 ^ 64 \<Longrightarrow> unat (of_nat n :: u64) = n"
  by (simp add: unsigned_of_nat take_bit_nat_eq_self)

subsection \<open>Numbers in the output\<close>

text \<open>The conversions \<open>%d\<close>, \<open>%u\<close> and \<open>%x\<close> of \<open>printf\<close>, and \<open>%0<w>x\<close> with its leading zeros.\<close>

definition digit :: "nat \<Rightarrow> char" where
  "digit d = (if d < 10 then char_of (48 + d) else char_of (87 + d))"

function numeral_in :: "nat \<Rightarrow> nat \<Rightarrow> string" where
  "numeral_in b n =
     (if n < b \<or> b < 2 then [digit n] else numeral_in b (n div b) @ [digit (n mod b)])"
  by pat_completeness auto
termination by (relation "measure snd") auto

declare numeral_in.simps [simp del]

definition dec_nat :: "nat \<Rightarrow> string" where
  "dec_nat n = numeral_in 10 n"

definition dec_int :: "int \<Rightarrow> string" where
  "dec_int i = (if i < 0 then CHR ''-'' # dec_nat (nat (- i)) else dec_nat (nat i))"

definition hex_nat :: "nat \<Rightarrow> string" where
  "hex_nat n = numeral_in 16 n"

definition pad_left :: "char \<Rightarrow> nat \<Rightarrow> string \<Rightarrow> string" where
  "pad_left c w s = replicate (w - length s) c @ s"

text \<open>Decimal numerals can be read back, so different numbers print differently.\<close>

definition read_dec :: "string \<Rightarrow> nat" where
  "read_dec s = foldl (\<lambda>a c. a * 10 + (of_char c - 48)) 0 s"

lemma digit_value: "d < 10 \<Longrightarrow> of_char (digit d) - (48 :: nat) = d"
  by (simp add: digit_def)

lemma read_dec_nat [simp]: "read_dec (dec_nat n) = n"
  unfolding dec_nat_def
proof (induction n rule: less_induct)
  case (less n)
  show ?case
  proof (cases "n < 10")
    case True
    then show ?thesis by (simp add: numeral_in.simps [of 10 n] read_dec_def digit_value)
  next
    case False
    then have "read_dec (numeral_in 10 (n div 10)) = n div 10" by (intro less.IH) simp
    then show ?thesis
      using False digit_value [of "n mod 10"] by (simp add: numeral_in.simps [of 10 n] read_dec_def)
  qed
qed

lemma dec_nat_inject [simp]: "dec_nat m = dec_nat n \<longleftrightarrow> m = n"
  by (metis read_dec_nat)

lemma length_dec_nat: "0 < k \<Longrightarrow> n < 10 ^ k \<Longrightarrow> length (dec_nat n) \<le> k"
  unfolding dec_nat_def
proof (induction k arbitrary: n)
  case (Suc k)
  show ?case
  proof (cases "n < 10")
    case True
    then show ?thesis by (simp add: numeral_in.simps [of 10 n])
  next
    case False
    then have "n div 10 < 10 ^ k" "0 < k" using Suc.prems(2) by (cases k; auto)+
    then have "length (numeral_in 10 (n div 10)) \<le> k" by (rule Suc.IH [rotated])
    then show ?thesis using False by (simp add: numeral_in.simps [of 10 n])
  qed
qed simp

text \<open>What \<open>snprintf\<close> leaves in a buffer of \<open>n\<close> bytes.\<close>

definition c_snprintf :: "nat \<Rightarrow> string \<Rightarrow> string" where
  "c_snprintf n s = take (n - 1) s"

definition newline :: string where "newline = [CHR 0x0A]"

end
