(* ===== verification/Ctypes.thy ===== *)
theory Ctypes
  imports Prelude
begin

text \<open>
  The macros of \<open>includes/ctypes.h\<close> and the error pointers of \<open>includes/error_ptr.h\<close>.
  \<open>ALIGN\<close> is generic in the type of its argument, as the macro is; \<open>GENMASK\<close> computes on
  \<open>unsigned\<close>, \<open>BIT\<close> on \<open>int\<close>, and a shift by too much, or into the sign, is undefined; an error pointer is the 64-bit pattern of a small negative \<open>long\<close>.
\<close>

subsection \<open>ctypes.h\<close>

definition ALIGN_MASK :: "'a::len word \<Rightarrow> 'a word \<Rightarrow> 'a word" where
  "ALIGN_MASK x m = (x + m) AND NOT m"

definition ALIGN :: "'a::len word \<Rightarrow> 'a word \<Rightarrow> 'a word" where
  "ALIGN x a = ALIGN_MASK x (a - 1)"

definition C_MIN :: "'a::linorder \<Rightarrow> 'a \<Rightarrow> 'a" where
  "C_MIN x y = (if x < y then x else y)"

definition C_MAX :: "'a::linorder \<Rightarrow> 'a \<Rightarrow> 'a" where
  "C_MAX x y = (if x > y then x else y)"

definition CLAMP :: "'a::linorder \<Rightarrow> 'a \<Rightarrow> 'a \<Rightarrow> 'a" where
  "CLAMP val hi lo = C_MIN (C_MAX val lo) hi"

definition GENMASK :: "nat \<Rightarrow> nat \<Rightarrow> u32 option" where
  "GENMASK h l =
     (if h < 32 \<and> l < 31 then Some ((NOT 0 - push_bit l 1 + 1) AND drop_bit (32 - 1 - h) (NOT 0)) else None)"

definition BIT :: "nat \<Rightarrow> int option" where
  "BIT x = (if x < 31 then Some (push_bit x 1) else None)"

text \<open>
  \<open>CLAMP\<close> takes the upper bound before the lower one; given in that order the result lies in
  the range and is the value itself when the value does.
\<close>

lemma CLAMP_in_range: "lo \<le> hi \<Longrightarrow> lo \<le> CLAMP val hi lo \<and> CLAMP val hi lo \<le> hi"
  by (auto simp: CLAMP_def C_MIN_def C_MAX_def)

lemma CLAMP_id: "lo \<le> val \<Longrightarrow> val \<le> hi \<Longrightarrow> CLAMP val hi lo = val"
  by (auto simp: CLAMP_def C_MIN_def C_MAX_def)

lemma bit_GENMASK_low: "bit (NOT 0 - push_bit l 1 + 1 :: u32) i \<longleftrightarrow> i < 32 \<and> l \<le> i"
proof -
  have "NOT 0 - push_bit l 1 + 1 = (NOT (mask l) :: u32)"
    by (simp add: push_bit_eq_mult flip: minus_exp_eq_not_mask)
  then show ?thesis
    by (auto simp: bit_not_iff bit_mask_iff not_less)
qed

lemma bit_GENMASK_high: "h < 32 \<Longrightarrow> bit (drop_bit (32 - 1 - h) (NOT 0 :: u32)) i \<longleftrightarrow> i \<le> h"
  by (auto simp: bit_drop_bit_eq bit_mask_iff)

lemma GENMASK_bits:
  assumes "h < 32" and "l < 31"
  shows "\<exists>m. GENMASK h l = Some m \<and> (\<forall>i. bit m i \<longleftrightarrow> l \<le> i \<and> i \<le> h)"
proof (intro exI conjI allI)
  show "GENMASK h l = Some ((NOT 0 - push_bit l 1 + 1) AND drop_bit (32 - 1 - h) (NOT 0))"
    using assms by (simp only: GENMASK_def simp_thms if_True)
  show "bit ((NOT 0 - push_bit l 1 + 1) AND drop_bit (32 - 1 - h) (NOT 0) :: u32) i \<longleftrightarrow> l \<le> i \<and> i \<le> h" for i
    using assms by (auto simp only: bit_and_iff bit_GENMASK_low bit_GENMASK_high)
qed

lemma BIT_value: "x < 31 \<Longrightarrow> \<exists>v. BIT x = Some v \<and> v = 2 ^ x \<and> v < 2 ^ 31"
  using power_strict_increasing [of x 31 "2 :: int"] by (simp add: BIT_def push_bit_eq_mult)

text \<open>The word that has exactly the multiple of \<open>2 ^ k\<close> at or above \<open>x\<close>.\<close>

lemma unat_and_not_mask:
  "unat (x AND NOT (mask k) :: 'a::len word) = unat x div 2 ^ k * 2 ^ k"
proof -
  have "unat (x AND NOT (mask k)) = push_bit k (drop_bit k (unat x))"
    by (rule bit_eqI)
      (auto simp: bit_simps possible_bit_less_imp dest: bit_imp_possible_bit)
  then show ?thesis
    by (simp add: push_bit_eq_mult drop_bit_eq_div)
qed

lemma ALIGN_pow2: "ALIGN x (2 ^ k) = (x + mask k) AND NOT (mask k)"
  by (simp add: ALIGN_def ALIGN_MASK_def mask_eq_exp_minus_1)

lemma unat_ALIGN_pow2:
  assumes "k < LENGTH('a::len)" and "unat (x :: 'a word) + 2 ^ k \<le> 2 ^ LENGTH('a)"
  shows "unat (ALIGN x (2 ^ k)) = (unat x + 2 ^ k - 1) div 2 ^ k * 2 ^ k"
proof -
  have m: "unat (mask k :: 'a word) = 2 ^ k - 1"
    using unat_mask_word [OF less_imp_le [OF assms(1)]] by (simp add: mask_eq_exp_minus_1)
  have "(0::nat) < 2 ^ k" by simp
  with assms(2) have "unat x + (2 ^ k - 1) < 2 ^ LENGTH('a)" by linarith
  with m have "unat (x + mask k) = unat x + unat (mask k :: 'a word)"
    by (metis unat_add_lem)
  with m show ?thesis
    by (simp add: ALIGN_pow2 unat_and_not_mask)
qed

lemma round_up_bounds:
  fixes n a :: nat
  assumes "0 < a"
  shows "n \<le> (n + a - 1) div a * a" and "(n + a - 1) div a * a < n + a"
proof -
  have e: "(n + a - 1) div a * a + (n + a - 1) mod a = n + a - 1"
    by (rule div_mult_mod_eq)
  have "(n + a - 1) mod a < a" using assms by simp
  with e show "n \<le> (n + a - 1) div a * a" by linarith
  show "(n + a - 1) div a * a < n + a" using e assms by linarith
qed

subsection \<open>error_ptr.h\<close>

definition IS_ERR_VALUE :: "u64 \<Rightarrow> bool" where
  "IS_ERR_VALUE x \<longleftrightarrow> x \<ge> - 0xfff"

text \<open>A \<open>long\<close> is an \<^typ>\<open>int\<close> in its 64-bit range; the casts are the two's complement ones.\<close>

definition ERR_PTR :: "int \<Rightarrow> u64" where
  "ERR_PTR err = word_of_int err"

definition PTR_ERR :: "u64 \<Rightarrow> int" where
  "PTR_ERR p = sint p"

definition IS_ERR :: "u64 \<Rightarrow> bool" where
  "IS_ERR p = IS_ERR_VALUE p"

definition IS_ERR_OR_NULL :: "u64 \<Rightarrow> int" where
  "IS_ERR_OR_NULL p = (if p = 0 \<or> IS_ERR_VALUE p then 1 else 0)"

definition long_range :: "int \<Rightarrow> bool" where
  "long_range e \<longleftrightarrow> - (2 ^ 63) \<le> e \<and> e < 2 ^ 63"

lemma sint_word_of_int_long: "long_range e \<Longrightarrow> sint (word_of_int e :: u64) = e"
  by (simp add: long_range_def signed_of_int signed_take_bit_int_eq_self)

lemma uint_word_of_int_long:
  "long_range e \<Longrightarrow> uint (word_of_int e :: u64) = (if e < 0 then e + 2 ^ 64 else e)"
proof -
  assume e: "long_range e"
  have "e mod 2 ^ 64 = (e + 2 ^ 64) mod 2 ^ 64" by simp
  moreover have "(e + 2 ^ 64) mod 2 ^ 64 = e + 2 ^ 64" if "e < 0"
    using e that by (intro mod_pos_pos_trivial) (auto simp: long_range_def)
  ultimately show ?thesis
    using e by (auto simp: long_range_def uint_word_of_int)
qed

lemma IS_ERR_VALUE_iff:
  "long_range e \<Longrightarrow> IS_ERR_VALUE (word_of_int e) \<longleftrightarrow> -4095 \<le> e \<and> e \<le> -1"
  unfolding IS_ERR_VALUE_def word_le_def
  by (auto simp: uint_word_of_int_long long_range_def)

end
