(* ===== verification/Lfsr.thy ===== *)
theory Lfsr
  imports Prelude
begin

text \<open>
  \<open>lib/lfsr.c\<close>: a 16-bit Galois shift register that fills a byte buffer with the low bytes of
  its successive states. The state update is written with the integer promotions of C
  (\<open>uint16_t\<close> operands become \<open>int\<close>, the result is cut back to 16 bits); \<open>lfsr_next_alt\<close> is the
  bitwise reading of it that the proofs use.
\<close>

definition lfsr_next :: "u16 \<Rightarrow> u16 \<Rightarrow> u16" where
  "lfsr_next poly l =
     ucast (drop_bit 1 (ucast l :: u32) XOR (- (ucast l AND 1) AND (ucast poly :: u32)))"

text \<open>The loop, from position \<open>i\<close> with \<open>n\<close> bytes to go: each write must hit the buffer.\<close>

fun lfsr_loop :: "u8 list \<Rightarrow> nat \<Rightarrow> nat \<Rightarrow> u16 \<Rightarrow> u16 \<Rightarrow> u8 list option" where
  "lfsr_loop buf i 0 l poly = Some buf"
| "lfsr_loop buf i (Suc n) l poly =
     (if i < length buf
      then lfsr_loop (buf[i := ucast (l AND 0xFF)]) (Suc i) n (lfsr_next poly l) poly
      else None)"

definition lfsr :: "u8 list option \<Rightarrow> size_t \<Rightarrow> u16 \<Rightarrow> u16 \<Rightarrow> (size_t \<times> u8 list option) option" where
  "lfsr buf count init poly =
     (case buf of
        None \<Rightarrow> Some (0, None)
      | Some b \<Rightarrow>
          (case lfsr_loop b 0 (unat count) init poly of
             None \<Rightarrow> None
           | Some b' \<Rightarrow> Some (count, Some b')))"

text \<open>The bytes the register produces from a seed.\<close>

definition keystream :: "u16 \<Rightarrow> u16 \<Rightarrow> nat \<Rightarrow> u8 list" where
  "keystream poly init n = map (\<lambda>i. ucast ((lfsr_next poly ^^ i) init AND 0xFF)) [0..<n]"

subsection \<open>The state update\<close>

lemma minus_and_one: "- (w AND 1) = (if bit w 0 then - 1 else (0 :: 'a::len word))"
  by (simp add: and_one_eq mod_2_eq_odd bit_0)

lemma lfsr_next_alt: "lfsr_next poly l = drop_bit 1 l XOR (if bit l 0 then poly else 0)"
  unfolding lfsr_next_def minus_and_one
  by (rule bit_eqI) (auto simp: bit_simps possible_bit_less_imp)

lemma bit_lfsr_next:
  "bit (lfsr_next poly l) i \<longleftrightarrow> (bit l (Suc i) \<noteq> (bit l 0 \<and> bit poly i))"
  by (auto simp: lfsr_next_alt bit_simps)

lemma lfsr_next_0 [simp]: "lfsr_next poly 0 = 0"
  by (simp add: lfsr_next_alt)

lemma lfsr_next_xor: "lfsr_next poly (a XOR b) = lfsr_next poly a XOR lfsr_next poly b"
  by (rule bit_eqI) (auto simp: bit_lfsr_next bit_xor_iff)

lemma lfsr_next_pow_xor:
  "(lfsr_next poly ^^ n) (a XOR b) = (lfsr_next poly ^^ n) a XOR (lfsr_next poly ^^ n) b"
  by (induction n) (auto simp: lfsr_next_xor)

lemma lfsr_next_pow_0 [simp]: "(lfsr_next poly ^^ n) 0 = 0"
  by (induction n) auto

text \<open>
  With the top coefficient set the update loses nothing: the top bit of the new state is the
  bit that was shifted out, and the other bits then give back the rest.
\<close>

lemma bit_word_16: "bit (w :: u16) 16 = False"
  using bit_imp_le_length [of w 16] by auto

lemma bit_lfsr_next_top: "bit poly 15 \<Longrightarrow> bit (lfsr_next poly l) 15 \<longleftrightarrow> bit l 0"
  by (simp add: bit_lfsr_next bit_word_16)

lemma inj_lfsr_next:
  assumes "bit poly 15"
  shows "inj (lfsr_next poly)"
proof (rule injI)
  fix a b
  assume e: "lfsr_next poly a = lfsr_next poly b"
  have z: "bit a 0 = bit b 0"
    using bit_lfsr_next_top [OF assms, of a] bit_lfsr_next_top [OF assms, of b] e by simp
  show "a = b"
  proof (rule bit_eqI)
    fix n
    have "bit a (Suc m) = bit b (Suc m)" for m
      using arg_cong [where f = "\<lambda>w. bit w m", OF e] z by (auto simp: bit_lfsr_next)
    with z show "bit a n = bit b n" by (cases n) auto
  qed
qed

lemma lfsr_next_pow_inj: "bit poly 15 \<Longrightarrow> inj (lfsr_next poly ^^ n)"
  by (induction n) (auto intro: inj_compose inj_lfsr_next)

subsection \<open>The loop\<close>

lemma keystream_Suc:
  "keystream poly l (Suc n) = ucast (l AND 0xFF) # keystream poly (lfsr_next poly l) n"
  by (simp add: keystream_def funpow_swap1 upt_conv_Cons map_Suc_upt [symmetric]
      del: upt_Suc funpow.simps)
    (simp add: funpow_swap1)

lemma length_keystream [simp]: "length (keystream poly l n) = n"
  by (simp add: keystream_def)

lemma lfsr_loop_result:
  "i + n \<le> length buf \<Longrightarrow>
   lfsr_loop buf i n l poly = Some (take i buf @ keystream poly l n @ drop (i + n) buf)"
proof (induction n arbitrary: buf i l)
  case 0
  then show ?case by (simp add: keystream_def)
next
  case (Suc n)
  then show ?case
    by (simp add: keystream_Suc take_update_swap [symmetric] take_Suc_conv_app_nth)
qed

lemma lfsr_loop_overflow:
  "length buf < i + n \<Longrightarrow> i \<le> length buf \<Longrightarrow> lfsr_loop buf i n l poly = None"
  by (induction n arbitrary: buf i l) auto

lemma lfsr_ok:
  "unat count \<le> length b \<Longrightarrow>
   lfsr (Some b) count init poly =
     Some (count, Some (keystream poly init (unat count) @ drop (unat count) b))"
  by (simp add: lfsr_def lfsr_loop_result)

text \<open>\<open>lfsr\<close> writes exactly the first \<open>count\<close> bytes of the buffer, the \<open>i\<close>-th one being the low
  byte of the \<open>i\<close>-th state after the initial value, leaves the rest alone and returns \<open>count\<close>;
  it goes outside the buffer exactly when the buffer is shorter than \<open>count\<close>.\<close>

theorem lfsr_fills_buffer:
  "if unat count \<le> length b
   then \<exists>out. lfsr (Some b) count init poly = Some (count, Some (out @ drop (unat count) b)) \<and>
          length out = unat count \<and>
          list_all (\<lambda>i. out ! i = ucast ((lfsr_next poly ^^ i) init AND 0xFF)) [0..<unat count]
   else lfsr (Some b) count init poly = None"
proof (cases "unat count \<le> length b")
  case True
  then show ?thesis
    by (auto simp: lfsr_ok list_all_iff keystream_def intro!: exI [of _ "keystream poly init (unat count)"])
next
  case False
  then show ?thesis
    using lfsr_loop_overflow [of b 0 "unat count"] by (simp add: lfsr_def)
qed

end
