(* ===== verification/Lfsr_Period.thy ===== *)
theory Lfsr_Period
  imports Lfsr
begin

text \<open>
  The period of the register with the polynomial that \<open>includes/lfsr.h\<close> documents (GigE:
  initial value \<open>0xffff\<close>, polynomial \<open>0x8016\<close>). The update is linear over GF(2), so its \<open>n\<close>-th
  power is a \<open>16 \<times> 16\<close> bit matrix, kept as the list of its columns; squaring the matrix
  sixteen times gives the power \<open>2 ^ 16\<close>, and a few products the proper divisors of \<open>65535\<close>.
\<close>

abbreviation gige_next :: "u16 \<Rightarrow> u16" where
  "gige_next \<equiv> lfsr_next 0x8016"

subsection \<open>Matrices\<close>

fun mat_apply :: "u16 list \<Rightarrow> u16 \<Rightarrow> u16" where
  "mat_apply [] s = 0"
| "mat_apply (c # cs) s = (if bit s 0 then c else 0) XOR mat_apply cs (drop_bit 1 s)"

definition mat_mul :: "u16 list \<Rightarrow> u16 list \<Rightarrow> u16 list" where
  "mat_mul A B = map (mat_apply A) B"

definition mat_of :: "(u16 \<Rightarrow> u16) \<Rightarrow> u16 list" where
  "mat_of f = map (\<lambda>i. f (push_bit i 1)) [0..<16]"

definition linear2 :: "(u16 \<Rightarrow> u16) \<Rightarrow> bool" where
  "linear2 f \<longleftrightarrow> f 0 = 0 \<and> (\<forall>a b. f (a XOR b) = f a XOR f b)"

lemma linear2_if: "linear2 f \<Longrightarrow> (if c then f a else 0) = f (if c then a else 0)"
  by (simp add: linear2_def)

lemma linear2_pow: "linear2 (gige_next ^^ n)"
  by (simp add: linear2_def lfsr_next_pow_xor)

lemma push_bit_split:
  "(if bit s 0 then push_bit k 1 else 0) XOR push_bit (Suc k) (take_bit n (drop_bit 1 s)) =
   push_bit k (take_bit (Suc n) (s :: u16))"
proof (rule bit_eqI)
  fix i
  show "bit ((if bit s 0 then push_bit k 1 else 0) XOR push_bit (Suc k) (take_bit n (drop_bit 1 s))) i
      = bit (push_bit k (take_bit (Suc n) s)) i"
    by (cases i k rule: linorder_cases)
      (auto simp: bit_push_bit_iff bit_xor_iff bit_take_bit_iff bit_drop_bit_eq bit_exp_iff bit_1_iff
        Suc_diff_Suc possible_bit_less_imp simp del: push_bit_Suc)
qed

lemma mat_apply_upt:
  assumes "linear2 f"
  shows "mat_apply (map (\<lambda>i. f (push_bit i 1)) [k..<k + n]) s = f (push_bit k (take_bit n s))"
proof (induction n arbitrary: k s)
  case 0
  show ?case using assms by (simp add: linear2_def)
next
  case (Suc n)
  have "mat_apply (map (\<lambda>i. f (push_bit i 1)) [k..<k + Suc n]) s =
      (if bit s 0 then f (push_bit k 1) else 0)
        XOR mat_apply (map (\<lambda>i. f (push_bit i 1)) [Suc k..<Suc k + n]) (drop_bit 1 s)"
    by (simp add: upt_conv_Cons del: upt_Suc)
  also have "\<dots> = f ((if bit s 0 then push_bit k 1 else 0)
                    XOR push_bit (Suc k) (take_bit n (drop_bit 1 s)))"
    unfolding Suc.IH linear2_if [OF assms] using assms by (simp add: linear2_def)
  finally show ?case by (simp only: push_bit_split)
qed

lemma take_bit_word_16: "take_bit 16 (s :: u16) = s"
  by (rule bit_eqI) (auto simp: bit_simps dest: bit_imp_le_length)

lemma mat_apply_mat_of: "linear2 f \<Longrightarrow> mat_apply (mat_of f) s = f s"
  using mat_apply_upt [of f 0 16 s] by (simp add: mat_of_def take_bit_word_16)

lemma mat_mul_mat_of: "linear2 f \<Longrightarrow> mat_mul (mat_of f) (mat_of g) = mat_of (\<lambda>s. f (g s))"
  unfolding mat_mul_def by (simp add: mat_apply_mat_of cong: map_cong) (simp add: mat_of_def)

lemma mat_of_add:
  "mat_of (gige_next ^^ (m + n)) = mat_mul (mat_of (gige_next ^^ m)) (mat_of (gige_next ^^ n))"
  by (simp add: mat_mul_mat_of linear2_pow funpow_add comp_def)

lemma mat_of_double:
  "mat_of (gige_next ^^ n) = A \<Longrightarrow> mat_mul A A = B \<Longrightarrow> m = n + n \<Longrightarrow>
   mat_of (gige_next ^^ m) = B"
  by (simp add: mat_of_add)

subsection \<open>The powers of two\<close>

lemma gige_mat_0: "mat_of (gige_next ^^ 1) =
  [32790, 1, 2, 4, 8, 16, 32, 64, 128, 256, 512, 1024, 2048, 4096, 8192, 16384]"
  unfolding mat_of_def by code_simp

lemma gige_mat_1: "mat_of (gige_next ^^ 2) =
  [16395, 32790, 1, 2, 4, 8, 16, 32, 64, 128, 256, 512, 1024, 2048, 4096, 8192]"
  by (rule mat_of_double [OF gige_mat_0]) (code_simp, simp)

lemma gige_mat_2: "mat_of (gige_next ^^ 4) =
  [53279, 40979, 16395, 32790, 1, 2, 4, 8, 16, 32, 64, 128, 256, 512, 1024, 2048]"
  by (rule mat_of_double [OF gige_mat_1]) (code_simp, simp)

lemma gige_mat_3: "mat_of (gige_next ^^ 8) =
  [48400, 31245, 62490, 59417, 53279, 40979, 16395, 32790, 1, 2, 4, 8, 16, 32, 64, 128]"
  by (rule mat_of_double [OF gige_mat_2]) (code_simp, simp)

lemma gige_mat_4: "mat_of (gige_next ^^ 16) =
  [53410, 41321, 17151, 34302, 3025, 6050, 12100, 24200, 48400, 31245, 62490, 59417, 53279, 40979, 16395, 32790]"
  by (rule mat_of_double [OF gige_mat_3]) (code_simp, simp)

lemma gige_mat_5: "mat_of (gige_next ^^ 32) =
  [63553, 61615, 57715, 49867, 34235, 2907, 5814, 11628, 23256, 46512, 27469, 54938, 44313, 23071, 46142, 26705]"
  by (rule mat_of_double [OF gige_mat_4]) (code_simp, simp)

lemma gige_mat_6: "mat_of (gige_next ^^ 64) =
  [4868, 9736, 19472, 38944, 12397, 24794, 49588, 33605, 1703, 3406, 6812, 13624, 27248, 54496, 43501, 21495]"
  by (rule mat_of_double [OF gige_mat_5]) (code_simp, simp)

lemma gige_mat_7: "mat_of (gige_next ^^ 128) =
  [11657, 23314, 46628, 27749, 55498, 45497, 25439, 50878, 36177, 6799, 13598, 27196, 54392, 43229, 20887, 41774]"
  by (rule mat_of_double [OF gige_mat_6]) (code_simp, simp)

lemma gige_mat_8: "mat_of (gige_next ^^ 256) =
  [65020, 64469, 63367, 61219, 56939, 48379, 31195, 62390, 59201, 52911, 40307, 15051, 30102, 60204, 54901, 44231]"
  by (rule mat_of_double [OF gige_mat_7]) (code_simp, simp)

lemma gige_mat_9: "mat_of (gige_next ^^ 512) =
  [21672, 43344, 21133, 42266, 18969, 37938, 10313, 20626, 41252, 16997, 33994, 2489, 4978, 9956, 19912, 39824]"
  by (rule mat_of_double [OF gige_mat_8]) (code_simp, simp)

lemma gige_mat_10: "mat_of (gige_next ^^ 1024) =
  [48074, 30649, 61298, 57033, 48575, 31571, 63142, 60769, 56047, 46579, 27595, 55190, 44801, 24111, 48222, 30865]"
  by (rule mat_of_double [OF gige_mat_9]) (code_simp, simp)

lemma gige_mat_11: "mat_of (gige_next ^^ 2048) =
  [33666, 1833, 3666, 7332, 14664, 29328, 58656, 51821, 38135, 10691, 21382, 42764, 20021, 40042, 14585, 29170]"
  by (rule mat_of_double [OF gige_mat_10]) (code_simp, simp)

lemma gige_mat_12: "mat_of (gige_next ^^ 4096) =
  [386, 772, 1544, 3088, 6176, 12352, 24704, 49408, 33325, 1143, 2286, 4572, 9144, 18288, 36576, 7661]"
  by (rule mat_of_double [OF gige_mat_11]) (code_simp, simp)

lemma gige_mat_13: "mat_of (gige_next ^^ 8192) =
  [16425, 32850, 137, 274, 548, 1096, 2192, 4384, 8768, 17536, 35072, 4653, 9306, 18612, 37224, 8957]"
  by (rule mat_of_double [OF gige_mat_12]) (code_simp, simp)

lemma gige_mat_14: "mat_of (gige_next ^^ 16384) =
  [54299, 43035, 20507, 41014, 16449, 32898, 297, 594, 1188, 2376, 4752, 9504, 19008, 38016, 10541, 21082]"
  by (rule mat_of_double [OF gige_mat_13]) (code_simp, simp)

lemma gige_mat_15: "mat_of (gige_next ^^ 32768) =
  [49104, 32653, 65306, 65049, 64543, 63507, 61451, 57403, 49243, 32923, 283, 566, 1132, 2264, 4528, 9056]"
  by (rule mat_of_double [OF gige_mat_14]) (code_simp, simp)

lemma gige_mat_16: "mat_of (gige_next ^^ 65536) =
  [32790, 1, 2, 4, 8, 16, 32, 64, 128, 256, 512, 1024, 2048, 4096, 8192, 16384]"
  by (rule mat_of_double [OF gige_mat_15]) (code_simp, simp)

lemma gige_pow_by_mat:
  "mat_of (gige_next ^^ n) = A \<Longrightarrow> (gige_next ^^ (n + m)) s = mat_apply A ((gige_next ^^ m) s)"
  by (auto simp: funpow_add mat_apply_mat_of linear2_pow)

lemma gige_step:
  "mat_of (gige_next ^^ n) = A \<Longrightarrow> (gige_next ^^ m) s = t \<Longrightarrow> mat_apply A t = u \<Longrightarrow> k = n + m \<Longrightarrow>
   (gige_next ^^ k) s = u"
  by (simp add: gige_pow_by_mat)

lemma gige_pow_21845: "(gige_next ^^ 21845) 1 = 44235"
proof -
  have e0: "(gige_next ^^ 0) 1 = (1 :: u16)" by simp
  have e1: "(gige_next ^^ 1) 1 = 32790"
    by (rule gige_step [OF gige_mat_0 e0]) (code_simp, simp)
  have e2: "(gige_next ^^ 5) 1 = 59417"
    by (rule gige_step [OF gige_mat_2 e1]) (code_simp, simp)
  have e3: "(gige_next ^^ 21) 1 = 54938"
    by (rule gige_step [OF gige_mat_4 e2]) (code_simp, simp)
  have e4: "(gige_next ^^ 85) 1 = 35512"
    by (rule gige_step [OF gige_mat_6 e3]) (code_simp, simp)
  have e5: "(gige_next ^^ 341) 1 = 9894"
    by (rule gige_step [OF gige_mat_8 e4]) (code_simp, simp)
  have e6: "(gige_next ^^ 1365) 1 = 36590"
    by (rule gige_step [OF gige_mat_10 e5]) (code_simp, simp)
  have e7: "(gige_next ^^ 5461) 1 = 39028"
    by (rule gige_step [OF gige_mat_12 e6]) (code_simp, simp)
  have e8: "(gige_next ^^ 21845) 1 = 44235"
    by (rule gige_step [OF gige_mat_14 e7]) (code_simp, simp)
  show ?thesis by (rule e8)
qed

lemma gige_pow_13107: "(gige_next ^^ 13107) 1 = 10801"
proof -
  have e0: "(gige_next ^^ 0) 1 = (1 :: u16)" by simp
  have e1: "(gige_next ^^ 1) 1 = 32790"
    by (rule gige_step [OF gige_mat_0 e0]) (code_simp, simp)
  have e2: "(gige_next ^^ 3) 1 = 40979"
    by (rule gige_step [OF gige_mat_1 e1]) (code_simp, simp)
  have e3: "(gige_next ^^ 19) 1 = 23071"
    by (rule gige_step [OF gige_mat_4 e2]) (code_simp, simp)
  have e4: "(gige_next ^^ 51) 1 = 54496"
    by (rule gige_step [OF gige_mat_5 e3]) (code_simp, simp)
  have e5: "(gige_next ^^ 307) 1 = 42177"
    by (rule gige_step [OF gige_mat_8 e4]) (code_simp, simp)
  have e6: "(gige_next ^^ 819) 1 = 5581"
    by (rule gige_step [OF gige_mat_9 e5]) (code_simp, simp)
  have e7: "(gige_next ^^ 4915) 1 = 865"
    by (rule gige_step [OF gige_mat_12 e6]) (code_simp, simp)
  have e8: "(gige_next ^^ 13107) 1 = 10801"
    by (rule gige_step [OF gige_mat_13 e7]) (code_simp, simp)
  show ?thesis by (rule e8)
qed

lemma gige_pow_3855: "(gige_next ^^ 3855) 1 = 10830"
proof -
  have e0: "(gige_next ^^ 0) 1 = (1 :: u16)" by simp
  have e1: "(gige_next ^^ 1) 1 = 32790"
    by (rule gige_step [OF gige_mat_0 e0]) (code_simp, simp)
  have e2: "(gige_next ^^ 3) 1 = 40979"
    by (rule gige_step [OF gige_mat_1 e1]) (code_simp, simp)
  have e3: "(gige_next ^^ 7) 1 = 31245"
    by (rule gige_step [OF gige_mat_2 e2]) (code_simp, simp)
  have e4: "(gige_next ^^ 15) 1 = 41321"
    by (rule gige_step [OF gige_mat_3 e3]) (code_simp, simp)
  have e5: "(gige_next ^^ 271) 1 = 30549"
    by (rule gige_step [OF gige_mat_8 e4]) (code_simp, simp)
  have e6: "(gige_next ^^ 783) 1 = 31648"
    by (rule gige_step [OF gige_mat_9 e5]) (code_simp, simp)
  have e7: "(gige_next ^^ 1807) 1 = 25544"
    by (rule gige_step [OF gige_mat_10 e6]) (code_simp, simp)
  have e8: "(gige_next ^^ 3855) 1 = 10830"
    by (rule gige_step [OF gige_mat_11 e7]) (code_simp, simp)
  show ?thesis by (rule e8)
qed

lemma gige_pow_255: "(gige_next ^^ 255) 1 = 64469"
proof -
  have e0: "(gige_next ^^ 0) 1 = (1 :: u16)" by simp
  have e1: "(gige_next ^^ 1) 1 = 32790"
    by (rule gige_step [OF gige_mat_0 e0]) (code_simp, simp)
  have e2: "(gige_next ^^ 3) 1 = 40979"
    by (rule gige_step [OF gige_mat_1 e1]) (code_simp, simp)
  have e3: "(gige_next ^^ 7) 1 = 31245"
    by (rule gige_step [OF gige_mat_2 e2]) (code_simp, simp)
  have e4: "(gige_next ^^ 15) 1 = 41321"
    by (rule gige_step [OF gige_mat_3 e3]) (code_simp, simp)
  have e5: "(gige_next ^^ 31) 1 = 61615"
    by (rule gige_step [OF gige_mat_4 e4]) (code_simp, simp)
  have e6: "(gige_next ^^ 63) 1 = 9736"
    by (rule gige_step [OF gige_mat_5 e5]) (code_simp, simp)
  have e7: "(gige_next ^^ 127) 1 = 23314"
    by (rule gige_step [OF gige_mat_6 e6]) (code_simp, simp)
  have e8: "(gige_next ^^ 255) 1 = 64469"
    by (rule gige_step [OF gige_mat_7 e7]) (code_simp, simp)
  show ?thesis by (rule e8)
qed

subsection \<open>The orbit of 1\<close>

lemma bit_gige_poly: "bit (0x8016 :: u16) 15"
  by code_simp

lemma gige_pow_inj: "inj (gige_next ^^ n)"
  by (rule lfsr_next_pow_inj) (rule bit_gige_poly)

lemma gige_pow_65535: "(gige_next ^^ 65535) s = s"
proof -
  have "mat_of (gige_next ^^ 65536) = mat_of (gige_next ^^ 1)"
    by (simp only: gige_mat_16 gige_mat_0)
  then have "(gige_next ^^ 65536) s = (gige_next ^^ 1) s"
    by (metis mat_apply_mat_of linear2_pow)
  then have "gige_next ((gige_next ^^ 65535) s) = gige_next s"
    by (simp flip: funpow.simps(2) [THEN fun_cong, simplified comp_apply])
  then show ?thesis
    using gige_pow_inj [of 1] by (auto dest: injD)
qed

definition gige_returns :: "nat \<Rightarrow> bool" where
  "gige_returns n \<longleftrightarrow> (gige_next ^^ n) 1 = 1"

lemma gige_returns_add: "gige_returns n \<Longrightarrow> gige_returns (m + n) = gige_returns m"
  by (simp add: gige_returns_def funpow_add)

lemma gige_returns_mult: "gige_returns n \<Longrightarrow> gige_returns (k * n)"
  by (induction k) (simp_all add: gige_returns_def funpow_add)

lemma gige_returns_mod: "gige_returns d \<Longrightarrow> gige_returns n = gige_returns (n mod d)"
  using gige_returns_add [OF gige_returns_mult, of d "n mod d" "n div d"] by simp

lemma divisors_of_prime_factors:
  fixes p g :: nat
  assumes "p \<in> {3, 5, 17, 257}" and "g dvd p"
  shows "g = 1 \<or> g = p"
proof -
  have "list_all (\<lambda>p. list_all (\<lambda>g. g dvd p \<longrightarrow> g = 1 \<or> g = p) [0..<Suc p]) [3, 5, 17, 257 :: nat]"
    by code_simp
  moreover have "g < Suc p" using assms by (auto dest: dvd_imp_le)
  ultimately show ?thesis
    using assms by (auto simp: list_all_iff)
qed

lemma coprime_prime_factor:
  fixes p e :: nat
  assumes "p \<in> {3, 5, 17, 257}" and "\<not> p dvd e"
  shows "coprime e p"
  using divisors_of_prime_factors [OF assms(1), of "gcd e p"] assms(2)
  by (auto simp: coprime_iff_gcd_eq_1) (metis gcd_dvd1)

lemma proper_divisor_65535:
  fixes d :: nat
  assumes "d dvd 65535" and "d \<noteq> 65535"
  shows "\<exists>k \<in> {21845, 13107, 3855, 255}. d dvd k"
proof -
  obtain e where e: "65535 = d * e" using assms(1) by (elim dvdE)
  have "\<exists>p \<in> {3, 5, 17, 257}. p dvd e"
  proof (rule ccontr)
    assume "\<not> ?thesis"
    then have "coprime e 3" "coprime e 5" "coprime e 17" "coprime e 257"
      by (auto intro!: coprime_prime_factor)
    then have "coprime e (3 * (5 * (17 * 257)))"
      by (simp only: coprime_mult_right_iff simp_thms)
    then have "coprime e 65535" by simp
    moreover have "e dvd 65535" unfolding e by simp
    ultimately have "e = 1" by (metis coprime_common_divisor_nat dvd_refl nat_dvd_1_iff_1)
    with e assms(2) show False by simp
  qed
  then obtain p f where p: "p \<in> {3, 5, 17, 257}" and "e = p * f" by (auto elim!: dvdE)
  with e have "65535 div p = d * f" by auto
  then have "d dvd 65535 div p" by simp
  with p show ?thesis by auto
qed

lemma gige_returns_gcd: "gige_returns m \<Longrightarrow> gige_returns n \<Longrightarrow> gige_returns (gcd m n)"
proof (induction m n rule: gcd_nat_induct)
  case (base m)
  then show ?case by simp
next
  case (step m n)
  then have "gige_returns (m mod n)" using gige_returns_mod [of n m] by simp
  with step show ?case by (simp add: gcd_red_nat [of m n])
qed

lemma gige_returns_full: "gige_returns 65535"
  by (simp add: gige_returns_def gige_pow_65535)

lemma gige_returns_iff: "gige_returns n \<longleftrightarrow> 65535 dvd n"
proof
  assume "65535 dvd n"
  then obtain k where "n = k * 65535" by (metis dvdE mult.commute)
  then show "gige_returns n"
    by (simp only: gige_returns_mult gige_returns_full)
next
  assume n: "gige_returns n"
  define d where "d = gcd n 65535"
  have d: "gige_returns d"
    unfolding d_def by (rule gige_returns_gcd [OF n gige_returns_full])
  have "d = 65535"
  proof (rule ccontr)
    assume "d \<noteq> 65535"
    then obtain k where k: "k \<in> {21845, 13107, 3855, 255}" "d dvd k"
      using proper_divisor_65535 [of d] by (auto simp: d_def)
    then obtain c where "k = c * d" by (metis dvdE mult.commute)
    then have "gige_returns k" using d by (simp only: gige_returns_mult)
    with k(1) show False
      by (auto simp: gige_returns_def gige_pow_21845 gige_pow_13107 gige_pow_3855 gige_pow_255)
  qed
  then show "65535 dvd n" by (metis d_def gcd_dvd1)
qed

text \<open>The \<open>65535\<close> states of the orbit are different, so they are all states but 0.\<close>

lemma gige_orbit: "(\<lambda>i. (gige_next ^^ i) 1) ` {..<65535} = UNIV - {0 :: u16}"
proof (rule card_subset_eq)
  have "inj_on (\<lambda>i. (gige_next ^^ i) 1) {..<65535}"
  proof (rule linorder_inj_onI)
    fix i j :: nat
    assume "i < j" "j \<in> {..<65535}"
    then have "\<not> gige_returns (j - i)" by (auto simp: gige_returns_iff dest: dvd_imp_le)
    moreover have "(gige_next ^^ j) 1 = (gige_next ^^ i) ((gige_next ^^ (j - i)) 1)"
      using \<open>i < j\<close> by (simp flip: funpow_add [THEN fun_cong, simplified comp_apply])
    ultimately show "(gige_next ^^ i) 1 \<noteq> (gige_next ^^ j) 1"
      by (metis gige_pow_inj gige_returns_def injD)
  qed auto
  then show "card ((\<lambda>i. (gige_next ^^ i) 1) ` {..<65535}) = card (UNIV - {0 :: u16})"
    by (simp add: card_image card_Diff_singleton card_word)
  show "(\<lambda>i. (gige_next ^^ i) 1) ` {..<65535} \<subseteq> UNIV - {0 :: u16}"
    by auto (metis gige_pow_inj injD lfsr_next_pow_0 one_neq_zero)
qed simp

text \<open>C23: The register with the polynomial documented in \<open>lfsr.h\<close> has the largest possible period:
  from every state but 0, a number of steps returns to that state exactly when it is a multiple
  of \<open>65535\<close>.\<close>

theorem gige_lfsr_period:
  assumes "s \<noteq> 0"
  shows "(lfsr_next 0x8016 ^^ n) s = s \<longleftrightarrow> 65535 dvd n"
proof -
  have "s \<in> (\<lambda>i. (gige_next ^^ i) 1) ` {..<65535}"
    unfolding gige_orbit using assms by simp
  then obtain i where s: "s = (gige_next ^^ i) 1" by blast
  have "(gige_next ^^ n) s = (gige_next ^^ i) ((gige_next ^^ n) 1)"
    by (simp add: s add.commute flip: funpow_add [THEN fun_cong, simplified comp_apply])
  then have "(gige_next ^^ n) s = s \<longleftrightarrow> gige_returns n"
    unfolding s gige_returns_def using gige_pow_inj by (auto dest: injD)
  then show ?thesis by (simp add: gige_returns_iff)
qed

theorem gige_lfsr_period_witness:
  "(lfsr_next 0x8016 ^^ 131070) 0xffff = 0xffff \<and> (lfsr_next 0x8016 ^^ 1000) 0xffff \<noteq> 0xffff"
  using gige_lfsr_period [of "0xffff" 131070] gige_lfsr_period [of "0xffff" 1000] by simp

end
