(* ===== verification/Linked_List.thy ===== *)
theory Linked_List
  imports Prelude
begin

text \<open>
  \<open>includes/list.h\<close>: the circular, doubly linked lists of the Linux kernel. The memory maps the
  addresses of \<open>struct list_head\<close> objects to their two pointers; an operation that follows a
  pointer to anything else (\<open>NULL\<close>, a poisoned link) is undefined, which is \<^term>\<open>None\<close>.
  Addresses are 64-bit words, so that \<open>container_of\<close> computes as in C. The functions whose C
  name starts with two underscores are called \<open>raw_\<dots>\<close> here. \<open>Linked_List_More\<close> has the other iteration macros. \<open>hlist_\<dots>\<close> is compiled out in
  the header (\<open>#if 0\<close>). \<open>prefetch\<close>, which \<open>list_for_each_prev\<close> calls and nothing defines, is read as the
  Linux kernel's, which has no effect.
\<close>

type_synonym addr = "64 word"

record list_head =
  lh_next :: addr
  lh_prev :: addr

type_synonym lmem = "addr \<rightharpoonup> list_head"

definition LIST_POISON1 :: addr where "LIST_POISON1 = 0x00100100"
definition LIST_POISON2 :: addr where "LIST_POISON2 = 0x00200200"

text \<open>Reading and writing the fields of the object at an address.\<close>

definition get_next :: "addr \<Rightarrow> lmem \<Rightarrow> addr option" where
  "get_next p m = map_option lh_next (m p)"

definition get_prev :: "addr \<Rightarrow> lmem \<Rightarrow> addr option" where
  "get_prev p m = map_option lh_prev (m p)"

definition set_next :: "addr \<Rightarrow> addr \<Rightarrow> lmem \<Rightarrow> lmem option" where
  "set_next p v m = (case m p of None \<Rightarrow> None | Some n \<Rightarrow> Some (m(p \<mapsto> n\<lparr>lh_next := v\<rparr>)))"

definition set_prev :: "addr \<Rightarrow> addr \<Rightarrow> lmem \<Rightarrow> lmem option" where
  "set_prev p v m = (case m p of None \<Rightarrow> None | Some n \<Rightarrow> Some (m(p \<mapsto> n\<lparr>lh_prev := v\<rparr>)))"

subsection \<open>The operations\<close>

definition INIT_LIST_HEAD :: "addr \<Rightarrow> lmem \<Rightarrow> lmem option" where
  "INIT_LIST_HEAD p m = do { m \<leftarrow> set_next p p m; set_prev p p m }"

definition raw_list_add :: "addr \<Rightarrow> addr \<Rightarrow> addr \<Rightarrow> lmem \<Rightarrow> lmem option" where
  "raw_list_add entry prv nxt m = do {
     m \<leftarrow> set_prev nxt entry m;
     m \<leftarrow> set_next entry nxt m;
     m \<leftarrow> set_prev entry prv m;
     set_next prv entry m }"

definition list_add :: "addr \<Rightarrow> addr \<Rightarrow> lmem \<Rightarrow> lmem option" where
  "list_add entry head m = do { nxt \<leftarrow> get_next head m; raw_list_add entry head nxt m }"

definition list_add_tail :: "addr \<Rightarrow> addr \<Rightarrow> lmem \<Rightarrow> lmem option" where
  "list_add_tail entry head m = do { prv \<leftarrow> get_prev head m; raw_list_add entry prv head m }"

definition raw_list_del :: "addr \<Rightarrow> addr \<Rightarrow> lmem \<Rightarrow> lmem option" where
  "raw_list_del prv nxt m = do { m \<leftarrow> set_prev nxt prv m; set_next prv nxt m }"

definition list_unlink :: "addr \<Rightarrow> lmem \<Rightarrow> lmem option" where
  \<comment> \<open>the call \<open>__list_del(entry->prev, entry->next)\<close> all removals start with\<close>
  "list_unlink entry m = do {
     prv \<leftarrow> get_prev entry m;
     nxt \<leftarrow> get_next entry m;
     raw_list_del prv nxt m }"

definition list_del :: "addr \<Rightarrow> lmem \<Rightarrow> lmem option" where
  "list_del entry m = do {
     m \<leftarrow> list_unlink entry m;
     m \<leftarrow> set_next entry LIST_POISON1 m;
     set_prev entry LIST_POISON2 m }"

definition list_del_init :: "addr \<Rightarrow> lmem \<Rightarrow> lmem option" where
  "list_del_init entry m = do { m \<leftarrow> list_unlink entry m; INIT_LIST_HEAD entry m }"

definition list_move :: "addr \<Rightarrow> addr \<Rightarrow> lmem \<Rightarrow> lmem option" where
  "list_move entry head m = do { m \<leftarrow> list_unlink entry m; list_add entry head m }"

definition list_move_tail :: "addr \<Rightarrow> addr \<Rightarrow> lmem \<Rightarrow> lmem option" where
  "list_move_tail entry head m = do { m \<leftarrow> list_unlink entry m; list_add_tail entry head m }"

definition list_empty :: "addr \<Rightarrow> lmem \<Rightarrow> bool option" where
  "list_empty head m = do { nxt \<leftarrow> get_next head m; Some (nxt = head) }"

definition raw_list_splice :: "addr \<Rightarrow> addr \<Rightarrow> lmem \<Rightarrow> lmem option" where
  "raw_list_splice lst head m = do {
     first \<leftarrow> get_next lst m;
     last \<leftarrow> get_prev lst m;
     at \<leftarrow> get_next head m;
     m \<leftarrow> set_prev first head m;
     m \<leftarrow> set_next head first m;
     m \<leftarrow> set_next last at m;
     set_prev at last m }"

definition list_splice :: "addr \<Rightarrow> addr \<Rightarrow> lmem \<Rightarrow> lmem option" where
  "list_splice lst head m = do {
     e \<leftarrow> list_empty lst m;
     if e then Some m else raw_list_splice lst head m }"

definition list_splice_init :: "addr \<Rightarrow> addr \<Rightarrow> lmem \<Rightarrow> lmem option" where
  "list_splice_init lst head m = do {
     e \<leftarrow> list_empty lst m;
     if e then Some m else do { m \<leftarrow> raw_list_splice lst head m; INIT_LIST_HEAD lst m } }"

subsection \<open>Iteration\<close>

text \<open>
  The iterators are loop headers; the model runs them with a body that may change the memory
  and carries a value of the caller (\<open>'s\<close>). A loop that never meets its head again does not
  return, which is \<^term>\<open>None\<close> as well.
\<close>

type_synonym 's body = "addr \<Rightarrow> lmem \<Rightarrow> 's \<Rightarrow> (lmem \<times> 's) option"

partial_function (option) for_each_from ::
  "'s body \<Rightarrow> addr \<Rightarrow> addr \<Rightarrow> lmem \<Rightarrow> 's \<Rightarrow> (lmem \<times> 's) option" where
  "for_each_from body head pos m s =
     (if pos = head then Some (m, s)
      else do {
        (m, s) \<leftarrow> body pos m s;
        pos' \<leftarrow> get_next pos m;
        for_each_from body head pos' m s })"

definition list_for_each :: "'s body \<Rightarrow> addr \<Rightarrow> lmem \<Rightarrow> 's \<Rightarrow> (lmem \<times> 's) option" where
  "list_for_each body head m s = do {
     pos \<leftarrow> get_next head m; for_each_from body head pos m s }"

partial_function (option) for_each_prev_from ::
  "'s body \<Rightarrow> addr \<Rightarrow> addr \<Rightarrow> lmem \<Rightarrow> 's \<Rightarrow> (lmem \<times> 's) option" where
  "for_each_prev_from body head pos m s =
     (if pos = head then Some (m, s)
      else do {
        (m, s) \<leftarrow> body pos m s;
        pos' \<leftarrow> get_prev pos m;
        for_each_prev_from body head pos' m s })"

definition list_for_each_prev :: "'s body \<Rightarrow> addr \<Rightarrow> lmem \<Rightarrow> 's \<Rightarrow> (lmem \<times> 's) option" where
  "list_for_each_prev body head m s = do {
     pos \<leftarrow> get_prev head m; for_each_prev_from body head pos m s }"

partial_function (option) for_each_safe_from ::
  "'s body \<Rightarrow> addr \<Rightarrow> addr \<Rightarrow> addr \<Rightarrow> lmem \<Rightarrow> 's \<Rightarrow> (lmem \<times> 's) option" where
  "for_each_safe_from body head pos n m s =
     (if pos = head then Some (m, s)
      else do {
        (m, s) \<leftarrow> body pos m s;
        n' \<leftarrow> get_next n m;
        for_each_safe_from body head n n' m s })"

definition list_for_each_safe :: "'s body \<Rightarrow> addr \<Rightarrow> lmem \<Rightarrow> 's \<Rightarrow> (lmem \<times> 's) option" where
  "list_for_each_safe body head m s = do {
     pos \<leftarrow> get_next head m;
     n \<leftarrow> get_next pos m;
     for_each_safe_from body head pos n m s }"

text \<open>
  \<open>container_of\<close> goes from the embedded link to its object, \<open>member_of\<close> back; the entry
  iterators walk object addresses.
\<close>

definition container_of :: "addr \<Rightarrow> addr \<Rightarrow> addr" where
  "container_of p off = p - off"

definition list_entry :: "addr \<Rightarrow> addr \<Rightarrow> addr" where
  "list_entry p off = container_of p off"

definition member_of :: "addr \<Rightarrow> addr \<Rightarrow> addr" where
  "member_of obj off = obj + off"

partial_function (option) for_each_entry_from ::
  "addr \<Rightarrow> 's body \<Rightarrow> addr \<Rightarrow> addr \<Rightarrow> lmem \<Rightarrow> 's \<Rightarrow> (lmem \<times> 's) option" where
  "for_each_entry_from off body head pos m s =
     (if member_of pos off = head then Some (m, s)
      else do {
        (m, s) \<leftarrow> body pos m s;
        nxt \<leftarrow> get_next (member_of pos off) m;
        for_each_entry_from off body head (list_entry nxt off) m s })"

definition list_for_each_entry ::
  "addr \<Rightarrow> 's body \<Rightarrow> addr \<Rightarrow> lmem \<Rightarrow> 's \<Rightarrow> (lmem \<times> 's) option" where
  "list_for_each_entry off body head m s = do {
     nxt \<leftarrow> get_next head m;
     for_each_entry_from off body head (list_entry nxt off) m s }"

partial_function (option) for_each_entry_safe_from ::
  "addr \<Rightarrow> 's body \<Rightarrow> addr \<Rightarrow> addr \<Rightarrow> addr \<Rightarrow> lmem \<Rightarrow> 's \<Rightarrow> (lmem \<times> 's) option" where
  "for_each_entry_safe_from off body head pos n m s =
     (if member_of pos off = head then Some (m, s)
      else do {
        (m, s) \<leftarrow> body pos m s;
        nxt \<leftarrow> get_next (member_of n off) m;
        for_each_entry_safe_from off body head n (list_entry nxt off) m s })"

definition list_for_each_entry_safe ::
  "addr \<Rightarrow> 's body \<Rightarrow> addr \<Rightarrow> lmem \<Rightarrow> 's \<Rightarrow> (lmem \<times> 's) option" where
  "list_for_each_entry_safe off body head m s = do {
     nxt \<leftarrow> get_next head m;
     nxt2 \<leftarrow> get_next (member_of (list_entry nxt off) off) m;
     for_each_entry_safe_from off body head (list_entry nxt off) (list_entry nxt2 off) m s }"

subsection \<open>Field updates\<close>

definition upd_next :: "addr \<Rightarrow> addr \<Rightarrow> lmem \<Rightarrow> lmem" where
  "upd_next p v m = m(p \<mapsto> (the (m p))\<lparr>lh_next := v\<rparr>)"

definition upd_prev :: "addr \<Rightarrow> addr \<Rightarrow> lmem \<Rightarrow> lmem" where
  "upd_prev p v m = m(p \<mapsto> (the (m p))\<lparr>lh_prev := v\<rparr>)"

lemma set_next_upd [simp]: "p \<in> dom m \<Longrightarrow> set_next p v m = Some (upd_next p v m)"
  by (auto simp: set_next_def upd_next_def)

lemma set_prev_upd [simp]: "p \<in> dom m \<Longrightarrow> set_prev p v m = Some (upd_prev p v m)"
  by (auto simp: set_prev_def upd_prev_def)

lemma dom_upd [simp]:
  "dom (upd_next p v m) = insert p (dom m)"
  "dom (upd_prev p v m) = insert p (dom m)"
  by (auto simp: upd_next_def upd_prev_def)

lemma get_upd [simp]:
  "get_next q (upd_next p v m) = (if q = p then Some v else get_next q m)"
  "get_prev q (upd_prev p v m) = (if q = p then Some v else get_prev q m)"
  "p \<in> dom m \<Longrightarrow> get_next q (upd_prev p v m) = get_next q m"
  "p \<in> dom m \<Longrightarrow> get_prev q (upd_next p v m) = get_prev q m"
  by (auto simp: get_next_def get_prev_def upd_next_def upd_prev_def)

lemma upd_other [simp]:
  "q \<noteq> p \<Longrightarrow> upd_next p v m q = m q"
  "q \<noteq> p \<Longrightarrow> upd_prev p v m q = m q"
  by (simp_all add: upd_next_def upd_prev_def)

lemma get_next_dom: "get_next p m = Some q \<Longrightarrow> p \<in> dom m"
  by (auto simp: get_next_def)

lemma get_prev_dom: "get_prev p m = Some q \<Longrightarrow> p \<in> dom m"
  by (auto simp: get_prev_def)

subsection \<open>Linked segments and rings\<close>

text \<open>
  \<open>links m l\<close>: along the address list \<open>l\<close> each object points forward to its successor and the
  successor points back. The list with head \<open>h\<close> and entries \<open>xs\<close> is the closed segment
  \<open>h, xs, h\<close> of distinct objects.
\<close>

fun links :: "lmem \<Rightarrow> addr list \<Rightarrow> bool" where
  "links m (a # b # r) \<longleftrightarrow> get_next a m = Some b \<and> get_prev b m = Some a \<and> links m (b # r)"
| "links m _ \<longleftrightarrow> True"

definition dlist :: "lmem \<Rightarrow> addr \<Rightarrow> addr list \<Rightarrow> bool" where
  "dlist m h xs \<longleftrightarrow> distinct (h # xs) \<and> links m (h # xs @ [h])"

lemma links_append: "links m (as @ x # bs) \<longleftrightarrow> links m (as @ [x]) \<and> links m (x # bs)"
proof (induction as)
  case Nil
  then show ?case by (cases bs) auto
next
  case (Cons a as)
  then show ?case by (cases as) auto
qed

lemma links_cong:
  "(\<And>a. a \<in> set (butlast l) \<Longrightarrow> get_next a m' = get_next a m) \<Longrightarrow>
   (\<And>b. b \<in> set (tl l) \<Longrightarrow> get_prev b m' = get_prev b m) \<Longrightarrow> links m' l = links m l"
proof (induction l)
  case Nil
  then show ?case by simp
next
  case (Cons a l)
  show ?case
  proof (cases l)
    case (Cons b r)
    have "links m' l = links m l"
      using Cons.prems \<open>l = b # r\<close> by (intro Cons.IH) (auto split: if_splits)
    then show ?thesis using Cons.prems \<open>l = b # r\<close> by simp
  qed simp
qed

lemma links_next_dom: "links m l \<Longrightarrow> a \<in> set (butlast l) \<Longrightarrow> a \<in> dom m"
  by (induction m l rule: links.induct) (auto dest: get_next_dom split: if_splits)

lemma dlist_dom: "dlist m h xs \<Longrightarrow> set (h # xs) \<subseteq> dom m"
  using links_next_dom [of m "h # xs @ [h]"] by (auto simp: dlist_def butlast_append)

lemma links_insert:
  assumes l: "links m (as @ p # n # bs)"
    and d: "distinct (butlast (as @ p # n # bs))" "distinct (tl (as @ p # n # bs))"
    and e: "e \<notin> set (as @ p # n # bs)" "e \<in> dom m" "p \<in> dom m" "n \<in> dom m"
    and m': "raw_list_add e p n m = Some m'"
  shows "links m' (as @ p # e # n # bs)"
proof -
  have m'_eq: "m' = upd_next p e (upd_prev e p (upd_next e n (upd_prev n e m)))"
    using m' e by (simp add: raw_list_add_def)
  have "links m' (as @ [p]) = links m (as @ [p])"
    by (rule links_cong; cases as)
      (use d e in \<open>auto simp: m'_eq butlast_append dest: in_set_butlastD split: if_splits\<close>)
  moreover have "links m' (n # bs) = links m (n # bs)"
    by (rule links_cong; cases as)
      (use d e in \<open>auto simp: m'_eq butlast_append dest: in_set_butlastD split: if_splits\<close>)
  moreover have "links m (as @ [p]) \<and> links m (n # bs)"
    using l links_append [of m as p "n # bs"] by simp
  ultimately show ?thesis
    using e unfolding links_append [of m' as p "e # n # bs"] by (auto simp: m'_eq)
qed

lemma links_remove:
  assumes l: "links m (as @ p # e # n # bs)"
    and d: "distinct (butlast (as @ p # e # n # bs))" "distinct (tl (as @ p # e # n # bs))"
    and m': "raw_list_del p n m = Some m'"
  shows "links m' (as @ p # n # bs)"
proof -
  have pn: "p \<in> dom m" "n \<in> dom m"
    using l links_append [of m as p "e # n # bs"] by (auto dest: get_next_dom get_prev_dom)
  then have m'_eq: "m' = upd_next p n (upd_prev n p m)"
    using m' by (simp add: raw_list_del_def)
  have "links m' (as @ [p]) = links m (as @ [p])"
    by (rule links_cong; cases as)
      (use d pn in \<open>auto simp: m'_eq butlast_append dest: in_set_butlastD split: if_splits\<close>)
  moreover have "links m' (n # bs) = links m (n # bs)"
    by (rule links_cong; cases as)
      (use d pn in \<open>auto simp: m'_eq butlast_append dest: in_set_butlastD split: if_splits\<close>)
  moreover have "links m (as @ [p]) \<and> links m (n # bs)"
    using l links_append [of m as p "e # n # bs"] by simp
  ultimately show ?thesis
    using pn unfolding links_append [of m' as p "n # bs"] by (simp add: m'_eq)
qed

text \<open>What an operation may have touched, and the rings that do not notice.\<close>

definition only_changes :: "addr set \<Rightarrow> lmem \<Rightarrow> lmem \<Rightarrow> bool" where
  "only_changes A m m' \<longleftrightarrow> dom m' = dom m \<and> (\<forall>q. q \<notin> A \<longrightarrow> m' q = m q)"

lemma only_changesD: "only_changes A m m' \<Longrightarrow> q \<notin> A \<Longrightarrow> m' q = m q"
  by (simp add: only_changes_def)

lemma only_changes_dom: "only_changes A m m' \<Longrightarrow> dom m' = dom m"
  by (simp add: only_changes_def)

lemma only_changes_trans:
  "only_changes A m m' \<Longrightarrow> only_changes B m' m'' \<Longrightarrow> A \<union> B \<subseteq> C \<Longrightarrow> only_changes C m m''"
  unfolding only_changes_def by (metis Un_iff subsetD)

lemma only_changes_mono: "only_changes A m m' \<Longrightarrow> A \<subseteq> B \<Longrightarrow> only_changes B m m'"
  by (auto simp: only_changes_def)

lemma dlist_frame:
  assumes "dlist m h xs" and "only_changes A m m'" and "set (h # xs) \<inter> A = {}"
  shows "dlist m' h xs"
proof -
  have "m' q = m q" if "q \<in> set (h # xs @ [h])" for q
    using assms(2,3) that by (auto dest: only_changesD)
  then have "links m' (h # xs @ [h]) = links m (h # xs @ [h])"
    by (intro links_cong) (auto simp: get_next_def get_prev_def dest: in_set_butlastD)
  then show ?thesis using assms(1) by (simp add: dlist_def)
qed

lemma raw_list_add_total:
  assumes "e \<in> dom m" "p \<in> dom m" "n \<in> dom m"
  obtains m' where "raw_list_add e p n m = Some m'" "only_changes {e, p, n} m m'"
  using assms by (auto simp: raw_list_add_def only_changes_def)

lemma raw_list_del_total:
  assumes "p \<in> dom m" "n \<in> dom m"
  obtains m' where "raw_list_del p n m = Some m'" "only_changes {p, n} m m'"
  using assms by (auto simp: raw_list_del_def only_changes_def)

lemma INIT_LIST_HEAD_dlist:
  assumes "p \<in> dom m"
  obtains m' where "INIT_LIST_HEAD p m = Some m'" "dlist m' p []" "only_changes {p} m m'"
  using assms by (auto simp: INIT_LIST_HEAD_def dlist_def only_changes_def)

subsection \<open>Refinement of list operations\<close>

lemma dlist_first: "dlist m h xs \<Longrightarrow> get_next h m = Some (hd (xs @ [h]))"
  by (cases xs) (auto simp: dlist_def)

lemma dlist_last: "dlist m h xs \<Longrightarrow> get_prev h m = Some (last (h # xs))"
proof (cases xs rule: rev_cases)
  case (snoc zs z)
  then show "dlist m h xs \<Longrightarrow> get_prev h m = Some (last (h # xs))"
    using links_append [of m "h # zs" z "[h]"] by (simp add: dlist_def)
qed (simp add: dlist_def)

lemma dlist_distinct: "dlist m h xs \<Longrightarrow> distinct (h # xs)"
  by (simp add: dlist_def)

text \<open>A ring cut between its prefix \<open>h, xs\<close> and its suffix \<open>ys, h\<close>.\<close>

lemma ring_cut:
  fixes xs ys :: "addr list"
  obtains as p n bs where "h # xs = as @ [p]" "ys @ [h] = n # bs"
    and "p = last (h # xs)" "n = hd (ys @ [h])"
    and "p \<in> set (h # xs)" "n \<in> set (h # ys)"
proof -
  have "h # xs = butlast (h # xs) @ [last (h # xs)]" by (simp add: append_butlast_last_id)
  moreover have "ys @ [h] = hd (ys @ [h]) # tl (ys @ [h])" by (cases ys) auto
  moreover have "last (h # xs) \<in> set (h # xs)" by (rule last_in_set) simp
  moreover have "hd (ys @ [h]) \<in> set (h # ys)" by (cases ys) auto
  ultimately show ?thesis using that by blast
qed

lemma dlist_insert:
  assumes l: "dlist m h (xs @ ys)" and e: "e \<in> dom m" "e \<notin> set (h # xs @ ys)"
  obtains m' where "raw_list_add e (last (h # xs)) (hd (ys @ [h])) m = Some m'"
    and "dlist m' h (xs @ e # ys)" and "only_changes (set (e # h # xs @ ys)) m m'"
proof -
  obtain as p n bs where h1: "h # xs = as @ [p]" and h2: "ys @ [h] = n # bs"
    and p: "p = last (h # xs)" and n: "n = hd (ys @ [h])"
    and "p \<in> set (h # xs)" "n \<in> set (h # ys)"
    by (rule ring_cut)
  then have pn: "p \<in> set (h # xs @ ys)" "n \<in> set (h # xs @ ys)" by auto
  have eq: "h # (xs @ ys) @ [h] = as @ p # n # bs"
    using arg_cong2 [where f = append, OF h1 h2] by simp
  have "p \<in> dom m" "n \<in> dom m" using pn dlist_dom [OF l] by auto
  with e(1) obtain m' where m': "raw_list_add e p n m = Some m'" "only_changes {e, p, n} m m'"
    by (rule raw_list_add_total)
  have "links m' (as @ p # e # n # bs)"
  proof (rule links_insert [OF _ _ _ _ _ _ _ m'(1)])
    show "links m (as @ p # n # bs)"
      "distinct (butlast (as @ p # n # bs))" "distinct (tl (as @ p # n # bs))"
      using l unfolding eq [symmetric] by (auto simp: dlist_def butlast_append)
    show "e \<notin> set (as @ p # n # bs)" using e(2) unfolding eq [symmetric] by auto
  qed (use e pn dlist_dom [OF l] in auto)
  moreover have "h # (xs @ e # ys) @ [h] = as @ p # e # n # bs"
    using arg_cong2 [where f = append, OF h1 arg_cong [where f = "(#) e", OF h2]] by simp
  ultimately have "dlist m' h (xs @ e # ys)"
    using dlist_distinct [OF l] e(2) unfolding dlist_def by auto
  moreover have "only_changes (set (e # h # xs @ ys)) m m'"
    by (rule only_changes_mono [OF m'(2)]) (use pn in auto)
  ultimately show ?thesis using m'(1) that unfolding p n by blast
qed

lemma dlist_unlink:
  assumes l: "dlist m h (xs @ e # ys)"
  obtains m' where "list_unlink e m = Some m'"
    and "dlist m' h (xs @ ys)" and "only_changes (set (h # xs @ ys)) m m'"
proof -
  obtain as p n bs where h1: "h # xs = as @ [p]" and h2: "ys @ [h] = n # bs"
    and p: "p = last (h # xs)" and n: "n = hd (ys @ [h])"
    and "p \<in> set (h # xs)" "n \<in> set (h # ys)"
    by (rule ring_cut)
  then have pn: "p \<in> set (h # xs @ ys)" "n \<in> set (h # xs @ ys)" by auto
  have eq: "h # (xs @ e # ys) @ [h] = as @ p # e # n # bs"
    using arg_cong2 [where f = append, OF h1 arg_cong [where f = "(#) e", OF h2]] by simp
  have links: "links m (as @ p # e # n # bs)"
    using l unfolding dlist_def eq by simp
  then have pe: "get_prev e m = Some p" "get_next e m = Some n"
    using links_append [of m as p "e # n # bs"] by auto
  have "p \<in> dom m" "n \<in> dom m" using pn dlist_dom [OF l] by auto
  then obtain m' where m': "raw_list_del p n m = Some m'" "only_changes {p, n} m m'"
    by (rule raw_list_del_total)
  have "links m' (as @ p # n # bs)"
  proof (rule links_remove [OF links _ _ m'(1)])
    show "distinct (butlast (as @ p # e # n # bs))" "distinct (tl (as @ p # e # n # bs))"
      using l unfolding eq [symmetric] by (auto simp: dlist_def butlast_append)
  qed
  moreover have "h # (xs @ ys) @ [h] = as @ p # n # bs"
    using arg_cong2 [where f = append, OF h1 h2] by simp
  ultimately have "dlist m' h (xs @ ys)"
    using dlist_distinct [OF l] unfolding dlist_def by auto
  moreover have "list_unlink e m = Some m'" using pe m'(1) by (simp add: list_unlink_def)
  moreover have "only_changes (set (h # xs @ ys)) m m'"
    by (rule only_changes_mono [OF m'(2)]) (use pn in auto)
  ultimately show ?thesis using that by blast
qed

lemma list_add_dlist:
  assumes "dlist m h xs" "e \<in> dom m" "e \<notin> set (h # xs)"
  obtains m' where "list_add e h m = Some m'" "dlist m' h (e # xs)"
    and "only_changes (set (e # h # xs)) m m'"
  using dlist_insert [of m h "[]" xs e] assms by (auto simp: list_add_def dlist_first)

lemma list_add_tail_dlist:
  assumes "dlist m h xs" "e \<in> dom m" "e \<notin> set (h # xs)"
  obtains m' where "list_add_tail e h m = Some m'" "dlist m' h (xs @ [e])"
    and "only_changes (set (e # h # xs)) m m'"
  using dlist_insert [of m h xs "[]" e] assms
  by (auto simp: list_add_tail_def dlist_last simp del: last.simps)

lemma list_empty_dlist: "dlist m h xs \<Longrightarrow> list_empty h m = Some (xs = [])"
  by (cases xs) (auto simp: list_empty_def dlist_first dlist_def)

lemma list_del_dlist:
  assumes "dlist m h (xs @ e # ys)"
  obtains m' where "list_del e m = Some m'" "dlist m' h (xs @ ys)"
    and "get_next e m' = Some LIST_POISON1" "get_prev e m' = Some LIST_POISON2"
    and "only_changes (set (h # xs @ e # ys)) m m'"
proof -
  obtain m1 where m1: "list_unlink e m = Some m1" "dlist m1 h (xs @ ys)"
    "only_changes (set (h # xs @ ys)) m m1"
    using assms by (rule dlist_unlink)
  define m2 where "m2 = upd_prev e LIST_POISON2 (upd_next e LIST_POISON1 m1)"
  have e: "e \<in> dom m1" using dlist_dom [OF assms] m1(3) by (auto simp: only_changes_dom)
  then have c: "only_changes {e} m1 m2" by (auto simp: only_changes_def m2_def)
  have "list_del e m = Some m2" using m1(1) e by (simp add: list_del_def m2_def)
  moreover have "dlist m2 h (xs @ ys)"
    using dlist_distinct [OF assms] by (intro dlist_frame [OF m1(2) c]) auto
  moreover have "get_next e m2 = Some LIST_POISON1" "get_prev e m2 = Some LIST_POISON2"
    using e by (simp_all add: m2_def)
  moreover have "only_changes (set (h # xs @ e # ys)) m m2"
    by (rule only_changes_trans [OF m1(3) c]) auto
  ultimately show ?thesis using that by blast
qed

lemma list_del_init_dlist:
  assumes "dlist m h (xs @ e # ys)"
  obtains m' where "list_del_init e m = Some m'" "dlist m' h (xs @ ys)" "dlist m' e []"
    and "only_changes (set (h # xs @ e # ys)) m m'"
proof -
  obtain m1 where m1: "list_unlink e m = Some m1" "dlist m1 h (xs @ ys)"
    "only_changes (set (h # xs @ ys)) m m1"
    using assms by (rule dlist_unlink)
  have "e \<in> dom m1" using dlist_dom [OF assms] m1(3) by (auto simp: only_changes_dom)
  then obtain m2 where m2: "INIT_LIST_HEAD e m1 = Some m2" "dlist m2 e []"
    "only_changes {e} m1 m2"
    by (rule INIT_LIST_HEAD_dlist)
  have "dlist m2 h (xs @ ys)"
    using dlist_distinct [OF assms] by (intro dlist_frame [OF m1(2) m2(3)]) auto
  moreover have "only_changes (set (h # xs @ e # ys)) m m2"
    by (rule only_changes_trans [OF m1(3) m2(3)]) auto
  ultimately show ?thesis using that m1(1) m2(1,2) by (simp add: list_del_init_def)
qed

text \<open>
  Moving an entry to another list, or within its own: the list it leaves and the list it enters.
\<close>

lemma list_move_dlist:
  assumes l: "dlist m h (xs @ e # ys)" and k: "dlist m g zs"
    and disj: "set (h # xs @ e # ys) \<inter> set (g # zs) = {}"
  obtains m' where "list_move e g m = Some m'" "dlist m' h (xs @ ys)" "dlist m' g (e # zs)"
proof -
  obtain m1 where m1: "list_unlink e m = Some m1" "dlist m1 h (xs @ ys)"
    "only_changes (set (h # xs @ ys)) m m1"
    using l by (rule dlist_unlink)
  have "e \<in> dom m1" using dlist_dom [OF l] m1(3) by (auto simp: only_changes_dom)
  moreover have "dlist m1 g zs" using disj by (intro dlist_frame [OF k m1(3)]) auto
  moreover have "e \<notin> set (g # zs)" using disj by auto
  ultimately obtain m2 where m2: "list_add e g m1 = Some m2" "dlist m2 g (e # zs)"
    "only_changes (set (e # g # zs)) m1 m2"
    using list_add_dlist by blast
  have "dlist m2 h (xs @ ys)"
    using disj dlist_distinct [OF l] by (intro dlist_frame [OF m1(2) m2(3)]) auto
  then show ?thesis using that m1(1) m2(1,2) by (simp add: list_move_def)
qed

lemma list_move_tail_dlist:
  assumes l: "dlist m h (xs @ e # ys)" and k: "dlist m g zs"
    and disj: "set (h # xs @ e # ys) \<inter> set (g # zs) = {}"
  obtains m' where "list_move_tail e g m = Some m'" "dlist m' h (xs @ ys)" "dlist m' g (zs @ [e])"
proof -
  obtain m1 where m1: "list_unlink e m = Some m1" "dlist m1 h (xs @ ys)"
    "only_changes (set (h # xs @ ys)) m m1"
    using l by (rule dlist_unlink)
  have "e \<in> dom m1" using dlist_dom [OF l] m1(3) by (auto simp: only_changes_dom)
  moreover have "dlist m1 g zs" using disj by (intro dlist_frame [OF k m1(3)]) auto
  moreover have "e \<notin> set (g # zs)" using disj by auto
  ultimately obtain m2 where m2: "list_add_tail e g m1 = Some m2" "dlist m2 g (zs @ [e])"
    "only_changes (set (e # g # zs)) m1 m2"
    using list_add_tail_dlist by blast
  have "dlist m2 h (xs @ ys)"
    using disj dlist_distinct [OF l] by (intro dlist_frame [OF m1(2) m2(3)]) auto
  then show ?thesis using that m1(1) m2(1,2) by (simp add: list_move_tail_def)
qed

lemma list_move_same_dlist:
  assumes l: "dlist m h (xs @ e # ys)"
  obtains m' m'' where "list_move e h m = Some m'" "dlist m' h (e # xs @ ys)"
    and "list_move_tail e h m = Some m''" "dlist m'' h (xs @ ys @ [e])"
proof -
  obtain m1 where m1: "list_unlink e m = Some m1" "dlist m1 h (xs @ ys)"
    "only_changes (set (h # xs @ ys)) m m1"
    using l by (rule dlist_unlink)
  have e: "e \<in> dom m1" using dlist_dom [OF l] m1(3) by (auto simp: only_changes_dom)
  have e': "e \<notin> set (h # xs @ ys)" using dlist_distinct [OF l] by auto
  show ?thesis
    using list_add_dlist [OF m1(2) e e'] list_add_tail_dlist [OF m1(2) e e'] that m1(1)
    by (metis append.assoc bind.bind_lunit list_move_def list_move_tail_def)
qed

subsection \<open>Splicing\<close>

lemma links_join:
  "links m (as @ [a]) \<Longrightarrow> get_next a m = Some b \<Longrightarrow> get_prev b m = Some a \<Longrightarrow> links m (b # bs) \<Longrightarrow>
   links m (as @ a # b # bs)"
  by (simp add: links_append [of m as a "b # bs"])

lemma links_suffix: "links m (as @ bs) \<Longrightarrow> links m bs"
proof (induction as)
  case (Cons a as)
  then show ?case by (cases "as @ bs") auto
qed simp

lemma links_prefix: "links m (as @ bs) \<Longrightarrow> links m as"
  by (induction m as rule: links.induct) auto

lemma dlist_next:
  assumes "dlist m h (as @ a # bs)"
  shows "get_next a m = Some (hd (bs @ [h]))"
  using assms links_suffix [of m "h # as" "a # bs @ [h]"] by (cases bs) (auto simp: dlist_def)

lemma raw_list_splice_dlist:
  assumes l: "dlist m l ys" and k: "dlist m h xs" and ne: "ys \<noteq> []"
    and disj: "set (l # ys) \<inter> set (h # xs) = {}"
  obtains m' where "raw_list_splice l h m = Some m'" "dlist m' h (ys @ xs)"
    and "only_changes (set (h # ys @ xs)) m m'"
proof -
  define a where "a = hd (xs @ [h])"
  define bs where "bs = tl (xs @ [h])"
  have ab: "xs @ [h] = a # bs" unfolding a_def bs_def by (cases xs) auto
  define m' where
    "m' = upd_prev a (last ys) (upd_next (last ys) a (upd_next h (hd ys) (upd_prev (hd ys) h m)))"
  have a: "a \<in> set (h # xs)" unfolding a_def by (cases xs) auto
  have hl: "hd ys \<in> set ys" "last ys \<in> set ys" using ne by auto
  have dom: "a \<in> dom m" "hd ys \<in> dom m" "last ys \<in> dom m" "h \<in> dom m"
    using dlist_dom [OF l] dlist_dom [OF k] a hl by auto
  have neq: "hd ys \<noteq> a" "last ys \<noteq> a" "hd ys \<noteq> h" "last ys \<noteq> h"
    using disj a hl by auto
  have d: "distinct ys" "distinct (h # xs)" using l k by (auto simp: dlist_def)
  have run: "raw_list_splice l h m = Some m'"
    using dom ne dlist_first [OF l] dlist_last [OF l] dlist_first [OF k]
    by (simp add: raw_list_splice_def m'_def a_def insert_absorb)
  have "links m ys"
    using l links_prefix [OF links_suffix, of m "[l]" ys "[l]"] by (simp add: dlist_def)
  moreover have "links m' ys = links m ys"
    using hd_notin_tl [OF d(1) ne] last_notin_butlast [OF d(1) ne] dom neq disj a
    by (intro links_cong) (auto simp: m'_def insert_absorb dest: in_set_butlastD in_set_tlD)
  moreover have "links m (a # bs)"
    using k links_suffix [of m "[h]" "xs @ [h]"] by (simp add: dlist_def ab)
  moreover have "links m' (xs @ [h]) = links m (xs @ [h])"
    using d(2) dom neq disj hl
    by (intro links_cong; cases xs) (auto simp: m'_def insert_absorb a_def)
  moreover have "get_next h m' = Some (hd ys)" "get_prev (hd ys) m' = Some h"
    "get_next (last ys) m' = Some a" "get_prev a m' = Some (last ys)"
    using dom neq by (simp_all add: m'_def insert_absorb)
  ultimately have "links m' ((h # butlast ys) @ last ys # a # bs)"
    using ne by (intro links_join) (cases ys, auto simp: ab append_butlast_last_id)
  moreover have "(h # butlast ys) @ last ys # a # bs = h # (ys @ xs) @ [h]"
    using ab ne by (metis append.assoc append_Cons append_Nil append_butlast_last_id)
  moreover have "distinct (h # ys @ xs)" using d disj by auto
  ultimately have "dlist m' h (ys @ xs)" by (simp add: dlist_def)
  moreover have "only_changes {a, hd ys, last ys, h} m m'"
    using dom by (auto simp: only_changes_def m'_def insert_absorb)
  then have "only_changes (set (h # ys @ xs)) m m'"
    by (rule only_changes_mono) (use a hl in auto)
  ultimately show ?thesis using run that by blast
qed

lemma list_splice_dlist:
  assumes "dlist m l ys" "dlist m h xs" "set (l # ys) \<inter> set (h # xs) = {}"
  obtains m' where "list_splice l h m = Some m'" "dlist m' h (ys @ xs)"
    and "only_changes (set (h # ys @ xs)) m m'"
proof (cases "ys = []")
  case True
  then show ?thesis
    using that [of m] assms by (simp add: list_splice_def list_empty_dlist only_changes_def)
next
  case False
  then show ?thesis
    using raw_list_splice_dlist [OF assms(1,2) _ assms(3)] assms(1) that
    by (auto simp: list_splice_def list_empty_dlist)
qed

lemma list_splice_init_dlist:
  assumes l: "dlist m l ys" and k: "dlist m h xs" and disj: "set (l # ys) \<inter> set (h # xs) = {}"
  obtains m' where "list_splice_init l h m = Some m'" "dlist m' h (ys @ xs)" "dlist m' l []"
    and "only_changes (set (l # h # ys @ xs)) m m'"
proof (cases "ys = []")
  case True
  then show ?thesis
    using that [of m] l k by (simp add: list_splice_init_def list_empty_dlist [OF l] only_changes_def)
next
  case False
  obtain m1 where m1: "raw_list_splice l h m = Some m1" "dlist m1 h (ys @ xs)"
    "only_changes (set (h # ys @ xs)) m m1"
    using raw_list_splice_dlist [OF l k False disj] .
  have "l \<in> dom m1" using dlist_dom [OF l] m1(3) by (auto simp: only_changes_dom)
  then obtain m2 where m2: "INIT_LIST_HEAD l m1 = Some m2" "dlist m2 l []" "only_changes {l} m1 m2"
    by (rule INIT_LIST_HEAD_dlist)
  have "dlist m2 h (ys @ xs)"
    using disj dlist_distinct [OF l] by (intro dlist_frame [OF m1(2) m2(3)]) auto
  moreover have "only_changes (set (l # h # ys @ xs)) m m2"
    by (rule only_changes_trans [OF m1(3) m2(3)]) auto
  ultimately show ?thesis
    using that m1(1) m2 False by (simp add: list_splice_init_def list_empty_dlist [OF l])
qed

subsection \<open>Iterators\<close>

text \<open>
  A body that leaves the memory alone sees the entries of the list in order, a body under
  \<open>list_for_each_prev\<close> in reverse order; both loops end at the head.
\<close>

definition visit :: "(addr \<Rightarrow> 's \<Rightarrow> 's) \<Rightarrow> 's body" where
  "visit f pos m s = Some (m, f pos s)"

lemma for_each_from_links:
  "links m (pos # rest) \<Longrightarrow> last (pos # rest) = head \<Longrightarrow> head \<notin> set (butlast (pos # rest)) \<Longrightarrow>
   for_each_from (visit f) head pos m s = Some (m, fold f (butlast (pos # rest)) s)"
proof (induction rest arbitrary: pos s)
  case Nil
  then show ?case by (simp add: for_each_from.simps)
next
  case (Cons a rest)
  then have "get_next pos m = Some a" "pos \<noteq> head" by auto
  moreover have "for_each_from (visit f) head a m (f pos s) =
      Some (m, fold f (butlast (a # rest)) (f pos s))"
    by (rule Cons.IH) (use Cons.prems in auto)
  ultimately show ?case
    by (simp add: for_each_from.simps [of _ _ pos] visit_def [of f pos m s] del: butlast.simps)
      simp
qed

lemma list_for_each_visit:
  assumes "dlist m h xs"
  shows "list_for_each (visit f) h m s = Some (m, fold f xs s)"
proof -
  have "xs @ [h] = hd (xs @ [h]) # tl (xs @ [h])" by (cases xs) auto
  moreover have "links m (xs @ [h])"
    using assms links_suffix [of m "[h]" "xs @ [h]"] by (simp add: dlist_def)
  ultimately show ?thesis
    using for_each_from_links [of m "hd (xs @ [h])" "tl (xs @ [h])" h f s] assms
    by (simp add: list_for_each_def dlist_first dlist_def)
qed

lemma for_each_prev_from_links:
  "links m (head # xs) \<Longrightarrow> head \<notin> set xs \<Longrightarrow>
   for_each_prev_from (visit f) head (last (head # xs)) m s = Some (m, fold f (rev xs) s)"
proof (induction xs arbitrary: s rule: rev_induct)
  case Nil
  then show ?case by (simp add: for_each_prev_from.simps)
next
  case (snoc x xs)
  have l: "links m (head # xs)"
    using links_prefix [of m "head # xs" "[x]"] snoc.prems by simp
  have "links m (butlast (head # xs) @ [last (head # xs), x])"
    using snoc.prems by (metis append.assoc append_Cons append_Nil append_butlast_last_id list.distinct(1))
  then have "get_prev x m = Some (last (head # xs))"
    using links_suffix [of m "butlast (head # xs)" "[last (head # xs), x]"] by simp
  moreover have "last (head # xs @ [x]) = x" by simp
  ultimately show ?case
    using snoc.IH [OF l, of "f x s"] snoc.prems
    by (auto simp: for_each_prev_from.simps [of _ _ x] visit_def [of f x m s] simp del: last.simps)
qed

lemma list_for_each_prev_visit:
  assumes "dlist m h xs"
  shows "list_for_each_prev (visit f) h m s = Some (m, fold f (rev xs) s)"
proof -
  have "links m (h # xs)"
    using assms links_prefix [of m "h # xs" "[h]"] by (simp add: dlist_def)
  then show ?thesis
    using for_each_prev_from_links [of m h xs f s] assms
    by (simp add: list_for_each_prev_def dlist_last [OF assms] dlist_def del: last.simps)
qed

text \<open>
  The safe iterator may unlink the entry it visits: with \<open>list_del\<close> as its body it empties the
  list. The plain one then follows a poisoned link.
\<close>

definition del_body :: "addr list body" where
  "del_body pos m s = do { m \<leftarrow> list_del pos m; Some (m, s @ [pos]) }"

lemma for_each_safe_del:
  "dlist m h (ps @ xs) \<Longrightarrow> pos = hd (xs @ [h]) \<Longrightarrow> get_next pos m = Some n \<Longrightarrow>
   \<exists>m'. for_each_safe_from del_body h pos n m s = Some (m', s @ xs) \<and> dlist m' h ps"
proof (induction xs arbitrary: m pos n s)
  case Nil
  then show ?case by (auto simp: for_each_safe_from.simps)
next
  case (Cons x xs)
  have pos: "pos = x" "x \<noteq> h" using Cons.prems by (auto simp: dlist_def)
  have n: "n = hd (xs @ [h])" using Cons.prems dlist_next [of m h ps x xs] pos by simp
  obtain m1 where m1: "list_del x m = Some m1" "dlist m1 h (ps @ xs)"
    using list_del_dlist [of m h ps x xs] Cons.prems(1) by auto
  have "n \<in> dom m1" using dlist_dom [OF m1(2)] n by (cases xs) auto
  then obtain n' where n': "get_next n m1 = Some n'" by (auto simp: get_next_def)
  obtain m2 where "for_each_safe_from del_body h n n' m1 (s @ [x]) = Some (m2, (s @ [x]) @ xs)"
    "dlist m2 h ps"
    using Cons.IH [OF m1(2) n n', of "s @ [x]"] by blast
  then show ?case
    using m1(1) n' pos by (simp add: for_each_safe_from.simps [of _ _ x] del_body_def [of x m s])
qed

lemma list_for_each_safe_del:
  assumes "dlist m h xs"
  shows "\<exists>m'. list_for_each_safe del_body h m s = Some (m', s @ xs) \<and> dlist m' h []"
proof -
  have "hd (xs @ [h]) \<in> dom m" using dlist_dom [OF assms] by (cases xs) auto
  then obtain n where n: "get_next (hd (xs @ [h])) m = Some n" by (auto simp: get_next_def)
  show ?thesis
    using for_each_safe_del [of m h "[]" xs, OF _ refl n, of s] assms dlist_first [OF assms] n
    by (simp add: list_for_each_safe_def)
qed

lemma list_for_each_del_poison:
  assumes l: "dlist m h (x # xs)" and p: "LIST_POISON1 \<notin> dom m"
  shows "list_for_each del_body h m s = None"
proof -
  obtain m1 where m1: "list_del x m = Some m1" "get_next x m1 = Some LIST_POISON1"
    "only_changes (set (h # x # xs)) m m1"
    using list_del_dlist [of m h "[]" x xs] l by auto
  have x: "get_next h m = Some x" "x \<noteq> h" using l by (auto simp: dlist_def)
  have "h \<noteq> LIST_POISON1" using dlist_dom [OF l] p by auto
  moreover have "list_del LIST_POISON1 m1 = None"
    using p m1(3) by (auto simp: list_del_def list_unlink_def get_prev_def only_changes_def
        bind_None_iff)
  ultimately have "for_each_from del_body h LIST_POISON1 m1 (s @ [x]) = None"
    by (simp add: for_each_from.simps [of _ _ LIST_POISON1] del_body_def [of LIST_POISON1])
  then show ?thesis
    using x m1(1,2)
    by (simp add: list_for_each_def for_each_from.simps [of _ _ x] del_body_def [of x])
qed

text \<open>
  The iterators over objects are the iterators over links seen through \<open>container_of\<close>: whatever
  a loop over links returns, the loop over the objects that embed them at \<open>off\<close> returns too.
\<close>

lemma member_of_list_entry [simp]: "member_of (list_entry p off) off = p"
  by (simp add: member_of_def list_entry_def container_of_def)

lemma list_entry_member_of [simp]: "list_entry (member_of p off) off = p"
  by (simp add: member_of_def list_entry_def container_of_def)

lemma for_each_entry_from_sim:
  assumes "for_each_from (\<lambda>p. body (list_entry p off)) head pos m s = Some r"
  shows "for_each_entry_from off body head (list_entry pos off) m s = Some r"
proof -
  have "(\<lambda>p. body (list_entry p off)) = (\<lambda>p. body (list_entry p off)) \<longrightarrow> ?thesis"
  proof (rule for_each_from.raw_induct
    [where P = "\<lambda>b head pos m s r. b = (\<lambda>p. body (list_entry p off)) \<longrightarrow>
       for_each_entry_from off body head (list_entry pos off) m s = Some r",
     OF _ assms], rule impI)
  fix loop b head pos m s r
  assume IH: "\<And>b head pos m s r. loop b head pos m s = Some r \<Longrightarrow> b = (\<lambda>p. body (list_entry p off)) \<longrightarrow>
      for_each_entry_from off body head (list_entry pos off) m s = Some r"
    and run: "(if pos = head then Some (m, s)
       else do { (m, s) \<leftarrow> b pos m s; pos' \<leftarrow> get_next pos m; loop b head pos' m s }) = Some r"
    and b: "b = (\<lambda>p. body (list_entry p off))"
  show "for_each_entry_from off body head (list_entry pos off) m s = Some r"
    using run b
    by (subst for_each_entry_from.simps)
      (auto simp: bind_Some_iff dest!: IH split: if_splits)
  qed
  then show ?thesis by simp
qed

lemma for_each_entry_safe_from_sim:
  assumes "for_each_safe_from (\<lambda>p. body (list_entry p off)) head pos n m s = Some r"
  shows "for_each_entry_safe_from off body head (list_entry pos off) (list_entry n off) m s = Some r"
proof -
  have "(\<lambda>p. body (list_entry p off)) = (\<lambda>p. body (list_entry p off)) \<longrightarrow> ?thesis"
  proof (rule for_each_safe_from.raw_induct
    [where P = "\<lambda>b head pos n m s r. b = (\<lambda>p. body (list_entry p off)) \<longrightarrow>
       for_each_entry_safe_from off body head (list_entry pos off) (list_entry n off) m s = Some r",
     OF _ assms], rule impI)
  fix loop b head pos n m s r
  assume IH: "\<And>b head pos n m s r. loop b head pos n m s = Some r \<Longrightarrow>
      b = (\<lambda>p. body (list_entry p off)) \<longrightarrow>
      for_each_entry_safe_from off body head (list_entry pos off) (list_entry n off) m s = Some r"
    and run: "(if pos = head then Some (m, s)
       else do { (m, s) \<leftarrow> b pos m s; n' \<leftarrow> get_next n m; loop b head n n' m s }) = Some r"
    and b: "b = (\<lambda>p. body (list_entry p off))"
  show "for_each_entry_safe_from off body head (list_entry pos off) (list_entry n off) m s = Some r"
    using run b
    by (subst for_each_entry_safe_from.simps)
      (auto simp: bind_Some_iff dest!: IH split: if_splits)
  qed
  then show ?thesis by simp
qed

lemma list_for_each_entry_sim:
  "list_for_each (\<lambda>p. body (list_entry p off)) head m s = Some r \<Longrightarrow>
   list_for_each_entry off body head m s = Some r"
  by (auto simp: list_for_each_def list_for_each_entry_def bind_Some_iff
      dest!: for_each_entry_from_sim)

lemma list_for_each_entry_safe_sim:
  "list_for_each_safe (\<lambda>p. body (list_entry p off)) head m s = Some r \<Longrightarrow>
   list_for_each_entry_safe off body head m s = Some r"
  by (auto simp: list_for_each_safe_def list_for_each_entry_safe_def bind_Some_iff
      dest!: for_each_entry_safe_from_sim)

subsection \<open>Properties\<close>

text \<open>A memory with the list \<open>0x20, 0x30\<close> under the head \<open>0x10\<close> and an empty list at \<open>0x40\<close>.\<close>

definition sample_mem :: lmem where
  "sample_mem =
     [0x10 \<mapsto> \<lparr>lh_next = 0x20, lh_prev = 0x30\<rparr>, 0x20 \<mapsto> \<lparr>lh_next = 0x30, lh_prev = 0x10\<rparr>,
      0x30 \<mapsto> \<lparr>lh_next = 0x10, lh_prev = 0x20\<rparr>, 0x40 \<mapsto> \<lparr>lh_next = 0x40, lh_prev = 0x40\<rparr>]"

lemma sample_mem_lists:
  "dlist sample_mem 0x10 [0x20, 0x30]" "dlist sample_mem 0x40 []"
  by (simp_all add: dlist_def sample_mem_def get_next_def get_prev_def)

lemma sample_mem_dom: "dom sample_mem = {0x10, 0x20, 0x30, 0x40}"
  by (auto simp: sample_mem_def)

text \<open>C11: Inserting an object that is not in the list puts it first (\<open>list_add\<close>) or last
  (\<open>list_add_tail\<close>), keeps the list well formed in both directions, never faults and changes no
  object outside the list.\<close>

theorem list_add_inserts:
  assumes "dlist m h xs" and "e \<in> dom m" and "e \<notin> set (h # xs)"
  shows "\<exists>m1 m2. list_add e h m = Some m1 \<and> dlist m1 h (e # xs) \<and>
    only_changes (set (e # h # xs)) m m1 \<and>
    list_add_tail e h m = Some m2 \<and> dlist m2 h (xs @ [e]) \<and>
    only_changes (set (e # h # xs)) m m2"
  using list_add_dlist [OF assms] list_add_tail_dlist [OF assms] by metis

theorem list_add_inserts_witness:
  "\<exists>m1. list_add_tail 0x40 0x10 sample_mem = Some m1 \<and> dlist m1 0x10 [0x20, 0x30, 0x40]"
  using list_add_inserts [OF sample_mem_lists(1), of "0x40"] by (auto simp: sample_mem_dom)

text \<open>The entry before and the one after an entry of a ring; taking it out writes to no other node.\<close>

lemma entry_neighbours:
  assumes "dlist m h (xs @ e # ys)"
  shows "get_prev e m = Some (last (h # xs))" and "get_next e m = Some (hd (ys @ [h]))"
proof -
  obtain as p n bs where h1: "h # xs = as @ [p]" and h2: "ys @ [h] = n # bs"
    and p: "p = last (h # xs)" and n: "n = hd (ys @ [h])"
    by (rule ring_cut)
  have "h # (xs @ e # ys) @ [h] = as @ p # e # n # bs"
    using arg_cong2 [where f = append, OF h1 arg_cong [where f = "(#) e", OF h2]] by simp
  then have "links m (as @ p # e # n # bs)" using assms unfolding dlist_def by metis
  then show "get_prev e m = Some (last (h # xs))" "get_next e m = Some (hd (ys @ [h]))"
    unfolding p [symmetric] n [symmetric] using links_append [of m as p "e # n # bs"] by auto
qed

lemma list_unlink_changes:
  "\<lbrakk>list_unlink e m = Some m'; get_prev e m = Some p; get_next e m = Some n\<rbrakk> \<Longrightarrow> only_changes {p, n} m m'"
  by (auto simp: list_unlink_def raw_list_del_def set_prev_def set_next_def only_changes_def split: option.splits if_splits)

lemma list_del_changes:
  assumes "get_prev e m = Some p" and "get_next e m = Some n"
  shows "list_del e m = Some m' \<Longrightarrow> only_changes {p, e, n} m m'"
    and "list_del_init e m = Some m' \<Longrightarrow> only_changes {p, e, n} m m'"
proof -
  have e: "only_changes {p, e, n} m m'" if "list_unlink e m = Some m1" "only_changes {e} m1 m'" for m1
    by (rule only_changes_trans [OF list_unlink_changes [OF that(1) assms] that(2)]) auto
  show "only_changes {p, e, n} m m'" if gone: "list_del e m = Some m'"
  proof -
    obtain m1 where "list_unlink e m = Some m1" "do { m \<leftarrow> set_next e LIST_POISON1 m1; set_prev e LIST_POISON2 m } = Some m'"
      using gone by (auto simp: list_del_def bind_Some_iff)
    moreover from this(2) have "only_changes {e} m1 m'"
      by (auto simp: set_next_def set_prev_def only_changes_def split: option.splits if_splits)
    ultimately show ?thesis using e by blast
  qed
  show "only_changes {p, e, n} m m'" if init: "list_del_init e m = Some m'"
  proof -
    obtain m1 where "list_unlink e m = Some m1" "INIT_LIST_HEAD e m1 = Some m'"
      using init by (auto simp: list_del_init_def bind_Some_iff)
    moreover from this(2) have "only_changes {e} m1 m'"
      by (auto simp: INIT_LIST_HEAD_def set_next_def set_prev_def only_changes_def split: option.splits if_splits)
    ultimately show ?thesis using e by blast
  qed
qed

lemma list_del_init_alone:
  assumes "dlist m e []"
  shows "list_del_init e m = Some m"
proof -
  obtain nd where "m e = Some nd" "lh_next nd = e" "lh_prev nd = e"
    using assms by (auto simp: dlist_def get_next_def get_prev_def)
  then have "m e = Some \<lparr>lh_next = e, lh_prev = e\<rparr>" by simp
  then show ?thesis
    by (simp add: list_del_init_def list_unlink_def get_prev_def get_next_def raw_list_del_def set_next_def set_prev_def
        INIT_LIST_HEAD_def fun_upd_idem)
qed

text \<open>C12: \<open>list_del\<close> and \<open>list_del_init\<close> take an entry out wherever it stands and leave the rest in order; they write to
  the entry and the two nodes beside it, no others. \<open>list_del\<close> poisons both links of the entry, so that deleting it
  again follows a poisoned pointer and faults; \<open>list_del_init\<close> leaves the entry as an empty list of its own, and
  deleting it again changes nothing.\<close>

theorem list_del_removes:
  assumes "dlist m h (xs @ e # ys)" and "LIST_POISON1 \<notin> dom m"
  shows "(\<exists>m'. list_del e m = Some m' \<and> dlist m' h (xs @ ys) \<and> only_changes {last (h # xs), e, hd (ys @ [h])} m m' \<and>
      get_next e m' = Some LIST_POISON1 \<and> get_prev e m' = Some LIST_POISON2 \<and> list_del e m' = None) \<and>
    (\<exists>m'. list_del_init e m = Some m' \<and> dlist m' h (xs @ ys) \<and> only_changes {last (h # xs), e, hd (ys @ [h])} m m' \<and>
      dlist m' e [] \<and> list_del_init e m' = Some m')"
proof
  note n = entry_neighbours [OF assms(1)]
  obtain m' where m': "list_del e m = Some m'" "dlist m' h (xs @ ys)"
    "get_next e m' = Some LIST_POISON1" "get_prev e m' = Some LIST_POISON2"
    "only_changes (set (h # xs @ e # ys)) m m'"
    using assms(1) by (rule list_del_dlist)
  have "m' LIST_POISON1 = None"
    using assms(2) only_changes_dom [OF m'(5)] by blast
  then have "list_unlink e m' = None"
    by (simp add: list_unlink_def m'(3,4) raw_list_del_def set_prev_def)
  then have "list_del e m' = None" by (simp add: list_del_def)
  with m' list_del_changes(1) [OF n m'(1)]
  show "\<exists>m'. list_del e m = Some m' \<and> dlist m' h (xs @ ys) \<and> only_changes {last (h # xs), e, hd (ys @ [h])} m m' \<and>
      get_next e m' = Some LIST_POISON1 \<and> get_prev e m' = Some LIST_POISON2 \<and> list_del e m' = None"
    by blast
  obtain m1 where m1: "list_del_init e m = Some m1" "dlist m1 h (xs @ ys)" "dlist m1 e []"
    "only_changes (set (h # xs @ e # ys)) m m1"
    using assms(1) by (rule list_del_init_dlist)
  with list_del_changes(2) [OF n m1(1)] list_del_init_alone [OF m1(3)]
  show "\<exists>m'. list_del_init e m = Some m' \<and> dlist m' h (xs @ ys) \<and> only_changes {last (h # xs), e, hd (ys @ [h])} m m' \<and>
      dlist m' e [] \<and> list_del_init e m' = Some m'"
    by blast
qed

theorem list_del_removes_witness:
  "(\<exists>m'. list_del 0x20 sample_mem = Some m' \<and> dlist m' 0x10 [0x30] \<and> list_del 0x20 m' = None) \<and>
   (\<exists>m'. list_del_init 0x20 sample_mem = Some m' \<and> dlist m' 0x10 [0x30] \<and> dlist m' 0x20 [])"
  using list_del_removes [of sample_mem "0x10" "[]" "0x20" "[0x30]"]
  by (auto simp: sample_mem_lists sample_mem_dom LIST_POISON1_def)

text \<open>Moving an entry to another list removes it from the one and makes it the first
  (\<open>list_move\<close>) or last (\<open>list_move_tail\<close>) of the other; within its own list it becomes the
  first or the last.\<close>

theorem list_move_moves:
  assumes "dlist m h (xs @ e # ys)" and "dlist m g zs"
    and "set (h # xs @ e # ys) \<inter> set (g # zs) = {}"
  shows "(\<exists>m'. list_move e g m = Some m' \<and> dlist m' h (xs @ ys) \<and> dlist m' g (e # zs)) \<and>
    (\<exists>m'. list_move_tail e g m = Some m' \<and> dlist m' h (xs @ ys) \<and> dlist m' g (zs @ [e])) \<and>
    (\<exists>m'. list_move e h m = Some m' \<and> dlist m' h (e # xs @ ys)) \<and>
    (\<exists>m'. list_move_tail e h m = Some m' \<and> dlist m' h (xs @ ys @ [e]))"
  using list_move_dlist [OF assms] list_move_tail_dlist [OF assms]
    list_move_same_dlist [OF assms(1)] by metis

theorem list_move_moves_witness:
  "\<exists>m'. list_move 0x30 0x40 sample_mem = Some m' \<and> dlist m' 0x10 [0x20] \<and> dlist m' 0x40 [0x30]"
  using list_move_moves [of sample_mem "0x10" "[0x20]" "0x30" "[]" "0x40" "[]"]
  by (simp add: sample_mem_lists)

text \<open>Splicing puts all entries of one list, in order, in front of those of another; after
  \<open>list_splice_init\<close> the first list is empty again. Both hold for an empty first list.\<close>

theorem list_splice_joins:
  assumes "dlist m l ys" and "dlist m h xs" and "set (l # ys) \<inter> set (h # xs) = {}"
  shows "\<exists>m1 m2. list_splice l h m = Some m1 \<and> dlist m1 h (ys @ xs) \<and>
    list_splice_init l h m = Some m2 \<and> dlist m2 h (ys @ xs) \<and> dlist m2 l [] \<and>
    list_empty l m2 = Some True"
proof -
  obtain m1 where m1: "list_splice l h m = Some m1" "dlist m1 h (ys @ xs)"
    using assms by (rule list_splice_dlist)
  obtain m2 where m2: "list_splice_init l h m = Some m2" "dlist m2 h (ys @ xs)" "dlist m2 l []"
    using assms by (rule list_splice_init_dlist)
  show ?thesis using m1 m2 list_empty_dlist [OF m2(3)] by simp
qed

theorem list_splice_joins_witness:
  "\<exists>m2. list_splice_init 0x10 0x40 sample_mem = Some m2 \<and> dlist m2 0x40 [0x20, 0x30] \<and>
    dlist m2 0x10 []"
  using list_splice_joins [OF sample_mem_lists] by auto

text \<open>C13: The iterators end and visit every entry once, forwards in list order, backwards in
  reverse; the object iterator visits the objects that contain the entries.\<close>

theorem list_iteration_order:
  assumes "dlist m h xs"
  shows "list_for_each (visit (\<lambda>p s. s @ [p])) h m [] = Some (m, xs) \<and>
    list_for_each_prev (visit (\<lambda>p s. s @ [p])) h m [] = Some (m, rev xs) \<and>
    list_for_each_entry off (visit (\<lambda>p s. s @ [p])) h m [] =
      Some (m, map (\<lambda>p. list_entry p off) xs)"
proof -
  have snoc: "fold (\<lambda>p s. s @ [f p]) ys acc = acc @ map f ys" for f :: "addr \<Rightarrow> addr" and ys acc
    by (induction ys arbitrary: acc) auto
  have "(\<lambda>p. visit (\<lambda>p s. s @ [p]) (list_entry p off)) = visit (\<lambda>p s. s @ [list_entry p off])"
    by (auto simp: visit_def fun_eq_iff)
  then have "list_for_each (\<lambda>p. visit (\<lambda>p s. s @ [p]) (list_entry p off)) h m [] =
      Some (m, map (\<lambda>p. list_entry p off) xs)"
    using list_for_each_visit [OF assms, of "\<lambda>p s. s @ [list_entry p off]" "[]"] by (simp add: snoc)
  then show ?thesis
    using list_for_each_visit [OF assms, of "\<lambda>p s. s @ [p]" "[]"]
      list_for_each_prev_visit [OF assms, of "\<lambda>p s. s @ [p]" "[]"] snoc [of "\<lambda>p. p"]
    by (auto intro: list_for_each_entry_sim)
qed

theorem list_iteration_order_witness:
  "list_for_each_prev (visit (\<lambda>p s. s @ [p])) 0x10 sample_mem [] = Some (sample_mem, [0x30, 0x20])"
  using list_iteration_order [OF sample_mem_lists(1)] by simp

text \<open>C14: Deleting the visited entry is fine under the safe iterators, which then empty the list
  and visit all of it, but the plain iterator faults on the poisoned link after the first
  deletion.\<close>

theorem list_safe_iteration:
  assumes "dlist m h (x # xs)" and "LIST_POISON1 \<notin> dom m"
  shows "(\<exists>m'. list_for_each_safe del_body h m [] = Some (m', x # xs) \<and> dlist m' h []) \<and>
    (\<exists>m'. list_for_each_entry_safe off (\<lambda>obj. del_body (member_of obj off)) h m [] =
       Some (m', x # xs) \<and> dlist m' h []) \<and>
    list_for_each del_body h m [] = None"
proof -
  obtain m' where m': "list_for_each_safe del_body h m [] = Some (m', x # xs)" "dlist m' h []"
    using list_for_each_safe_del [OF assms(1), of "[]"] by auto
  then have "list_for_each_entry_safe off (\<lambda>obj. del_body (member_of obj off)) h m [] =
      Some (m', x # xs)"
    by (intro list_for_each_entry_safe_sim) simp
  then show ?thesis using m' list_for_each_del_poison [OF assms] by blast
qed

theorem list_safe_iteration_witness:
  "(\<exists>m'. list_for_each_safe del_body 0x10 sample_mem [] = Some (m', [0x20, 0x30]) \<and>
     dlist m' 0x10 []) \<and> list_for_each del_body 0x10 sample_mem [] = None"
  using list_safe_iteration [OF sample_mem_lists(1)] by (simp add: sample_mem_dom LIST_POISON1_def)

end
