(* ===== verification/Linked_List_More.thy ===== *)
theory Linked_List_More
  imports Linked_List
begin

text \<open>
  The other iteration macros of \<open>includes/list.h\<close>: \<open>__list_for_each\<close>, the reverse walks over objects, and those
  that continue after a given object.
\<close>

definition raw_list_for_each :: "'s body \<Rightarrow> addr \<Rightarrow> lmem \<Rightarrow> 's \<Rightarrow> (lmem \<times> 's) option" where
  "raw_list_for_each body head m s = do {
     pos \<leftarrow> get_next head m; for_each_from body head pos m s }"

partial_function (option) for_each_entry_reverse_from ::
  "addr \<Rightarrow> 's body \<Rightarrow> addr \<Rightarrow> addr \<Rightarrow> lmem \<Rightarrow> 's \<Rightarrow> (lmem \<times> 's) option" where
  "for_each_entry_reverse_from off body head pos m s =
     (if member_of pos off = head then Some (m, s)
      else do {
        (m, s) \<leftarrow> body pos m s;
        prv \<leftarrow> get_prev (member_of pos off) m;
        for_each_entry_reverse_from off body head (list_entry prv off) m s })"

definition list_for_each_entry_reverse ::
  "addr \<Rightarrow> 's body \<Rightarrow> addr \<Rightarrow> lmem \<Rightarrow> 's \<Rightarrow> (lmem \<times> 's) option" where
  "list_for_each_entry_reverse off body head m s = do {
     prv \<leftarrow> get_prev head m;
     for_each_entry_reverse_from off body head (list_entry prv off) m s }"

text \<open>\<open>list_prepare_entry\<close> uses the GNU conditional with its middle left out.\<close>

definition list_prepare_entry :: "addr \<Rightarrow> addr \<Rightarrow> addr \<Rightarrow> addr" where
  "list_prepare_entry off pos head = (if pos \<noteq> 0 then pos else list_entry head off)"

definition list_for_each_entry_continue ::
  "addr \<Rightarrow> 's body \<Rightarrow> addr \<Rightarrow> addr \<Rightarrow> lmem \<Rightarrow> 's \<Rightarrow> (lmem \<times> 's) option" where
  "list_for_each_entry_continue off body pos head m s = do {
     nxt \<leftarrow> get_next (member_of pos off) m;
     for_each_entry_from off body head (list_entry nxt off) m s }"

definition list_for_each_entry_safe_continue ::
  "addr \<Rightarrow> 's body \<Rightarrow> addr \<Rightarrow> addr \<Rightarrow> lmem \<Rightarrow> 's \<Rightarrow> (lmem \<times> 's) option" where
  "list_for_each_entry_safe_continue off body pos head m s = do {
     nxt \<leftarrow> get_next (member_of pos off) m;
     nxt2 \<leftarrow> get_next (member_of (list_entry nxt off) off) m;
     for_each_entry_safe_from off body head (list_entry nxt off) (list_entry nxt2 off) m s }"

partial_function (option) for_each_entry_safe_reverse_from ::
  "addr \<Rightarrow> 's body \<Rightarrow> addr \<Rightarrow> addr \<Rightarrow> addr \<Rightarrow> lmem \<Rightarrow> 's \<Rightarrow> (lmem \<times> 's) option" where
  "for_each_entry_safe_reverse_from off body head pos n m s =
     (if member_of pos off = head then Some (m, s)
      else do {
        (m, s) \<leftarrow> body pos m s;
        prv \<leftarrow> get_prev (member_of n off) m;
        for_each_entry_safe_reverse_from off body head n (list_entry prv off) m s })"

definition list_for_each_entry_safe_reverse ::
  "addr \<Rightarrow> 's body \<Rightarrow> addr \<Rightarrow> lmem \<Rightarrow> 's \<Rightarrow> (lmem \<times> 's) option" where
  "list_for_each_entry_safe_reverse off body head m s = do {
     prv \<leftarrow> get_prev head m;
     prv2 \<leftarrow> get_prev (member_of (list_entry prv off) off) m;
     for_each_entry_safe_reverse_from off body head (list_entry prv off) (list_entry prv2 off) m s }"

subsection \<open>Continuing\<close>

text \<open>A body that deletes the object it is given and records its link, and one that records the object.\<close>

definition del_entry :: "addr \<Rightarrow> addr list body" where
  "del_entry off obj = del_body (member_of obj off)"

definition note_entry :: "addr list body" where
  "note_entry = visit (\<lambda>p s. s @ [p])"

lemma note_entry_step: "note_entry p m s = Some (m, s @ [p])"
  by (simp add: note_entry_def visit_def)

lemma fold_snoc: "fold (\<lambda>p s. s @ [f p]) ys acc = acc @ map f ys"
  by (induction ys arbitrary: acc) auto

lemma note_entry_link: "(\<lambda>p. note_entry (list_entry p off)) = visit (\<lambda>p s. s @ [list_entry p off])"
  by (auto simp: note_entry_def visit_def fun_eq_iff)

lemma for_each_entry_from_note:
  assumes "links m (xs @ [h])" and "h \<notin> set xs"
  shows "for_each_entry_from off note_entry h (list_entry (hd (xs @ [h])) off) m s =
    Some (m, s @ map (\<lambda>p. list_entry p off) xs)"
proof (rule for_each_entry_from_sim)
  have "xs @ [h] = hd (xs @ [h]) # tl (xs @ [h])" by (cases xs) auto
  then have "for_each_from (visit (\<lambda>p s. s @ [list_entry p off])) h (hd (xs @ [h])) m s =
      Some (m, fold (\<lambda>p s. s @ [list_entry p off]) (butlast (xs @ [h])) s)"
    using for_each_from_links [of m "hd (xs @ [h])" "tl (xs @ [h])" h] assms by simp
  then show "for_each_from (\<lambda>p. note_entry (list_entry p off)) h (hd (xs @ [h])) m s =
      Some (m, s @ map (\<lambda>p. list_entry p off) xs)"
    by (simp add: note_entry_link fold_snoc)
qed

lemma dlist_rest:
  assumes "dlist m h (as @ a # bs)"
  shows "links m (bs @ [h])" "h \<notin> set bs"
  using assms links_suffix [of m "h # as @ [a]" "bs @ [h]"] by (auto simp: dlist_def)

lemma list_for_each_entry_continue_note:
  assumes "dlist m h (as @ a # bs)"
  shows "list_for_each_entry_continue off note_entry (list_entry a off) h m s =
    Some (m, s @ map (\<lambda>p. list_entry p off) bs)"
  using dlist_next [OF assms] for_each_entry_from_note [OF dlist_rest [OF assms]]
  by (simp add: list_for_each_entry_continue_def)

lemma list_for_each_entry_continue_head:
  assumes "dlist m h xs"
  shows "list_for_each_entry_continue off note_entry (list_prepare_entry off 0 h) h m s =
    Some (m, s @ map (\<lambda>p. list_entry p off) xs)"
proof -
  have "links m (xs @ [h])" "h \<notin> set xs"
    using assms links_suffix [of m "[h]" "xs @ [h]"] by (auto simp: dlist_def)
  then show ?thesis
    using dlist_first [OF assms] for_each_entry_from_note [of m xs h off s]
    by (simp add: list_for_each_entry_continue_def list_prepare_entry_def)
qed

lemma list_for_each_entry_safe_continue_del:
  assumes "dlist m h (as @ a # bs)"
  shows "\<exists>m'. list_for_each_entry_safe_continue off (del_entry off) (list_entry a off) h m s = Some (m', s @ bs) \<and>
    dlist m' h (as @ [a])"
proof -
  have "hd (bs @ [h]) \<in> dom m" using dlist_dom [OF assms] by (cases bs) auto
  then obtain n where n: "get_next (hd (bs @ [h])) m = Some n" by (auto simp: get_next_def)
  have "dlist m h ((as @ [a]) @ bs)" using assms by simp
  from for_each_safe_del [OF this refl n, of s] obtain m' where
    m': "for_each_safe_from del_body h (hd (bs @ [h])) n m s = Some (m', s @ bs)" "dlist m' h (as @ [a])"
    by blast
  have "(\<lambda>p. del_entry off (list_entry p off)) = del_body" by (simp add: del_entry_def)
  then have "for_each_entry_safe_from off (del_entry off) h (list_entry (hd (bs @ [h])) off) (list_entry n off) m s =
      Some (m', s @ bs)"
    using m'(1) by (intro for_each_entry_safe_from_sim) simp
  then show ?thesis
    using m'(2) n dlist_next [OF assms] by (simp add: list_for_each_entry_safe_continue_def)
qed

subsection \<open>Backwards\<close>

lemma dlist_prev:
  assumes "dlist m h (as @ a # bs)"
  shows "get_prev a m = Some (last (h # as))"
proof -
  have "links m (h # as @ [a])" using assms links_append [of m "h # as" a "bs @ [h]"] by (simp add: dlist_def)
  then have "links m (butlast (h # as) @ [last (h # as), a])"
    by (metis append.assoc append_Cons append_Nil append_butlast_last_id list.distinct(1))
  then show ?thesis using links_suffix by fastforce
qed

lemma for_each_entry_reverse_note:
  "dlist m h (xs @ ys) \<Longrightarrow> for_each_entry_reverse_from off note_entry h (list_entry (last (h # xs)) off) m s =
    Some (m, s @ map (\<lambda>p. list_entry p off) (rev xs))"
proof (induction xs arbitrary: ys s rule: rev_induct)
  case Nil
  show ?case by (simp add: for_each_entry_reverse_from.simps)
next
  case (snoc x xs)
  have l: "dlist m h (xs @ x # ys)" using snoc.prems by simp
  have "x \<noteq> h" using l by (auto simp: dlist_def)
  then show ?case
    using snoc.IH [OF l, of "s @ [list_entry x off]"] dlist_prev [OF l]
    by (simp add: for_each_entry_reverse_from.simps [of off note_entry h "list_entry x off"] note_entry_step [of "list_entry x off" m s])
qed

lemma list_for_each_entry_reverse_note:
  assumes "dlist m h xs"
  shows "list_for_each_entry_reverse off note_entry h m s = Some (m, s @ map (\<lambda>p. list_entry p off) (rev xs))"
  using for_each_entry_reverse_note [of m h xs "[]" off s] assms dlist_last [OF assms]
  by (simp add: list_for_each_entry_reverse_def)

lemma for_each_entry_safe_reverse_del:
  "dlist m h xs \<Longrightarrow> get_prev (last (h # xs)) m = Some n \<Longrightarrow>
   \<exists>m'. for_each_entry_safe_reverse_from off (del_entry off) h (list_entry (last (h # xs)) off) (list_entry n off) m s =
     Some (m', s @ rev xs) \<and> dlist m' h []"
proof (induction xs arbitrary: m n s rule: rev_induct)
  case Nil
  then show ?case by (simp add: for_each_entry_safe_reverse_from.simps)
next
  case (snoc x xs)
  have l: "dlist m h (xs @ x # [])" using snoc.prems(1) by simp
  have n: "n = last (h # xs)" and x: "x \<noteq> h" using dlist_prev [OF l] snoc.prems l by (auto simp: dlist_def)
  obtain m1 where m1: "list_del x m = Some m1" "dlist m1 h xs" using list_del_dlist [OF l] by auto
  have "n \<in> dom m1" using dlist_dom [OF m1(2)] n by (cases xs rule: rev_cases) auto
  then obtain n' where n': "get_prev n m1 = Some n'" by (auto simp: get_prev_def)
  obtain m2 where "for_each_entry_safe_reverse_from off (del_entry off) h (list_entry n off) (list_entry n' off) m1 (s @ [x]) =
      Some (m2, (s @ [x]) @ rev xs)" "dlist m2 h []"
    using snoc.IH [OF m1(2) n' [unfolded n], of "s @ [x]"] n by blast
  then show ?case
    using m1(1) n' x
    by (simp add: for_each_entry_safe_reverse_from.simps [of off _ h "list_entry x off"]
        del_entry_def [of off "list_entry x off"] del_body_def [of x m s])
qed

lemma list_for_each_entry_safe_reverse_del:
  assumes "dlist m h xs"
  shows "\<exists>m'. list_for_each_entry_safe_reverse off (del_entry off) h m s = Some (m', s @ rev xs) \<and> dlist m' h []"
proof -
  have "last (h # xs) \<in> dom m" using dlist_dom [OF assms] by (cases xs rule: rev_cases) auto
  then obtain n where n: "get_prev (last (h # xs)) m = Some n" by (auto simp: get_prev_def)
  show ?thesis
    using for_each_entry_safe_reverse_del [OF assms n, of off s] dlist_last [OF assms] n
    by (simp add: list_for_each_entry_safe_reverse_def)
qed

subsection \<open>Properties\<close>

text \<open>C21: the macros that iterate over objects end and visit each object once. Those that continue after an object of
  the list visit the objects behind it, in order, and leave the others alone even when the body deletes what it is
  given; started from \<open>list_prepare_entry\<close> without an object they visit the whole list. The reverse macros visit the
  whole list, last first; the safe one does so although its body deletes the object it is given, and then leaves the
  list empty.\<close>

theorem list_object_iteration:
  assumes "dlist m h (as @ a # bs)"
  shows "list_for_each_entry_continue off note_entry (list_entry a off) h m [] =
      Some (m, map (\<lambda>p. list_entry p off) bs) \<and>
    list_for_each_entry_continue off note_entry (list_prepare_entry off 0 h) h m [] =
      Some (m, map (\<lambda>p. list_entry p off) (as @ a # bs)) \<and>
    (\<exists>m'. list_for_each_entry_safe_continue off (del_entry off) (list_entry a off) h m [] = Some (m', bs) \<and>
      dlist m' h (as @ [a])) \<and>
    list_for_each_entry_reverse off note_entry h m [] =
      Some (m, map (\<lambda>p. list_entry p off) (rev (as @ a # bs))) \<and>
    (\<exists>m'. list_for_each_entry_safe_reverse off (del_entry off) h m [] = Some (m', rev (as @ a # bs)) \<and> dlist m' h [])"
  using list_for_each_entry_continue_note [OF assms, of off "[]"] list_for_each_entry_continue_head [OF assms, of off "[]"]
    list_for_each_entry_safe_continue_del [OF assms, of off "[]"]
    list_for_each_entry_reverse_note [OF assms, of off "[]"] list_for_each_entry_safe_reverse_del [OF assms, of off "[]"]
  by simp

theorem list_object_iteration_witness:
  "list_for_each_entry_continue 8 note_entry 0x18 0x10 sample_mem [] = Some (sample_mem, [0x28]) \<and>
   list_for_each_entry_reverse 8 note_entry 0x10 sample_mem [] = Some (sample_mem, [0x28, 0x18])"
  using list_object_iteration [of sample_mem "0x10" "[]" "0x20" "[0x30]" 8] sample_mem_lists(1)
  by (simp add: list_entry_def container_of_def)

end
