(* ===== verification/Refinement.thy ===== *)
theory Refinement
  imports Prelude
begin

text \<open>
  Runs of calls. A component and its specification are two partial step functions over the same calls and
  replies; when the component does whatever the specification allows, one call after the other, it does so for every
  sequence of calls. A call outside the specification, a misuse by the client, is \<^term>\<open>None\<close> there.
\<close>

fun run :: "('c \<Rightarrow> 's \<Rightarrow> ('r \<times> 's) option) \<Rightarrow> 'c list \<Rightarrow> 's \<Rightarrow> ('r list \<times> 's) option" where
  "run exec [] s = Some ([], s)"
| "run exec (c # cs) s = do {
     (r, s) \<leftarrow> exec c s;
     (rs, s) \<leftarrow> run exec cs s;
     Some (r # rs, s) }"

lemma run_append: "run exec (as @ bs) s = do {
    (rs, s) \<leftarrow> run exec as s; (rs', s) \<leftarrow> run exec bs s; Some (rs @ rs', s) }"
  by (induction as arbitrary: s) (auto split: bind_splits)

locale simulation =
  fixes exec :: "'c \<Rightarrow> 's \<Rightarrow> ('r \<times> 's) option" and spec :: "'c \<Rightarrow> 'a \<Rightarrow> ('r \<times> 'a) option"
    and rel :: "'s \<Rightarrow> 'a \<Rightarrow> bool"
  assumes step: "\<lbrakk>rel s a; spec c a = Some (r, a')\<rbrakk> \<Longrightarrow> \<exists>s'. exec c s = Some (r, s') \<and> rel s' a'"

context simulation begin

lemma run_refines:
  "\<lbrakk>rel s a; run spec cs a = Some (rs, a')\<rbrakk> \<Longrightarrow> \<exists>s'. run exec cs s = Some (rs, s') \<and> rel s' a'"
proof (induction cs arbitrary: s a rs)
  case (Cons c cs)
  then obtain r a1 rs' where a: "spec c a = Some (r, a1)" "run spec cs a1 = Some (rs', a')" "rs = r # rs'"
    by (auto simp: bind_Some_iff)
  obtain s1 where s1: "exec c s = Some (r, s1)" "rel s1 a1" using step [OF Cons.prems(1) a(1)] by blast
  show ?case using Cons.IH [OF s1(2) a(2)] s1(1) a(3) by auto
qed simp

end

text \<open>When moreover the component is undefined at every misuse, the two agree on which runs are defined.\<close>

locale exact_simulation = simulation exec spec rel
  for exec :: "'c \<Rightarrow> 's \<Rightarrow> ('r \<times> 's) option" and spec :: "'c \<Rightarrow> 'a \<Rightarrow> ('r \<times> 'a) option"
    and rel :: "'s \<Rightarrow> 'a \<Rightarrow> bool" +
  assumes misuse: "\<lbrakk>rel s a; spec c a = None\<rbrakk> \<Longrightarrow> exec c s = None"

context exact_simulation begin

lemma run_misuse: "\<lbrakk>rel s a; run spec cs a = None\<rbrakk> \<Longrightarrow> run exec cs s = None"
proof (induction cs arbitrary: s a)
  case (Cons c cs)
  show ?case
  proof (cases "spec c a")
    case None
    then show ?thesis using misuse [OF Cons.prems(1)] by simp
  next
    case (Some r)
    then obtain r1 a1 s1 where "spec c a = Some (r1, a1)" "exec c s = Some (r1, s1)" "rel s1 a1"
      using step [OF Cons.prems(1), of c] by (cases r) auto
    then show ?thesis using Cons.IH Cons.prems(2) by (auto split: bind_splits)
  qed
qed simp

end

end
