(* ===== verification/List_Calls.thy ===== *)
theory List_Calls
  imports Linked_List_More Refinement
begin

text \<open>
  \<open>includes/list.h\<close> for a client with any number of lists. The client's lists are a finite or infinite map from heads
  to entries; every sequence of calls that respects the ownership of nodes refines the same operations on this map,
  whatever lists the nodes move between.
\<close>

type_synonym lists = "addr \<rightharpoonup> addr list"

subsection \<open>Several rings in one memory\<close>

definition nodes :: "lists \<Rightarrow> addr set" where
  "nodes L = (\<Union>h \<in> dom L. set (h # the (L h)))"

definition rings :: "lmem \<Rightarrow> lists \<Rightarrow> bool" where
  "rings m L \<longleftrightarrow> (\<forall>h xs. L h = Some xs \<longrightarrow> dlist m h xs) \<and>
     (\<forall>h g xs ys. L h = Some xs \<longrightarrow> L g = Some ys \<longrightarrow> h \<noteq> g \<longrightarrow> set (h # xs) \<inter> set (g # ys) = {})"

lemma nodesI: "L h = Some xs \<Longrightarrow> p \<in> set (h # xs) \<Longrightarrow> p \<in> nodes L"
  unfolding nodes_def by (rule UN_I [of h]) auto

lemma nodesE:
  assumes "p \<in> nodes L"
  obtains h xs where "L h = Some xs" and "p \<in> set (h # xs)"
  using assms by (auto simp: nodes_def)

lemma nodes_upd: "nodes (L(h \<mapsto> xs)) = set (h # xs) \<union> nodes (L(h := None))"
  by (rule set_eqI) (simp add: nodes_def, blast)

lemma nodes_drop:
  assumes "rings m L" and "L h = Some xs"
  shows "nodes (L(h := None)) = nodes L - set (h # xs)"
proof -
  have "set (h # xs) \<inter> set (g # ys) = {}" if "L g = Some ys" "g \<noteq> h" for g ys
    using assms that unfolding rings_def by blast
  then have "set (h # xs) \<inter> nodes (L(h := None)) = {}" by (fastforce elim!: nodesE split: if_splits)
  moreover have "nodes L = set (h # xs) \<union> nodes (L(h := None))"
    using nodes_upd [of L h xs] assms(2) by (simp add: map_upd_triv)
  ultimately show ?thesis by blast
qed

lemma rings_dlist: "rings m L \<Longrightarrow> L h = Some xs \<Longrightarrow> dlist m h xs"
  by (simp add: rings_def)

lemma rings_nodes_dom: "rings m L \<Longrightarrow> nodes L \<subseteq> dom m"
  using dlist_dom rings_dlist by (blast elim: nodesE)

lemma rings_forget: "rings m L \<Longrightarrow> rings m (L(h := None))"
  unfolding rings_def by (simp split: if_splits)

text \<open>One list is replaced and nothing of the others is touched.\<close>

lemma rings_replace:
  assumes r: "rings m L" and c: "only_changes A m m'" and d: "dlist m' h xs"
    and new: "set (h # xs) \<inter> nodes (L(h := None)) = {}" and A: "A \<inter> nodes (L(h := None)) = {}"
  shows "rings m' (L(h \<mapsto> xs))"
proof -
  have keep: "dlist m' g ys" if "L g = Some ys" "g \<noteq> h" for g ys
  proof -
    have "set (g # ys) \<subseteq> nodes (L(h := None))" using that by (auto simp: nodes_def)
    then show ?thesis using A by (intro dlist_frame [OF rings_dlist [OF r that(1)] c]) blast
  qed
  have apart: "set (h # xs) \<inter> set (g # ys) = {}" if "L g = Some ys" "g \<noteq> h" for g ys
    using new that nodesI [of "L(h := None)" g ys] by auto
  show ?thesis
    using r d keep apart unfolding rings_def by (auto simp: Int_commute)
qed

text \<open>A write to nodes of no list.\<close>

lemma rings_write:
  assumes r: "rings m L" and c: "only_changes A m m'" and A: "A \<inter> nodes L = {}"
  shows "rings m' L"
proof -
  have "dlist m' h xs" if "L h = Some xs" for h xs
  proof -
    have "set (h # xs) \<subseteq> nodes L" using that by (auto intro: nodesI)
    then show ?thesis using A by (intro dlist_frame [OF rings_dlist [OF r that] c]) blast
  qed
  then show ?thesis using r by (simp add: rings_def)
qed

subsection \<open>The operations on a map of lists\<close>

text \<open>Every node in a list is an entry of one of them, or a head. \<open>without e L\<close> takes an entry out of its list.\<close>

definition entries :: "lists \<Rightarrow> addr set" where
  "entries L = (\<Union>h \<in> dom L. set (the (L h)))"

definition without :: "addr \<Rightarrow> lists \<Rightarrow> lists" where
  "without e L = (\<lambda>h. map_option (filter (\<lambda>x. x \<noteq> e)) (L h))"

lemma entriesE:
  assumes "rings m L" and "e \<in> entries L"
  obtains h as bs where "L h = Some (as @ e # bs)" and "without e L = L(h \<mapsto> as @ bs)"
    and "e \<notin> set (h # as @ bs)"
proof -
  obtain h xs where h: "L h = Some xs" "e \<in> set xs" using assms(2) by (auto simp: entries_def)
  then obtain as bs where xs: "xs = as @ e # bs" by (auto simp: in_set_conv_decomp)
  have e: "e \<notin> set (h # as @ bs)" using dlist_distinct [OF rings_dlist [OF assms(1) h(1)]] by (auto simp: xs)
  have keep: "filter (\<lambda>x. x \<noteq> e) zs = zs" if "e \<notin> set zs" for zs
    using that by (auto simp: filter_id_conv)
  have "without e L g = (L(h \<mapsto> as @ bs)) g" for g
  proof (cases "g = h")
    case True
    then show ?thesis using h(1) e by (simp add: without_def xs keep)
  next
    case False
    have "e \<notin> set ys" if "L g = Some ys" for ys
      using assms(1) h that False unfolding rings_def by fastforce
    then show ?thesis using False by (cases "L g") (simp_all add: without_def keep)
  qed
  then have "without e L = L(h \<mapsto> as @ bs)" by (rule ext)
  then show ?thesis using that h(1) e by (simp add: xs)
qed

lemma unlink_rings:
  assumes r: "rings m L" and e: "e \<in> entries L"
  shows "\<exists>m'. list_unlink e m = Some m' \<and> rings m' (without e L) \<and> only_changes (nodes L) m m' \<and>
    nodes (without e L) = nodes L - {e} \<and> e \<in> nodes L"
proof -
  obtain h as bs where h: "L h = Some (as @ e # bs)" "without e L = L(h \<mapsto> as @ bs)" "e \<notin> set (h # as @ bs)"
    using r e by (rule entriesE)
  note drop = nodes_drop [OF r h(1)]
  have sub: "set (h # as @ e # bs) \<subseteq> nodes L" using h(1) by (auto intro: nodesI)
  obtain m' where m': "list_unlink e m = Some m'" "dlist m' h (as @ bs)" "only_changes (set (h # as @ bs)) m m'"
    using rings_dlist [OF r h(1)] by (rule dlist_unlink)
  have "rings m' (without e L)" unfolding h(2) by (rule rings_replace [OF r m'(3,2)]) (auto simp: drop)
  moreover have "only_changes (nodes L) m m'" using m'(3) by (rule only_changes_mono) (use sub in auto)
  moreover have "nodes (without e L) = nodes L - {e}"
    unfolding h(2) nodes_upd drop using sub h(3) by auto
  ultimately show ?thesis using m'(1) sub by auto
qed

lemma add_rings:
  assumes r: "rings m L" and e: "e \<in> dom m" "e \<notin> nodes L" and h: "L h = Some xs"
  shows "\<exists>m'. list_add e h m = Some m' \<and> rings m' (L(h \<mapsto> e # xs)) \<and> only_changes (insert e (nodes L)) m m'"
    and "\<exists>m'. list_add_tail e h m = Some m' \<and> rings m' (L(h \<mapsto> xs @ [e])) \<and> only_changes (insert e (nodes L)) m m'"
proof -
  have sub: "set (h # xs) \<subseteq> nodes L" using h by (auto intro: nodesI)
  note l = rings_dlist [OF r h] and drop = nodes_drop [OF r h]
  have e': "e \<notin> set (h # xs)" using e(2) sub by blast
  obtain m1 where m1: "list_add e h m = Some m1" "dlist m1 h (e # xs)" "only_changes (set (e # h # xs)) m m1"
    using l e(1) e' by (rule list_add_dlist)
  have "rings m1 (L(h \<mapsto> e # xs))" by (rule rings_replace [OF r m1(3,2)]) (use e(2) in \<open>auto simp: drop\<close>)
  moreover have "only_changes (insert e (nodes L)) m m1" using m1(3) by (rule only_changes_mono) (use sub in auto)
  ultimately show "\<exists>m'. list_add e h m = Some m' \<and> rings m' (L(h \<mapsto> e # xs)) \<and> only_changes (insert e (nodes L)) m m'"
    using m1(1) by blast
  obtain m2 where m2: "list_add_tail e h m = Some m2" "dlist m2 h (xs @ [e])" "only_changes (set (e # h # xs)) m m2"
    using l e(1) e' by (rule list_add_tail_dlist)
  have "rings m2 (L(h \<mapsto> xs @ [e]))" by (rule rings_replace [OF r m2(3,2)]) (use e(2) in \<open>auto simp: drop\<close>)
  moreover have "only_changes (insert e (nodes L)) m m2" using m2(3) by (rule only_changes_mono) (use sub in auto)
  ultimately show "\<exists>m'. list_add_tail e h m = Some m' \<and> rings m' (L(h \<mapsto> xs @ [e])) \<and> only_changes (insert e (nodes L)) m m'"
    using m2(1) by blast
qed

lemma init_rings:
  assumes r: "rings m L" and p: "p \<in> dom m" "p \<notin> nodes L"
  shows "\<exists>m'. INIT_LIST_HEAD p m = Some m' \<and> rings m' (L(p \<mapsto> [])) \<and> only_changes {p} m m'"
proof -
  obtain m' where m': "INIT_LIST_HEAD p m = Some m'" "dlist m' p []" "only_changes {p} m m'"
    using p(1) by (rule INIT_LIST_HEAD_dlist)
  have "L p = None" using p(2) nodesI [of L p _ p] by (cases "L p") auto
  then have "L(p := None) = L" by auto
  then have "rings m' (L(p \<mapsto> []))" using p(2) by (intro rings_replace [OF r m'(3,2)]) simp_all
  then show ?thesis using m' by blast
qed

lemma splice_rings:
  assumes r: "rings m L" and l: "L l = Some ys" and h: "L h = Some xs" and ne: "l \<noteq> h"
  shows "\<exists>m'. list_splice l h m = Some m' \<and> rings m' (L(l := None, h \<mapsto> ys @ xs)) \<and> only_changes (nodes L) m m'"
    and "\<exists>m'. list_splice_init l h m = Some m' \<and> rings m' (L(l \<mapsto> [], h \<mapsto> ys @ xs)) \<and> only_changes (nodes L) m m'"
proof -
  have disj: "set (l # ys) \<inter> set (h # xs) = {}" using r l h ne unfolding rings_def by blast
  note d = rings_dlist [OF r l] rings_dlist [OF r h]
  let ?L = "L(l := None)"
  have r0: "rings m ?L" "?L h = Some xs" using rings_forget [OF r] h ne by auto
  have sub: "set (l # ys) \<subseteq> nodes L" "set (h # xs) \<subseteq> nodes L" using l h by (auto intro: nodesI)
  have drop: "nodes (?L(h := None)) = nodes L - set (l # ys) - set (h # xs)"
    unfolding nodes_drop [OF r0] nodes_drop [OF r l] ..
  obtain m1 where m1: "list_splice l h m = Some m1" "dlist m1 h (ys @ xs)" "only_changes (set (h # ys @ xs)) m m1"
    using d disj by (rule list_splice_dlist)
  have s: "rings m1 (?L(h \<mapsto> ys @ xs))"
    by (rule rings_replace [OF r0(1) m1(3,2)]) (auto simp: drop)
  have c: "only_changes (nodes L) m m1" using m1(3) by (rule only_changes_mono) (use sub in auto)
  show "\<exists>m'. list_splice l h m = Some m' \<and> rings m' (L(l := None, h \<mapsto> ys @ xs)) \<and> only_changes (nodes L) m m'"
    using m1(1) s c by blast
  obtain m2 where m2: "list_splice_init l h m = Some m2" "dlist m2 h (ys @ xs)" "dlist m2 l []"
    "only_changes (set (l # h # ys @ xs)) m m2"
    using d disj by (rule list_splice_init_dlist)
  have "rings m2 (?L(h \<mapsto> ys @ xs))"
    by (rule rings_replace [OF r0(1) m2(4,2)]) (auto simp: drop)
  then have "rings m2 ((?L(h \<mapsto> ys @ xs))(l \<mapsto> []))"
  proof (rule rings_replace [OF _ _ m2(3), where A = "{}"])
    show "only_changes {} m2 m2" by (simp add: only_changes_def)
    have "l \<notin> nodes (?L(h \<mapsto> ys @ xs))"
      unfolding nodes_upd drop using disj dlist_distinct [OF d(1)] by auto
    moreover have "(?L(h \<mapsto> ys @ xs))(l := None) = ?L(h \<mapsto> ys @ xs)" using ne by auto
    ultimately show "set [l] \<inter> nodes ((?L(h \<mapsto> ys @ xs))(l := None)) = {}" by simp
  qed simp
  moreover have "(?L(h \<mapsto> ys @ xs))(l \<mapsto> []) = L(l \<mapsto> [], h \<mapsto> ys @ xs)" using ne by auto
  moreover have "only_changes (nodes L) m m2" using m2(4) by (rule only_changes_mono) (use sub in auto)
  ultimately show "\<exists>m'. list_splice_init l h m = Some m' \<and> rings m' (L(l \<mapsto> [], h \<mapsto> ys @ xs)) \<and> only_changes (nodes L) m m'"
    using m2(1) by auto
qed

subsection \<open>A client\<close>

text \<open>What a client can call; it walks a list to see the entries.\<close>

datatype list_call = Init addr | Insert addr addr | Insert_Tail addr addr | Delete addr | Delete_Init addr
  | Move addr addr | Move_Tail addr addr | Splice addr addr | Splice_Init addr addr
  | Is_Empty addr | Walk addr | Walk_Back addr

datatype list_reply = Nothing | Empty bool | Seen "addr list"

fun exec_list :: "list_call \<Rightarrow> lmem \<Rightarrow> (list_reply \<times> lmem) option" where
  "exec_list (Init p) m = map_option (Pair Nothing) (INIT_LIST_HEAD p m)"
| "exec_list (Insert e h) m = map_option (Pair Nothing) (list_add e h m)"
| "exec_list (Insert_Tail e h) m = map_option (Pair Nothing) (list_add_tail e h m)"
| "exec_list (Delete e) m = map_option (Pair Nothing) (list_del e m)"
| "exec_list (Delete_Init e) m = map_option (Pair Nothing) (list_del_init e m)"
| "exec_list (Move e h) m = map_option (Pair Nothing) (list_move e h m)"
| "exec_list (Move_Tail e h) m = map_option (Pair Nothing) (list_move_tail e h m)"
| "exec_list (Splice l h) m = map_option (Pair Nothing) (list_splice l h m)"
| "exec_list (Splice_Init l h) m = map_option (Pair Nothing) (list_splice_init l h m)"
| "exec_list (Is_Empty h) m = map_option (\<lambda>b. (Empty b, m)) (list_empty h m)"
| "exec_list (Walk h) m = map_option (\<lambda>(m, s). (Seen s, m)) (list_for_each (visit (\<lambda>p s. s @ [p])) h m [])"
| "exec_list (Walk_Back h) m = map_option (\<lambda>(m, s). (Seen s, m)) (list_for_each_prev (visit (\<lambda>p s. s @ [p])) h m [])"

text \<open>
  The same on the map. \<open>D\<close> are the client's nodes. A node may be linked in or initialised when it is in no list and
  heads none but an empty one; after \<open>list_del_init\<close> a node heads an empty list of its own, after \<open>list_splice\<close> the
  head of the first list is no list any more.
\<close>

definition spare :: "lists \<Rightarrow> addr \<Rightarrow> bool" where
  "spare L p \<longleftrightarrow> p \<notin> nodes L \<or> L p = Some []"

fun spec_list :: "addr set \<Rightarrow> list_call \<Rightarrow> lists \<Rightarrow> (list_reply \<times> lists) option" where
  "spec_list D (Init p) L = (if p \<in> D \<and> spare L p then Some (Nothing, L(p \<mapsto> [])) else None)"
| "spec_list D (Insert e h) L = (if e \<in> D \<and> spare L e \<and> e \<noteq> h
     then map_option (\<lambda>xs. (Nothing, L(e := None, h \<mapsto> e # xs))) (L h) else None)"
| "spec_list D (Insert_Tail e h) L = (if e \<in> D \<and> spare L e \<and> e \<noteq> h
     then map_option (\<lambda>xs. (Nothing, L(e := None, h \<mapsto> xs @ [e]))) (L h) else None)"
| "spec_list D (Delete e) L = (if e \<in> entries L then Some (Nothing, without e L) else None)"
| "spec_list D (Delete_Init e) L = (if e \<in> entries L then Some (Nothing, (without e L)(e \<mapsto> [])) else None)"
| "spec_list D (Move e h) L = (if e \<in> entries L
     then map_option (\<lambda>xs. (Nothing, (without e L)(h \<mapsto> e # xs))) (without e L h) else None)"
| "spec_list D (Move_Tail e h) L = (if e \<in> entries L
     then map_option (\<lambda>xs. (Nothing, (without e L)(h \<mapsto> xs @ [e]))) (without e L h) else None)"
| "spec_list D (Splice l h) L = (if l = h then None
     else do { ys \<leftarrow> L l; xs \<leftarrow> L h; Some (Nothing, L(l := None, h \<mapsto> ys @ xs)) })"
| "spec_list D (Splice_Init l h) L = (if l = h then None
     else do { ys \<leftarrow> L l; xs \<leftarrow> L h; Some (Nothing, L(l \<mapsto> [], h \<mapsto> ys @ xs)) })"
| "spec_list D (Is_Empty h) L = map_option (\<lambda>xs. (Empty (xs = []), L)) (L h)"
| "spec_list D (Walk h) L = map_option (\<lambda>xs. (Seen xs, L)) (L h)"
| "spec_list D (Walk_Back h) L = map_option (\<lambda>xs. (Seen (rev xs), L)) (L h)"

text \<open>The relation: the memory holds the lists, their nodes are the client's, and no others have changed.\<close>

definition client_lists :: "addr set \<Rightarrow> lmem \<Rightarrow> lmem \<Rightarrow> lists \<Rightarrow> bool" where
  "client_lists D m0 m L \<longleftrightarrow> rings m L \<and> nodes L \<subseteq> D \<and> D \<subseteq> dom m0 \<and> only_changes D m0 m"

lemma client_step:
  assumes "client_lists D m0 m L" and "rings m' L'" and "only_changes A m m'" and "A \<subseteq> D" and "nodes L' \<subseteq> D"
  shows "client_lists D m0 m' L'"
  using assms only_changes_trans [of D m0 m A m' D] by (simp add: client_lists_def)

lemma spare_forget:
  assumes "rings m L" and "spare L e"
  shows "rings m (L(e := None))" and "e \<notin> nodes (L(e := None))" and "nodes (L(e := None)) \<subseteq> nodes L"
proof -
  show "rings m (L(e := None))" by (rule rings_forget [OF assms(1)])
  have "L e = None \<and> e \<notin> nodes L \<or> L e = Some []"
    using assms(2) nodesI [of L e _ e] by (cases "L e") (auto simp: spare_def)
  then show "e \<notin> nodes (L(e := None))" "nodes (L(e := None)) \<subseteq> nodes L"
    using nodes_drop [OF assms(1), of e "[]"] by (auto simp: fun_upd_idem)
qed

text \<open>Nodes that stay the client's.\<close>

lemma nodes_forget: "nodes L \<subseteq> D \<Longrightarrow> nodes (L(h := None)) \<subseteq> D"
  unfolding nodes_def by auto

lemma nodes_put: "\<lbrakk>nodes L \<subseteq> D; set (h # xs) \<subseteq> D\<rbrakk> \<Longrightarrow> nodes (L(h \<mapsto> xs)) \<subseteq> D"
  unfolding nodes_upd using nodes_forget [of L D h] by blast

lemma nodes_list: "\<lbrakk>nodes L \<subseteq> D; L h = Some xs\<rbrakk> \<Longrightarrow> set (h # xs) \<subseteq> D"
  by (auto dest: nodesI)

lemma insert_step:
  assumes c: "client_lists D m0 m L" and e: "e \<in> D" "spare L e" "e \<noteq> h" and h: "L h = Some xs"
  shows "\<exists>m'. list_add e h m = Some m' \<and> client_lists D m0 m' (L(e := None, h \<mapsto> e # xs))"
    and "\<exists>m'. list_add_tail e h m = Some m' \<and> client_lists D m0 m' (L(e := None, h \<mapsto> xs @ [e]))"
proof -
  have r: "rings m L" "nodes L \<subseteq> D" "e \<in> dom m"
    using c e(1) only_changes_dom [of D m0 m] by (auto simp: client_lists_def)
  note f = spare_forget [OF r(1) e(2)]
  have h': "(L(e := None)) h = Some xs" using h e(3) by simp
  note a = add_rings [OF f(1) r(3) f(2) h']
  have A: "insert e (nodes (L(e := None))) \<subseteq> D" using f(3) r(2) e(1) by blast
  have xs: "set (h # xs) \<subseteq> D" by (rule nodes_list [OF r(2) h])
  have n: "nodes (L(e := None, h \<mapsto> zs)) \<subseteq> D" if "set (h # zs) \<subseteq> D" for zs
    using that by (intro nodes_put nodes_forget r(2))
  have "set (h # e # xs) \<subseteq> D" using xs e(1) by simp
  then show "\<exists>m'. list_add e h m = Some m' \<and> client_lists D m0 m' (L(e := None, h \<mapsto> e # xs))"
    using a(1) client_step [OF c _ _ A n, of _ "e # xs"] by blast
  have "set (h # xs @ [e]) \<subseteq> D" using xs e(1) by simp
  then show "\<exists>m'. list_add_tail e h m = Some m' \<and> client_lists D m0 m' (L(e := None, h \<mapsto> xs @ [e]))"
    using a(2) client_step [OF c _ _ A n, of _ "xs @ [e]"] by blast
qed

lemma unlink_step:
  assumes c: "client_lists D m0 m L" and e: "e \<in> entries L"
  shows "\<exists>m'. list_unlink e m = Some m' \<and> client_lists D m0 m' (without e L) \<and> e \<in> D \<and> e \<in> dom m' \<and>
    e \<notin> nodes (without e L) \<and> spare (without e L) e"
proof -
  have r: "rings m L" "nodes L \<subseteq> D" using c by (simp_all add: client_lists_def)
  obtain m' where m': "list_unlink e m = Some m'" "rings m' (without e L)" "only_changes (nodes L) m m'"
    "nodes (without e L) = nodes L - {e}" "e \<in> nodes L"
    using unlink_rings [OF r(1) e] by blast
  have "client_lists D m0 m' (without e L)"
    by (rule client_step [OF c m'(2,3) r(2)]) (use m'(4) r(2) in blast)
  moreover have "e \<in> dom m'" using rings_nodes_dom [OF r(1)] m'(3,5) by (auto simp: only_changes_dom)
  ultimately show ?thesis using m'(1,4,5) r(2) by (auto simp: spare_def)
qed

lemma delete_step:
  assumes c: "client_lists D m0 m L" and e: "e \<in> entries L"
  shows "\<exists>m'. list_del e m = Some m' \<and> client_lists D m0 m' (without e L)"
    and "\<exists>m'. list_del_init e m = Some m' \<and> client_lists D m0 m' ((without e L)(e \<mapsto> []))"
proof -
  obtain m1 where m1: "list_unlink e m = Some m1" "client_lists D m0 m1 (without e L)" "e \<in> D" "e \<in> dom m1"
    "e \<notin> nodes (without e L)"
    using unlink_step [OF c e] by blast
  have r1: "rings m1 (without e L)" "nodes (without e L) \<subseteq> D" using m1(2) by (simp_all add: client_lists_def)
  define m2 where "m2 = upd_prev e LIST_POISON2 (upd_next e LIST_POISON1 m1)"
  have c2: "only_changes {e} m1 m2" using m1(4) by (auto simp: only_changes_def m2_def)
  have "client_lists D m0 m2 (without e L)"
    by (rule client_step [OF m1(2) rings_write [OF r1(1) c2] c2]) (use m1(3,5) r1(2) in auto)
  moreover have "list_del e m = Some m2" using m1(1,4) by (simp add: list_del_def m2_def)
  ultimately show "\<exists>m'. list_del e m = Some m' \<and> client_lists D m0 m' (without e L)" by blast
  obtain m3 where m3: "INIT_LIST_HEAD e m1 = Some m3" "rings m3 ((without e L)(e \<mapsto> []))" "only_changes {e} m1 m3"
    using init_rings [OF r1(1) m1(4,5)] by blast
  have "nodes ((without e L)(e \<mapsto> [])) \<subseteq> D" using m1(3) by (intro nodes_put r1(2)) simp
  then have "client_lists D m0 m3 ((without e L)(e \<mapsto> []))"
    using m1(3) by (intro client_step [OF m1(2) m3(2,3)]) auto
  then show "\<exists>m'. list_del_init e m = Some m' \<and> client_lists D m0 m' ((without e L)(e \<mapsto> []))"
    using m1(1) m3(1) by (simp add: list_del_init_def)
qed

lemma move_step:
  assumes c: "client_lists D m0 m L" and e: "e \<in> entries L" and h: "without e L h = Some xs"
  shows "\<exists>m'. list_move e h m = Some m' \<and> client_lists D m0 m' ((without e L)(h \<mapsto> e # xs))"
    and "\<exists>m'. list_move_tail e h m = Some m' \<and> client_lists D m0 m' ((without e L)(h \<mapsto> xs @ [e]))"
proof -
  obtain m1 where m1: "list_unlink e m = Some m1" "client_lists D m0 m1 (without e L)" "e \<in> D"
    "e \<notin> nodes (without e L)" "spare (without e L) e"
    using unlink_step [OF c e] by blast
  have e': "e \<noteq> h" using m1(4) h nodesI [of "without e L" h xs h] by auto
  have "(without e L) e = None" using m1(4) nodesI [of "without e L" e _ e] by (cases "without e L e") auto
  then have L: "(without e L)(e := None) = without e L" by auto
  note i = insert_step [OF m1(2,3,5) e' h, unfolded L]
  show "\<exists>m'. list_move e h m = Some m' \<and> client_lists D m0 m' ((without e L)(h \<mapsto> e # xs))"
    using i(1) m1(1) by (simp add: list_move_def)
  show "\<exists>m'. list_move_tail e h m = Some m' \<and> client_lists D m0 m' ((without e L)(h \<mapsto> xs @ [e]))"
    using i(2) m1(1) by (simp add: list_move_tail_def)
qed

lemma init_step:
  assumes c: "client_lists D m0 m L" and p: "p \<in> D" "spare L p"
  shows "\<exists>m'. INIT_LIST_HEAD p m = Some m' \<and> client_lists D m0 m' (L(p \<mapsto> []))"
proof -
  have r: "rings m L" "nodes L \<subseteq> D" "p \<in> dom m"
    using c p(1) only_changes_dom [of D m0 m] by (auto simp: client_lists_def)
  note f = spare_forget [OF r(1) p(2)]
  obtain m' where m': "INIT_LIST_HEAD p m = Some m'" "rings m' (L(p := None, p \<mapsto> []))" "only_changes {p} m m'"
    using init_rings [OF f(1) r(3) f(2)] by blast
  have "nodes (L(p \<mapsto> [])) \<subseteq> D" using p(1) by (intro nodes_put r(2)) simp
  then show ?thesis using client_step [OF c _ m'(3), of "L(p \<mapsto> [])"] m'(1,2) p(1) by simp
qed

lemma splice_step:
  assumes c: "client_lists D m0 m L" and l: "L l = Some ys" and h: "L h = Some xs" and ne: "l \<noteq> h"
  shows "\<exists>m'. list_splice l h m = Some m' \<and> client_lists D m0 m' (L(l := None, h \<mapsto> ys @ xs))"
    and "\<exists>m'. list_splice_init l h m = Some m' \<and> client_lists D m0 m' (L(l \<mapsto> [], h \<mapsto> ys @ xs))"
proof -
  have r: "rings m L" "nodes L \<subseteq> D" using c by (simp_all add: client_lists_def)
  have D: "set [l] \<subseteq> D" "set (h # ys @ xs) \<subseteq> D" using nodes_list [OF r(2) l] nodes_list [OF r(2) h] by auto
  have "nodes (L(l := None, h \<mapsto> ys @ xs)) \<subseteq> D" "nodes (L(l \<mapsto> [], h \<mapsto> ys @ xs)) \<subseteq> D"
    by (rule nodes_put [OF nodes_forget [OF r(2)] D(2)], rule nodes_put [OF nodes_put [OF r(2) D(1)] D(2)])
  then show "\<exists>m'. list_splice l h m = Some m' \<and> client_lists D m0 m' (L(l := None, h \<mapsto> ys @ xs))"
    "\<exists>m'. list_splice_init l h m = Some m' \<and> client_lists D m0 m' (L(l \<mapsto> [], h \<mapsto> ys @ xs))"
    using splice_rings [OF r(1) l h ne] client_step [OF c _ _ r(2)] by blast+
qed

subsection \<open>The refinement\<close>

lemma walk_entries:
  assumes "dlist m h xs"
  shows "list_for_each (visit (\<lambda>p s. s @ [p])) h m [] = Some (m, xs)"
    and "list_for_each_prev (visit (\<lambda>p s. s @ [p])) h m [] = Some (m, rev xs)"
  using list_for_each_visit [OF assms, of "\<lambda>p s. s @ [p]" "[]"]
    list_for_each_prev_visit [OF assms, of "\<lambda>p s. s @ [p]" "[]"] fold_snoc [of id _ "[]"] by simp_all

lemma list_step:
  assumes c: "client_lists D m0 m L" and "spec_list D call L = Some (r, L')"
  shows "\<exists>m'. exec_list call m = Some (r, m') \<and> client_lists D m0 m' L'"
proof -
  have d: "dlist m h xs" if "L h = Some xs" for h xs
    using c that unfolding client_lists_def by (blast dest: rings_dlist)
  show ?thesis
    using assms(2)
  proof (cases call)
    case (Init p)
    then show ?thesis using assms(2) init_step [OF c, of p] by (auto split: if_splits)
  next
    case (Insert e h)
    then show ?thesis using assms(2) insert_step(1) [OF c, of e h] by (fastforce split: if_splits)
  next
    case (Insert_Tail e h)
    then show ?thesis using assms(2) insert_step(2) [OF c, of e h] by (fastforce split: if_splits)
  next
    case (Delete e)
    then show ?thesis using assms(2) delete_step(1) [OF c, of e] by (auto split: if_splits)
  next
    case (Delete_Init e)
    then show ?thesis using assms(2) delete_step(2) [OF c, of e] by (auto split: if_splits)
  next
    case (Move e h)
    then show ?thesis using assms(2) move_step(1) [OF c, of e h] by (fastforce split: if_splits)
  next
    case (Move_Tail e h)
    then show ?thesis using assms(2) move_step(2) [OF c, of e h] by (fastforce split: if_splits)
  next
    case (Splice l h)
    then show ?thesis using assms(2) splice_step(1) [OF c, of l _ h] by (fastforce simp: bind_Some_iff split: if_splits)
  next
    case (Splice_Init l h)
    then show ?thesis using assms(2) splice_step(2) [OF c, of l _ h] by (fastforce simp: bind_Some_iff split: if_splits)
  next
    case (Is_Empty h)
    then show ?thesis using assms(2) c list_empty_dlist [OF d, of h] by auto
  next
    case (Walk h)
    then show ?thesis using assms(2) c walk_entries(1) [OF d, of h] by auto
  next
    case (Walk_Back h)
    then show ?thesis using assms(2) c walk_entries(2) [OF d, of h] by auto
  qed
qed

interpretation ring: simulation exec_list "spec_list D" "client_lists D m0" for D m0
  by unfold_locales (rule list_step)

text \<open>C10: any sequence of calls on any number of lists. As long as the client links in or initialises only nodes of
  its own that are in no list, and names heads and entries where the functions expect them, every call is defined, the
  lists in memory are those of the same calls on a map from heads to entries, the answers of \<open>list_empty\<close> and the
  nodes seen by the iterations are those of the map, and no object but the client's nodes is changed.
\<close>

theorem list_calls_refine:
  assumes "rings m L" and "nodes L \<subseteq> D" and "D \<subseteq> dom m"
    and "run (spec_list D) calls L = Some (rs, L')"
  shows "\<exists>m'. run exec_list calls m = Some (rs, m') \<and> rings m' L' \<and> only_changes D m m'"
proof -
  have "client_lists D m m L" using assms(1-3) by (simp add: client_lists_def only_changes_def)
  from ring.run_refines [OF this assms(4)] show ?thesis unfolding client_lists_def by blast
qed

text \<open>The first entry moves to the list at \<open>0x40\<close>, which is then spliced back; the last entry leaves the lists.\<close>

theorem list_calls_refine_witness:
  "\<exists>m'. run exec_list [Move_Tail 0x20 0x40, Walk 0x40, Splice_Init 0x40 0x10, Delete_Init 0x30, Is_Empty 0x30, Walk_Back 0x10]
      sample_mem = Some ([Nothing, Seen [0x20], Nothing, Nothing, Empty True, Seen [0x20]], m')"
proof -
  let ?L = "[0x10 \<mapsto> [0x20, 0x30], 0x40 \<mapsto> []] :: lists"
  have "rings sample_mem ?L" using sample_mem_lists by (auto simp: rings_def)
  moreover have "nodes ?L \<subseteq> dom sample_mem" by (auto simp: nodes_def sample_mem_dom)
  moreover have "\<exists>L'. run (spec_list (dom sample_mem))
      [Move_Tail 0x20 0x40, Walk 0x40, Splice_Init 0x40 0x10, Delete_Init 0x30, Is_Empty 0x30, Walk_Back 0x10] ?L =
      Some ([Nothing, Seen [0x20], Nothing, Nothing, Empty True, Seen [0x20]], L')"
    by (simp add: entries_def without_def)
  ultimately show ?thesis using list_calls_refine [of sample_mem ?L "dom sample_mem"] by blast
qed

end
