(* ===== verification/C_Heap.thy ===== *)
theory C_Heap
  imports Prelude
begin

text \<open>
  The C allocator as the library uses it: \<open>malloc\<close>/\<open>calloc\<close>/\<open>strdup\<close> make a new block or fail,
  \<open>realloc\<close> moves a block, resizes it in place or fails, \<open>free\<close> takes a live block or \<open>NULL\<close>.
  A heap maps the handles of its live blocks to their contents, whose type each component
  chooses. Which calls fail and which \<open>realloc\<close> moves is decided by the environment: the
  \<open>plan\<close> lists its answers in order (an exhausted plan answers \<open>Fresh\<close>). Handles of freed
  blocks are not given out again, so every use of a dangling pointer is seen as undefined
  behaviour.
\<close>

datatype answer = Fail | Fresh | InPlace

record 'b heap =
  blocks :: "ptr \<rightharpoonup> 'b"
  brk :: ptr
  plan :: "answer list"

definition heap_ok :: "'b heap \<Rightarrow> bool" where
  "heap_ok h \<longleftrightarrow> 0 < brk h \<and> (\<forall>p \<in> dom (blocks h). 0 < p \<and> p < brk h)"

text \<open>No further allocation fails.\<close>

definition no_oom :: "'b heap \<Rightarrow> bool" where
  "no_oom h \<longleftrightarrow> Fail \<notin> set (plan h)"

text \<open>The number of allocations still to fail.\<close>

definition fails :: "'b heap \<Rightarrow> nat" where
  "fails h = count_list (plan h) Fail"

definition heap_empty :: "answer list \<Rightarrow> 'b heap" where
  "heap_empty pl = \<lparr>blocks = Map.empty, brk = 1, plan = pl\<rparr>"

definition next_answer :: "'b heap \<Rightarrow> answer" where
  "next_answer h = (case plan h of [] \<Rightarrow> Fresh | a # _ \<Rightarrow> a)"

definition heap_alloc :: "'b \<Rightarrow> 'b heap \<Rightarrow> ptr \<times> 'b heap" where
  "heap_alloc b h =
     (if next_answer h = Fail then (NULL, h\<lparr>plan := tl (plan h)\<rparr>)
      else (brk h, h\<lparr>blocks := (blocks h)(brk h \<mapsto> b), brk := Suc (brk h),
                     plan := tl (plan h)\<rparr>))"

definition heap_free :: "ptr \<Rightarrow> 'b heap \<Rightarrow> 'b heap option" where
  "heap_free p h =
     (if p = NULL then Some h
      else if blocks h p = None then None
      else Some (h\<lparr>blocks := (blocks h)(p := None)\<rparr>))"

definition heap_load :: "ptr \<Rightarrow> 'b heap \<Rightarrow> 'b option" where
  "heap_load p h = (if p = NULL then None else blocks h p)"

definition heap_store :: "ptr \<Rightarrow> 'b \<Rightarrow> 'b heap \<Rightarrow> 'b heap option" where
  "heap_store p b h =
     (if p = NULL \<or> blocks h p = None then None
      else Some (h\<lparr>blocks := (blocks h)(p \<mapsto> b)\<rparr>))"

text \<open>
  \<open>realloc(p, \<dots>)\<close>, where \<open>grow\<close> gives the contents of the new block from those of the old one.
  A failing \<open>realloc\<close> leaves the old block alone.
\<close>

definition heap_realloc :: "ptr \<Rightarrow> 'b \<Rightarrow> ('b \<Rightarrow> 'b) \<Rightarrow> 'b heap \<Rightarrow> (ptr \<times> 'b heap) option" where
  "heap_realloc p new grow h =
     (if p = NULL then Some (heap_alloc new h)
      else case blocks h p of
        None \<Rightarrow> None
      | Some b \<Rightarrow>
         (case next_answer h of
            Fail \<Rightarrow> Some (NULL, h\<lparr>plan := tl (plan h)\<rparr>)
          | InPlace \<Rightarrow> Some (p, h\<lparr>blocks := (blocks h)(p \<mapsto> grow b), plan := tl (plan h)\<rparr>)
          | Fresh \<Rightarrow> Some (brk h, h\<lparr>blocks := (blocks h)(p := None, brk h \<mapsto> grow b),
                                    brk := Suc (brk h), plan := tl (plan h)\<rparr>)))"

lemmas heap_defs [c_defs] = heap_alloc_def heap_free_def heap_load_def heap_store_def
  heap_realloc_def next_answer_def heap_empty_def

subsection \<open>Laws\<close>

lemma heap_ok_empty [simp, intro]: "heap_ok (heap_empty pl)"
  by (simp add: heap_ok_def heap_empty_def)

lemma heap_empty_simps [simp]:
  "blocks (heap_empty pl) = Map.empty" "brk (heap_empty pl) = 1" "plan (heap_empty pl) = pl"
  by (simp_all add: heap_empty_def)

lemma heap_ok_NULL [simp]: "heap_ok h \<Longrightarrow> blocks h NULL = None"
  by (auto simp: heap_ok_def dom_def)

lemma heap_ok_brk [simp]: "heap_ok h \<Longrightarrow> blocks h (brk h) = None"
  by (auto simp: heap_ok_def dom_def)

lemma heap_ok_brk_pos: "heap_ok h \<Longrightarrow> 0 < brk h"
  by (simp add: heap_ok_def)

lemma heap_live_pos: "heap_ok h \<Longrightarrow> blocks h p = Some b \<Longrightarrow> 0 < p"
  by (auto simp: heap_ok_def)

lemma heap_live_lt_brk: "heap_ok h \<Longrightarrow> blocks h p = Some b \<Longrightarrow> p < brk h"
  by (auto simp: heap_ok_def)

lemma heap_alloc_ok: "heap_ok h \<Longrightarrow> heap_alloc b h = (p, h') \<Longrightarrow> heap_ok h'"
  by (auto simp: heap_alloc_def heap_ok_def less_Suc_eq split: if_splits)

lemma heap_free_ok: "heap_ok h \<Longrightarrow> heap_free p h = Some h' \<Longrightarrow> heap_ok h'"
  by (auto simp: heap_free_def heap_ok_def split: if_splits)

lemma heap_store_ok: "heap_ok h \<Longrightarrow> heap_store p b h = Some h' \<Longrightarrow> heap_ok h'"
  by (auto simp: heap_store_def heap_ok_def split: if_splits)

lemma no_oom_next: "no_oom h \<Longrightarrow> next_answer h \<noteq> Fail"
  by (auto simp: no_oom_def next_answer_def split: list.splits)

lemma no_oom_fails: "no_oom h \<longleftrightarrow> fails h = 0"
  by (simp add: no_oom_def fails_def count_list_0_iff)

lemma fails_step: "fails h = (if next_answer h = Fail then 1 else 0) + count_list (tl (plan h)) Fail"
  by (cases "plan h") (simp_all add: fails_def next_answer_def)

lemma fails_upd [simp]: "fails (h\<lparr>blocks := B\<rparr>) = fails h" "fails (h\<lparr>brk := b\<rparr>) = fails h"
  "fails (h\<lparr>plan := pl\<rparr>) = count_list pl Fail"
  by (simp_all add: fails_def)

lemma no_oom_tl: "no_oom h \<Longrightarrow> Fail \<notin> set (tl (plan h))"
  by (cases "plan h") (auto simp: no_oom_def)

lemma heap_alloc_Fresh:
  "no_oom h \<Longrightarrow> heap_alloc b h =
     (brk h, h\<lparr>blocks := (blocks h)(brk h \<mapsto> b), brk := Suc (brk h), plan := tl (plan h)\<rparr>)"
  by (simp add: heap_alloc_def no_oom_next)

lemma heap_load_live [simp]: "heap_ok h \<Longrightarrow> heap_load p h = blocks h p"
  by (simp add: heap_load_def)

text \<open>The blocks an operation leaves alone.\<close>

definition same_except :: "ptr set \<Rightarrow> 'b heap \<Rightarrow> 'b heap \<Rightarrow> bool" where
  "same_except A h h' \<longleftrightarrow> (\<forall>q. q \<notin> A \<longrightarrow> blocks h' q = blocks h q)"

lemma same_exceptD: "same_except A h h' \<Longrightarrow> q \<notin> A \<Longrightarrow> blocks h' q = blocks h q"
  by (simp add: same_except_def)

lemma same_except_refl [simp]: "same_except A h h"
  by (simp add: same_except_def)

lemma same_except_trans:
  "same_except A h h' \<Longrightarrow> same_except B h' h'' \<Longrightarrow> A \<union> B \<subseteq> C \<Longrightarrow> same_except C h h''"
  unfolding same_except_def by (metis Un_iff subsetD)

lemma heap_free_live:
  "blocks h p = Some b \<Longrightarrow> p \<noteq> NULL \<Longrightarrow>
   heap_free p h = Some (h\<lparr>blocks := (blocks h)(p := None)\<rparr>)"
  by (simp add: heap_free_def)

lemma heap_free_NULL [simp]: "heap_free NULL h = Some h"
  by (simp add: heap_free_def)

lemma take_two_answers:
  "Fail \<in> set (take 2 (plan h)) \<longleftrightarrow>
   next_answer h = Fail \<or> next_answer (h\<lparr>plan := tl (plan h)\<rparr>) = Fail"
  by (cases "plan h"; cases "tl (plan h)") (auto simp: next_answer_def)

text \<open>The heap without a set of its blocks.\<close>

definition drop_blocks :: "ptr set \<Rightarrow> 'b heap \<Rightarrow> 'b heap" where
  "drop_blocks A h = h\<lparr>blocks := (\<lambda>q. if q \<in> A then None else blocks h q)\<rparr>"

lemma blocks_drop [simp]: "blocks (drop_blocks A h) q = (if q \<in> A then None else blocks h q)"
  by (simp add: drop_blocks_def)

lemma drop_no_blocks [simp]: "drop_blocks {} h = h"
  by (simp add: drop_blocks_def)

lemma drop_blocks_twice: "drop_blocks A (drop_blocks B h) = drop_blocks (A \<union> B) h"
  by (simp add: drop_blocks_def fun_eq_iff)

lemma heap_free_drop:
  assumes "p \<noteq> NULL" and "p \<notin> A" and "blocks h p \<noteq> None"
  shows "heap_free p (drop_blocks A h) = Some (drop_blocks (insert p A) h)"
  using assms by (auto simp: heap_free_def drop_blocks_def fun_eq_iff)

end
