(* ===== verification/Cstring.thy ===== *)
theory Cstring
  imports C_Heap
begin

text \<open>
  \<open>lib/cstring.c\<close>, the iteration macro of \<open>includes/cstring.h\<close> and the program
  \<open>examples/comma_separated_list\<close> built on them. A \<open>char *\<close> is an offset into the object it
  points into, the object a list of characters (\<open>mem\<close>); scanning past the end of the object is
  undefined. \<open>strndup\<close> answers from the plan of the allocator.
\<close>

abbreviation (input) NUL :: char where "NUL \<equiv> CHR 0x00"

subsection \<open>The library functions used\<close>

fun c_strlen :: "char list \<Rightarrow> nat option" where
  "c_strlen [] = None"
| "c_strlen (c # cs) = (if c = NUL then Some 0 else map_option Suc (c_strlen cs))"

text \<open>
  \<open>strchr\<close>: the distance to the first match, if there is one before the end of the string. The
  terminator is part of the string: searching for it finds it.
\<close>

fun c_strchr :: "char \<Rightarrow> char list \<Rightarrow> nat option option" where
  "c_strchr d [] = None"
| "c_strchr d (c # cs) =
     (if c = d then Some (Some 0)
      else if c = NUL then Some None
      else map_option (map_option Suc) (c_strchr d cs))"

definition c_strndup :: "char list \<Rightarrow> nat \<Rightarrow> answer list \<Rightarrow> string option \<times> answer list" where
  "c_strndup cs n pl =
     (case pl of
        Fail # pl' \<Rightarrow> (None, pl')
      | _ \<Rightarrow> (Some (takeWhile (\<lambda>c. c \<noteq> NUL) (take n cs)), tl pl))"

subsection \<open>substr\<close>

text \<open>What a call did: its result, the value stored through \<open>nxt\<close> (if it stored one), \<open>errno\<close>.\<close>

record substr_result =
  ret :: "string option"
  nxt_out :: "nat option option"
  err :: "errno option"
  plan_left :: "answer list"

definition substr ::
  "char list \<Rightarrow> nat option \<Rightarrow> bool \<Rightarrow> char \<Rightarrow> answer list \<Rightarrow> substr_result option" where
  "substr mem haystack nxt needle pl =
     (case haystack of
        None \<Rightarrow> Some \<lparr>ret = None, nxt_out = None, err = Some EINVAL, plan_left = pl\<rparr>
      | Some p \<Rightarrow> do {
          n \<leftarrow> c_strchr needle (drop p mem);
          len \<leftarrow> (case n of None \<Rightarrow> c_strlen (drop p mem) | Some k \<Rightarrow> Some k);
          let out = (if nxt then Some (case n of Some k \<Rightarrow> Some (p + k + 1) | None \<Rightarrow> None) else None);
          let dup = c_strndup (drop p mem) len pl;
          Some \<lparr>ret = fst dup, nxt_out = out,
                err = (if fst dup = None then Some ENOMEM else None), plan_left = snd dup\<rparr> })"

text \<open>
  \<open>iter_substr(str, h, n, s)\<close> with a body that keeps the strings it is given. The loop variable
  \<open>n\<close> is written by every call that returns a string.
\<close>

lemma c_strchr_len: "c_strchr d cs = Some (Some k) \<Longrightarrow> k < length cs"
  by (induction cs arbitrary: k) (auto split: if_splits)

lemma c_strchr_nonempty: "c_strchr d cs = Some r \<Longrightarrow> cs \<noteq> []"
  by auto

lemma substr_progress:
  assumes "substr mem h nx d pl = Some r" and "nxt_out r = Some n"
  shows "\<exists>p. h = Some p \<and> p < length mem \<and>
    (case n of None \<Rightarrow> True | Some q \<Rightarrow> p < q \<and> q \<le> length mem)"
proof -
  obtain p k where h: "h = Some p" and k: "c_strchr d (drop p mem) = Some k"
    using assms by (auto simp: substr_def bind_Some_iff split: option.splits)
  have "p < length mem" using c_strchr_nonempty [OF k] by simp
  moreover have "n = (case k of Some k \<Rightarrow> Some (p + k + 1) | None \<Rightarrow> None)"
    using assms h k by (auto simp: substr_def Let_def bind_Some_iff split: if_splits)
  ultimately show ?thesis
    using h k by (auto dest!: c_strchr_len split: option.splits)
qed

function iter_substr ::
  "char list \<Rightarrow> nat option \<Rightarrow> char \<Rightarrow> answer list \<Rightarrow> (string list \<times> answer list) option" where
  "iter_substr mem h s pl =
     (case substr mem h True s pl of
        None \<Rightarrow> None
      | Some r \<Rightarrow>
          (case ret r of
             None \<Rightarrow> Some ([], plan_left r)
           | Some str \<Rightarrow>
               (case nxt_out r of
                  None \<Rightarrow> None
                | Some n \<Rightarrow>
                    map_option (\<lambda>(strs, pl). (str # strs, pl))
                      (iter_substr mem n s (plan_left r)))))"
  by pat_completeness auto
termination
proof (relation "measure (\<lambda>(mem, h, s, pl). case h of None \<Rightarrow> 0 | Some p \<Rightarrow> Suc (length mem) - p)")
  fix mem h s pl r str n
  assume "substr mem h True s pl = Some r" "nxt_out r = Some n"
  then show "((mem, n, s, plan_left r), mem, h, s, pl)
      \<in> measure (\<lambda>(mem, h, s, pl). case h of None \<Rightarrow> 0 | Some p \<Rightarrow> Suc (length mem) - p)"
    using substr_progress by (fastforce split: option.splits)
qed simp

declare iter_substr.simps [simp del]

subsection \<open>The specification: splitting at a separator\<close>

fun split_on :: "char \<Rightarrow> string \<Rightarrow> string list" where
  "split_on d [] = [[]]"
| "split_on d (c # cs) =
     (if c = d then [] # split_on d cs
      else (case split_on d cs of [] \<Rightarrow> [[c]] | t # ts \<Rightarrow> (c # t) # ts))"

fun join_with :: "char \<Rightarrow> string list \<Rightarrow> string" where
  "join_with d [] = []"
| "join_with d [t] = t"
| "join_with d (t # ts) = t @ d # join_with d ts"

lemma split_on_nonempty [simp]: "split_on d cs \<noteq> []"
  by (induction cs) (auto split: list.splits)

lemma join_split_on: "join_with d (split_on d cs) = cs"
proof (induction cs)
  case (Cons c cs)
  then show ?case by (cases "split_on d cs"; cases "tl (split_on d cs)") auto
qed simp

lemma split_on_no_sep: "t \<in> set (split_on d cs) \<Longrightarrow> d \<notin> set t"
  by (induction cs arbitrary: t) (auto split: list.splits if_splits)

lemma length_split_on: "length (split_on d cs) = Suc (count_list cs d)"
  by (induction cs) (auto split: list.splits)

lemma split_on_no_occ: "d \<notin> set cs \<Longrightarrow> split_on d cs = [cs]"
  by (induction cs) auto

lemma split_on_append: "d \<notin> set xs \<Longrightarrow> split_on d (xs @ d # ys) = xs # split_on d ys"
  by (induction xs) auto

subsection \<open>Scanning a well-formed string\<close>

lemma c_strlen_string: "NUL \<notin> set s \<Longrightarrow> c_strlen (s @ NUL # post) = Some (length s)"
  by (induction s) auto

lemma c_strchr_found:
  "NUL \<notin> set t \<Longrightarrow> d \<notin> set t \<Longrightarrow> c_strchr d (t @ d # u) = Some (Some (length t))"
  by (induction t) auto

lemma c_strchr_absent:
  "NUL \<notin> set s \<Longrightarrow> d \<notin> set s \<Longrightarrow> d \<noteq> NUL \<Longrightarrow> c_strchr d (s @ NUL # post) = Some None"
  by (induction s) auto

lemma c_strndup_ok:
  "Fail \<notin> set pl \<Longrightarrow> NUL \<notin> set t \<Longrightarrow> c_strndup (t @ u) (length t) pl = (Some t, tl pl)"
  by (cases pl; cases "hd pl") (auto simp: c_strndup_def takeWhile_eq_all_conv)

lemma substr_last:
  assumes "NUL \<notin> set s" "d \<notin> set s" "d \<noteq> NUL" "Fail \<notin> set pl"
  shows "substr (pre @ s @ NUL # post) (Some (length pre)) True d pl =
    Some \<lparr>ret = Some s, nxt_out = Some None, err = None, plan_left = tl pl\<rparr>"
  using assms
  by (simp add: substr_def c_strchr_absent c_strlen_string c_strndup_ok)

lemma substr_token:
  assumes "NUL \<notin> set t" "d \<notin> set t" "Fail \<notin> set pl"
  shows "substr (pre @ t @ d # u) (Some (length pre)) True d pl =
    Some \<lparr>ret = Some t, nxt_out = Some (Some (length pre + length t + 1)), err = None,
          plan_left = tl pl\<rparr>"
  using assms by (simp add: substr_def c_strchr_found c_strndup_ok)

lemma iter_substr_split:
  assumes "NUL \<notin> set s" "d \<noteq> NUL" "Fail \<notin> set pl"
  shows "iter_substr (pre @ s @ NUL # post) (Some (length pre)) d pl =
    Some (split_on d s, drop (length (split_on d s)) pl)"
  using assms
proof (induction "length s" arbitrary: s pre pl rule: less_induct)
  case less
  have stop: "iter_substr mem None d q = Some ([], q)" for mem q
    by (simp add: iter_substr.simps [of _ None] substr_def)
  show ?case
  proof (cases "d \<in> set s")
    case False
    then show ?thesis
      using less.prems
      by (subst iter_substr.simps) (simp add: substr_last stop split_on_no_occ drop_Suc)
  next
    case True
    then obtain t u where s: "s = t @ d # u" "d \<notin> set t" by (blast dest: split_list_first)
    have IH: "iter_substr ((pre @ t @ [d]) @ u @ NUL # post) (Some (length (pre @ t @ [d]))) d (tl pl) =
        Some (split_on d u, drop (length (split_on d u)) (tl pl))"
      by (rule less.hyps) (use s less.prems in \<open>auto dest: in_set_tlD\<close>)
    have "substr (pre @ s @ NUL # post) (Some (length pre)) True d pl =
        Some \<lparr>ret = Some t, nxt_out = Some (Some (length pre + length t + 1)), err = None,
              plan_left = tl pl\<rparr>"
      using s less.prems substr_token [of t d pl pre "u @ NUL # post"] by simp
    then show ?thesis
      using IH s by (subst iter_substr.simps) (simp add: split_on_append drop_Suc)
  qed
qed

subsection \<open>examples/comma_separated_list/main.c\<close>

text \<open>\<open>main\<close>: exit status and standard output. The strings of \<open>argv\<close> end where their list ends.\<close>

definition comma_main :: "string list \<Rightarrow> answer list \<Rightarrow> (int \<times> string) option" where
  "comma_main argv pl =
     (if length argv < 2
      then Some (- 1, ''usage: '' @ concat (take 1 argv) @ '' comma,separated,list'' @ [CHR 0x0A])
      else do {
        (strs, pl) \<leftarrow> iter_substr (argv ! 1 @ [NUL]) (Some 0) (CHR '','') pl;
        Some (0, concat (map (\<lambda>str. str @ [CHR 0x0A]) strs)) })"

subsection \<open>Properties\<close>

text \<open>C22: Iterating \<open>substr\<close> over a string with a separator other than \<open>NUL\<close> ends, stays inside the
  string and yields exactly its fields: one more than there are separators, none containing the
  separator, and joining them with it gives back the string.\<close>

theorem iter_substr_splits:
  assumes "NUL \<notin> set s" and "d \<noteq> NUL" and "Fail \<notin> set pl"
  shows "\<exists>ts. iter_substr (pre @ s @ NUL # post) (Some (length pre)) d pl =
      Some (ts, drop (length ts) pl) \<and>
    join_with d ts = s \<and> length ts = Suc (count_list s d) \<and> list_all (\<lambda>t. d \<notin> set t) ts"
  using iter_substr_split [OF assms] split_on_no_sep [of _ d s]
  by (auto simp: join_split_on length_split_on list_all_iff)

theorem iter_substr_splits_witness:
  "\<exists>ts. iter_substr (''xx'' @ ''a,,b'' @ NUL # ''zz'') (Some 2) (CHR '','') [] = Some (ts, []) \<and>
    join_with (CHR '','') ts = ''a,,b'' \<and> length ts = 3"
  using iter_substr_splits [of "''a,,b''" "CHR '',''" "[]" "''xx''" "''zz''"]
  by (auto simp: numeral_2_eq_2 numeral_3_eq_3)

text \<open>With \<open>'\0'\<close> as the needle, \<open>substr\<close> returns the whole string but stores a pointer one past
  the terminator instead of \<open>NULL\<close>; for a string that fills its object, iterating then reads
  outside the object.\<close>

theorem substr_NUL_overruns:
  assumes "NUL \<notin> set s" and "Fail \<notin> set pl"
  shows "substr (s @ [NUL]) (Some 0) True NUL pl =
      Some \<lparr>ret = Some s, nxt_out = Some (Some (length (s @ [NUL]))), err = None, plan_left = tl pl\<rparr> \<and>
    iter_substr (s @ [NUL]) (Some 0) NUL pl = None"
proof -
  have first: "substr (s @ [NUL]) (Some 0) True NUL pl =
      Some \<lparr>ret = Some s, nxt_out = Some (Some (length (s @ [NUL]))), err = None, plan_left = tl pl\<rparr>"
    using substr_token [of s NUL pl "[]" "[]"] assms by simp
  have "iter_substr (s @ [NUL]) (Some (length (s @ [NUL]))) NUL (tl pl) = None"
    by (simp add: iter_substr.simps substr_def)
  with first show ?thesis by (simp add: iter_substr.simps [of _ "Some 0"])
qed

theorem substr_NUL_overruns_witness:
  "iter_substr (''ab'' @ [NUL]) (Some 0) NUL [] = None"
  using substr_NUL_overruns [of "''ab''" "[]"] by simp

text \<open>The example program prints the comma separated fields of its first argument, one per
  line, in order, and exits with 0; without an argument it prints its usage and fails.\<close>

theorem comma_main_lines:
  "Fail \<notin> set pl \<Longrightarrow> list_all (\<lambda>a. NUL \<notin> set a) argv \<Longrightarrow>
   (if length argv < 2 then \<exists>out. comma_main argv pl = Some (- 1, out)
    else comma_main argv pl =
      Some (0, concat (map (\<lambda>t. t @ [CHR 0x0A]) (split_on (CHR '','') (argv ! 1)))))"
  using iter_substr_split [of "argv ! 1" "CHR '',''" pl "[]" "[]"]
  by (auto simp: comma_main_def list_all_iff)

theorem comma_main_lines_witness:
  "comma_main [''prog'', ''a,bc''] [] = Some (0, ''a'' @ [CHR 0x0A] @ ''bc'' @ [CHR 0x0A])"
  using comma_main_lines [of "[]" "[''prog'', ''a,bc'']"] by simp

end
