(* ===== verification/Cvector.thy ===== *)
theory Cvector
  imports C_Heap
begin

text \<open>
  \<open>lib/cvector.c\<close>: a vector of object pointers in a heap block that ends in a \<open>NULL\<close> cell.
  A cell is \<^term>\<open>None\<close> while its contents are
  indeterminate (fresh memory of \<open>realloc\<close>); reading such a cell, or outside the block, is
  undefined. The block may be larger than the vector: \<open>popv\<close> and \<open>popv_front\<close> do not shrink it.
  A block has fewer than \<open>2 ^ 61\<close> cells of 8 bytes, so the \<open>size_t\<close> counters cannot wrap and are
  natural numbers.
\<close>

text \<open>The blocks of the program: pointer arrays, and its objects with their \<open>val\<close> field.\<close>

datatype block = Cells "ptr option list" | Obj int

type_synonym vheap = "block heap"

definition cells_at :: "ptr \<Rightarrow> vheap \<Rightarrow> ptr option list option" where
  "cells_at p h = (case heap_load p h of Some (Cells cs) \<Rightarrow> Some cs | _ \<Rightarrow> None)"

definition get_cell :: "ptr \<Rightarrow> nat \<Rightarrow> vheap \<Rightarrow> ptr option" where
  "get_cell p i h = do { cs \<leftarrow> cells_at p h; if i < length cs then cs ! i else None }"

definition set_cell :: "ptr \<Rightarrow> nat \<Rightarrow> ptr \<Rightarrow> vheap \<Rightarrow> vheap option" where
  "set_cell p i v h = do {
     cs \<leftarrow> cells_at p h;
     if i < length cs then heap_store p (Cells (cs[i := Some v])) h else None }"

definition block_len :: "ptr \<Rightarrow> vheap \<Rightarrow> nat" where
  "block_len p h = (case cells_at p h of None \<Rightarrow> 0 | Some cs \<Rightarrow> length cs)"

lemma get_cell_bound: "get_cell p i h = Some c \<Longrightarrow> i < block_len p h"
  by (auto simp: get_cell_def block_len_def bind_Some_iff split: if_splits)

lemma set_cell_len: "set_cell p i v h = Some h' \<Longrightarrow> block_len p h' = block_len p h"
  by (auto simp: set_cell_def block_len_def bind_Some_iff cells_at_def heap_load_def
      heap_store_def split: if_splits option.splits block.splits)

lemma heap_free_len: "heap_free q h = Some h' \<Longrightarrow> block_len p h' \<le> block_len p h"
  by (auto simp: heap_free_def block_len_def cells_at_def heap_load_def
      split: if_splits option.splits block.splits)

subsection \<open>The operations\<close>

text \<open>The scan \<open>for(p = ptrs; *p != NULL; p++) nptrs++\<close> of \<open>pushv\<close>, \<open>popv\<close> and \<open>countv\<close>.\<close>

function count_loop :: "ptr \<Rightarrow> nat \<Rightarrow> nat \<Rightarrow> vheap \<Rightarrow> nat option" where
  "count_loop ptrs i nptrs h =
     (case get_cell ptrs i h of
        None \<Rightarrow> None
      | Some c \<Rightarrow> if c \<noteq> NULL then count_loop ptrs (Suc i) (Suc nptrs) h else Some nptrs)"
  by pat_completeness auto
termination
  by (relation "measure (\<lambda>(ptrs, i, nptrs, h). block_len ptrs h - i)")
    (auto dest: get_cell_bound)

definition countv :: "ptr \<Rightarrow> vheap \<Rightarrow> nat option" where
  "countv ptrs h = count_loop ptrs 0 0 h"

function free_loop :: "ptr \<Rightarrow> nat \<Rightarrow> vheap \<Rightarrow> vheap option" where
  "free_loop ptrs i h =
     (case get_cell ptrs i h of
        None \<Rightarrow> None
      | Some c \<Rightarrow>
          if c \<noteq> NULL
          then (case heap_free c h of None \<Rightarrow> None | Some h' \<Rightarrow> free_loop ptrs (Suc i) h')
          else Some h)"
  by pat_completeness auto
termination
proof (relation "measure (\<lambda>(ptrs, i, h). block_len ptrs h - i)")
  fix ptrs i h c h'
  assume "get_cell ptrs i h = Some c" "heap_free c h = Some h'"
  then show "((ptrs, Suc i, h'), ptrs, i, h) \<in> measure (\<lambda>(ptrs, i, h). block_len ptrs h - i)"
    using get_cell_bound [of ptrs i h c] heap_free_len [of c h h' ptrs] by auto
qed simp

definition freev :: "ptr \<Rightarrow> vheap \<Rightarrow> vheap option" where
  "freev ptrs h =
     (if ptrs = NULL then Some h
      else do { h \<leftarrow> free_loop ptrs 0 h; heap_free ptrs h })"

text \<open>\<open>realloc(ptrs, n * sizeof(ptr))\<close>: the old cells that fit, the rest indeterminate.\<close>

definition resize_cells :: "nat \<Rightarrow> block \<Rightarrow> block" where
  "resize_cells n b =
     (case b of Cells cs \<Rightarrow> Cells (take n cs @ replicate (n - length cs) None) | Obj v \<Rightarrow> Obj v)"

definition pushv :: "ptr \<Rightarrow> ptr \<Rightarrow> vheap \<Rightarrow> (ptr \<times> errno option \<times> vheap) option" where
  "pushv p ptrs h =
     (if p = NULL then Some (NULL, Some EINVAL, h)
      else do {
        nptrs \<leftarrow> (if ptrs \<noteq> NULL then count_loop ptrs 0 2 h else Some 2);
        (tmp, h) \<leftarrow> heap_realloc ptrs (resize_cells nptrs (Cells [])) (resize_cells nptrs) h;
        if tmp = NULL then Some (NULL, Some ENOMEM, h)
        else do {
          h \<leftarrow> set_cell tmp (nptrs - 2) p h;
          h \<leftarrow> set_cell tmp (nptrs - 1) NULL h;
          Some (tmp, None, h) } })"

definition popv :: "ptr \<Rightarrow> vheap \<Rightarrow> (ptr \<times> vheap) option" where
  "popv ptrs h = do {
     nptrs \<leftarrow> count_loop ptrs 0 0 h;
     if nptrs = 0 then Some (NULL, h)
     else do {
       p \<leftarrow> get_cell ptrs (nptrs - 1) h;
       h \<leftarrow> set_cell ptrs (nptrs - 1) NULL h;
       Some (p, h) } }"

text \<open>The loop \<open>p[0] = p[1]\<close> of \<open>popv_front\<close>; its test reads the cell before it is overwritten.\<close>

function shift_loop :: "ptr \<Rightarrow> nat \<Rightarrow> vheap \<Rightarrow> vheap option" where
  "shift_loop ptrs i h =
     (case get_cell ptrs i h of
        None \<Rightarrow> None
      | Some c \<Rightarrow>
          if c \<noteq> NULL
          then (case get_cell ptrs (Suc i) h of
                  None \<Rightarrow> None
                | Some c' \<Rightarrow>
                    (case set_cell ptrs i c' h of
                       None \<Rightarrow> None
                     | Some h' \<Rightarrow> shift_loop ptrs (Suc i) h'))
          else Some h)"
  by pat_completeness auto
termination
  by (relation "measure (\<lambda>(ptrs, i, h). block_len ptrs h - i)")
    (auto dest!: get_cell_bound simp: set_cell_len)

definition popv_front :: "ptr \<Rightarrow> vheap \<Rightarrow> (ptr \<times> vheap) option" where
  "popv_front ptrs h = do {
     p \<leftarrow> get_cell ptrs 0 h;
     h \<leftarrow> shift_loop ptrs 0 h;
     Some (p, h) }"

declare count_loop.simps [simp del] free_loop.simps [simp del] shift_loop.simps [simp del]

subsection \<open>The sequence a vector stands for\<close>

text \<open>
  \<open>vec h p xs\<close>: \<open>p\<close> is the vector of the pointers \<open>xs\<close>; the empty vector is also \<open>NULL\<close>.
  Beyond the terminator the block holds determinate cells or not (\<open>rest\<close>).
\<close>

definition vec_at :: "vheap \<Rightarrow> ptr \<Rightarrow> ptr list \<Rightarrow> bool" where
  "vec_at h p xs \<longleftrightarrow> p \<noteq> NULL \<and> NULL \<notin> set xs \<and>
     (\<exists>rest. cells_at p h = Some (map Some xs @ Some NULL # rest))"

definition vec :: "vheap \<Rightarrow> ptr \<Rightarrow> ptr list \<Rightarrow> bool" where
  "vec h p xs \<longleftrightarrow> (if p = NULL then xs = [] else vec_at h p xs)"

lemma vec_at_cells:
  "vec_at h p xs \<Longrightarrow> cells_at p h = Some cs \<Longrightarrow> \<exists>rest. cs = map Some xs @ Some NULL # rest"
  by (auto simp: vec_at_def)

lemma get_cell_vec:
  assumes "vec_at h p xs" and "i \<le> length xs"
  shows "get_cell p i h = Some (if i < length xs then xs ! i else NULL)"
  using assms by (auto simp: vec_at_def get_cell_def nth_append)

lemma count_loop_vec:
  assumes "vec_at h p xs"
  shows "i \<le> length xs \<Longrightarrow> count_loop p i n h = Some (n + (length xs - i))"
proof (induction "length xs - i" arbitrary: i n)
  case 0
  then show ?case
    using get_cell_vec [OF assms, of i] by (simp add: count_loop.simps [of p i])
next
  case (Suc k)
  have "i < length xs" using Suc.hyps(2) by simp
  moreover from this have "xs ! i \<noteq> NULL" using assms by (metis nth_mem vec_at_def)
  ultimately show ?case
    using Suc.hyps(1) [of "Suc i" "Suc n"] Suc.hyps(2) get_cell_vec [OF assms, of i]
    by (simp add: count_loop.simps [of p i])
qed

lemma countv_vec: "vec_at h p xs \<Longrightarrow> countv p h = Some (length xs)"
  using count_loop_vec [of h p xs 0 0] by (simp add: countv_def)

lemma cells_at_frame: "blocks h' p = blocks h p \<Longrightarrow> cells_at p h' = cells_at p h"
  by (simp add: cells_at_def heap_load_def)

lemma vec_at_frame: "vec_at h p xs \<Longrightarrow> blocks h' p = blocks h p \<Longrightarrow> vec_at h' p xs"
  using cells_at_frame [of h' p h] by (simp add: vec_at_def)

lemma vec_frame: "vec h p xs \<Longrightarrow> blocks h' p = blocks h p \<Longrightarrow> vec h' p xs"
  by (auto simp: vec_def vec_at_frame split: if_splits)

lemma vec_at_live: "vec_at h p xs \<Longrightarrow> \<exists>b. blocks h p = Some b"
  by (auto simp: vec_at_def cells_at_def heap_load_def split: option.splits)

text \<open>The heap with new cells in the block of a vector.\<close>

definition put_cells :: "ptr \<Rightarrow> ptr option list \<Rightarrow> vheap \<Rightarrow> vheap" where
  "put_cells p cs h = h\<lparr>blocks := (blocks h)(p \<mapsto> Cells cs)\<rparr>"

lemma cells_at_put [simp]: "p \<noteq> NULL \<Longrightarrow> cells_at p (put_cells p cs h) = Some cs"
  by (simp add: cells_at_def put_cells_def heap_load_def)

lemma cells_at_Some: "cells_at p h = Some cs \<longleftrightarrow> p \<noteq> NULL \<and> blocks h p = Some (Cells cs)"
  by (auto simp: cells_at_def heap_load_def split: option.splits block.splits)

lemma put_cells_same: "cells_at p h = Some cs \<Longrightarrow> put_cells p cs h = h"
  by (simp add: cells_at_Some put_cells_def fun_upd_idem)

lemma put_cells_twice [simp]: "put_cells p cs' (put_cells p cs h) = put_cells p cs' h"
  by (simp add: put_cells_def)

lemma plan_put [simp]: "plan (put_cells p cs h) = plan h"
  by (simp add: put_cells_def)

lemma blocks_put_other [simp]: "q \<noteq> p \<Longrightarrow> blocks (put_cells p cs h) q = blocks h q"
  by (simp add: put_cells_def)

lemma set_cell_put:
  "cells_at p h = Some cs \<Longrightarrow> i < length cs \<Longrightarrow> set_cell p i v h = Some (put_cells p (cs[i := Some v]) h)"
  by (auto simp: set_cell_def cells_at_def heap_load_def heap_store_def put_cells_def
      split: if_splits option.splits block.splits)

lemma heap_ok_put: "heap_ok h \<Longrightarrow> cells_at p h = Some cs \<Longrightarrow> heap_ok (put_cells p cs' h)"
  by (auto simp: cells_at_def heap_load_def put_cells_def heap_ok_def
      split: if_splits option.splits block.splits)

lemma popv_vec:
  assumes "heap_ok h" and v: "vec_at h p xs"
  shows "\<exists>h'. popv p h = Some (if xs = [] then NULL else last xs, h') \<and>
    vec_at h' p (butlast xs) \<and> heap_ok h' \<and> same_except {p} h h' \<and> plan h' = plan h"
proof (cases xs rule: rev_cases)
  case Nil
  then show ?thesis
    using assms count_loop_vec [OF v, of 0 0] by (auto simp: popv_def)
next
  case (snoc ys y)
  obtain rest where cs: "cells_at p h = Some (map Some xs @ Some NULL # rest)"
    using v by (auto simp: vec_at_def)
  have p: "p \<noteq> NULL" using v by (simp add: vec_at_def)
  define h' where "h' = put_cells p (map Some ys @ Some NULL # Some NULL # rest) h"
  have "set_cell p (length ys) NULL h = Some h'"
    using snoc cs by (subst set_cell_put) (auto simp: h'_def list_update_append)
  then have "popv p h = Some (y, h')"
    using snoc count_loop_vec [OF v, of 0 0] get_cell_vec [OF v, of "length ys"]
    by (simp add: popv_def)
  moreover have "vec_at h' p ys" using v snoc p by (auto simp: vec_at_def h'_def)
  moreover have "heap_ok h'" using assms(1) cs by (auto simp: h'_def intro: heap_ok_put)
  ultimately show ?thesis using snoc by (auto simp: same_except_def h'_def)
qed

lemma shift_loop_cells:
  assumes "p \<noteq> NULL" and "heap_ok h"
    and "cells_at p h = Some (as @ map Some xs @ Some NULL # rest)" and "NULL \<notin> set xs"
  shows "shift_loop p (length as) h =
    Some (put_cells p (as @ map Some (tl xs) @ Some NULL #
      (if xs = [] then [] else [Some NULL]) @ rest) h)"
  using assms
proof (induction xs arbitrary: as h)
  case Nil
  then have "get_cell p (length as) h = Some NULL" by (simp add: get_cell_def)
  moreover have "put_cells p (as @ Some NULL # rest) h = h"
    using Nil.prems(3) by (intro put_cells_same) simp
  ultimately show ?case by (simp add: shift_loop.simps [of p])
next
  case (Cons x xs)
  define c where "c = (case xs of [] \<Rightarrow> NULL | y # _ \<Rightarrow> y)"
  define h' where "h' = put_cells p (as @ Some c # map Some xs @ Some NULL # rest) h"
  have "get_cell p (length as) h = Some x" "get_cell p (Suc (length as)) h = Some c"
    using Cons.prems(3) by (auto simp: get_cell_def nth_append c_def split: list.splits)
  moreover have "set_cell p (length as) c h = Some h'"
    using Cons.prems(3) by (subst set_cell_put) (auto simp: h'_def)
  moreover have "shift_loop p (length (as @ [Some c])) h' =
      Some (put_cells p ((as @ [Some c]) @ map Some (tl xs) @ Some NULL #
        (if xs = [] then [] else [Some NULL]) @ rest) h')"
    using Cons.prems by (intro Cons.IH) (auto simp: h'_def intro: heap_ok_put)
  moreover have "x \<noteq> NULL" using Cons.prems(4) by auto
  ultimately show ?case
    by (simp add: shift_loop.simps [of p "length as" h] h'_def c_def split: list.splits)
qed

lemma popv_front_vec:
  assumes "heap_ok h" and v: "vec_at h p xs"
  shows "\<exists>h'. popv_front p h = Some (if xs = [] then NULL else hd xs, h') \<and>
    vec_at h' p (tl xs) \<and> heap_ok h' \<and> same_except {p} h h' \<and> plan h' = plan h"
proof -
  obtain rest where cs: "cells_at p h = Some (map Some xs @ Some NULL # rest)"
    and p: "p \<noteq> NULL" "NULL \<notin> set xs"
    using v by (auto simp: vec_at_def)
  define h' where "h' = put_cells p (map Some (tl xs) @ Some NULL #
      (if xs = [] then [] else [Some NULL]) @ rest) h"
  have "shift_loop p 0 h = Some h'"
    using shift_loop_cells [of p h "[]" xs rest] cs p assms(1) by (simp add: h'_def)
  then have "popv_front p h = Some (if xs = [] then NULL else hd xs, h')"
    using get_cell_vec [OF v, of 0] by (simp add: popv_front_def hd_conv_nth)
  moreover have "vec_at h' p (tl xs)"
    using p by (auto simp: vec_at_def h'_def dest: in_set_tlD)
  moreover have "heap_ok h'" using assms(1) cs by (auto simp: h'_def intro: heap_ok_put)
  ultimately show ?thesis by (auto simp: same_except_def h'_def)
qed

lemma resize_vec:
  "\<exists>b. resize_cells (Suc (Suc (length xs))) (Cells (map Some xs @ Some NULL # rest)) =
     Cells (map Some xs @ [Some NULL, b])"
  by (cases rest) (simp_all add: resize_cells_def)

lemma write_ends:
  assumes "p \<noteq> NULL" and "cells_at p h = Some (map Some xs @ [a, b])"
  shows "\<exists>h1. set_cell p (length xs) e h = Some h1 \<and>
    set_cell p (Suc (length xs)) NULL h1 =
      Some (put_cells p (map Some (xs @ [e]) @ [Some NULL]) h)"
proof -
  let ?h1 = "put_cells p (map Some xs @ [Some e, b]) h"
  have "set_cell p (length xs) e h = Some ?h1"
    using assms by (subst set_cell_put) (auto simp: list_update_append)
  moreover have "set_cell p (Suc (length xs)) NULL ?h1 =
      Some (put_cells p (map Some (xs @ [e]) @ [Some NULL]) h)"
    using assms(1) by (subst set_cell_put) (auto simp: list_update_append)
  ultimately show ?thesis by blast
qed

text \<open>What one call of \<open>pushv\<close> does, by the answer of \<open>realloc\<close>.\<close>

text \<open>\<open>realloc\<close> to the old cells, without the terminator, and two more.\<close>

lemma realloc_vec:
  assumes ok: "heap_ok h" and v: "vec h p xs" and ans: "next_answer h \<noteq> Fail"
  defines "n \<equiv> Suc (Suc (length xs))"
  shows "\<exists>q a b h1. heap_realloc p (resize_cells n (Cells [])) (resize_cells n) h = Some (q, h1) \<and>
    q \<noteq> NULL \<and> cells_at q h1 = Some (map Some xs @ [a, b]) \<and> heap_ok h1 \<and>
    plan h1 = tl (plan h) \<and> (q = p \<or> blocks h q = None) \<and>
    (\<forall>r. r \<noteq> q \<longrightarrow> blocks h1 r = (if r = p then None else blocks h r))"
  (is "\<exists>q a b h1. ?P q a b h1")
proof (cases "p = NULL")
  case True
  define h1 where "h1 = h\<lparr>blocks := (blocks h)(brk h \<mapsto> Cells [None, None]), brk := Suc (brk h),
    plan := tl (plan h)\<rparr>"
  have a: "heap_alloc (Cells [None, None]) h = (brk h, h1)"
    using ans by (simp add: heap_alloc_def h1_def)
  have "xs = []" using v True by (simp add: vec_def)
  moreover have "heap_ok h1" using heap_alloc_ok [OF ok a] .
  ultimately have "?P (brk h) None None h1"
    using a True ok heap_ok_brk_pos [OF ok]
    by (auto simp: heap_realloc_def resize_cells_def numeral_2_eq_2 cells_at_Some h1_def n_def)
  then show ?thesis by blast
next
  case False
  then obtain rest where "NULL \<notin> set xs" and
    b: "blocks h p = Some (Cells (map Some xs @ Some NULL # rest))"
    using v by (auto simp: vec_def vec_at_def cells_at_Some)
  obtain b where r: "resize_cells n (Cells (map Some xs @ Some NULL # rest)) =
      Cells (map Some xs @ [Some NULL, b])"
    using resize_vec unfolding n_def by blast
  show ?thesis
  proof (cases "next_answer h")
    case Fresh
    define h1 where "h1 = h\<lparr>blocks := (blocks h)(p := None,
      brk h \<mapsto> Cells (map Some xs @ [Some NULL, b])), brk := Suc (brk h), plan := tl (plan h)\<rparr>"
    have "?P (brk h) (Some NULL) b h1"
      using b r False ok heap_ok_brk_pos [OF ok] heap_live_lt_brk [OF ok b] Fresh
      by (auto simp: heap_realloc_def cells_at_Some h1_def heap_ok_def less_Suc_eq)
    then show ?thesis by blast
  next
    case InPlace
    define h1 where "h1 = h\<lparr>blocks := (blocks h)(p \<mapsto> Cells (map Some xs @ [Some NULL, b])),
      plan := tl (plan h)\<rparr>"
    have "?P p (Some NULL) b h1"
      using b r False ok heap_live_lt_brk [OF ok b] InPlace
      by (auto simp: heap_realloc_def cells_at_Some h1_def heap_ok_def)
    then show ?thesis by blast
  qed (use ans in simp)
qed

lemma pushv_vec:
  assumes ok: "heap_ok h" and v: "vec h p xs" and e: "e \<noteq> NULL" and ans: "next_answer h \<noteq> Fail"
  shows "\<exists>q h'. pushv e p h = Some (q, None, h') \<and> vec_at h' q (xs @ [e]) \<and> heap_ok h' \<and>
    plan h' = tl (plan h) \<and> (q = p \<or> blocks h q = None) \<and>
    (\<forall>r. r \<noteq> q \<longrightarrow> blocks h' r = (if r = p then None else blocks h r))"
proof -
  have count: "(if p \<noteq> NULL then count_loop p 0 2 h else Some 2) = Some (Suc (Suc (length xs)))"
    using v count_loop_vec [of h p xs 0 2] by (auto simp: vec_def)
  obtain q a b h1 where h1:
    "heap_realloc p (resize_cells (Suc (Suc (length xs))) (Cells [])) (resize_cells (Suc (Suc (length xs)))) h =
       Some (q, h1)" "q \<noteq> NULL" "cells_at q h1 = Some (map Some xs @ [a, b])" "heap_ok h1"
    "plan h1 = tl (plan h)" "q = p \<or> blocks h q = None"
    "\<forall>r. r \<noteq> q \<longrightarrow> blocks h1 r = (if r = p then None else blocks h r)"
    using realloc_vec [OF ok v ans] by blast
  then obtain h2 where "set_cell q (length xs) e h1 = Some h2"
    "set_cell q (Suc (length xs)) NULL h2 =
       Some (put_cells q (map Some (xs @ [e]) @ [Some NULL]) h1)"
    using write_ends by blast
  then have "pushv e p h = Some (q, None, put_cells q (map Some (xs @ [e]) @ [Some NULL]) h1)"
    using h1 e count by (simp add: pushv_def)
  moreover have "NULL \<notin> set xs" using v by (auto simp: vec_def vec_at_def split: if_splits)
  then have "vec_at (put_cells q (map Some (xs @ [e]) @ [Some NULL]) h1) q (xs @ [e])"
    using h1 e by (auto simp: vec_at_def)
  moreover have "heap_ok (put_cells q (map Some (xs @ [e]) @ [Some NULL]) h1)"
    using h1 heap_ok_put by blast
  ultimately show ?thesis using h1 by (auto simp: put_cells_def)
qed

lemma pushv_oom:
  assumes ok: "heap_ok h" and v: "vec h p xs" and e: "e \<noteq> NULL" and ans: "next_answer h = Fail"
  shows "pushv e p h = Some (NULL, Some ENOMEM, h\<lparr>plan := tl (plan h)\<rparr>)"
proof (cases "p = NULL")
  case True
  then show ?thesis using e ans by (simp add: pushv_def heap_realloc_def heap_alloc_def)
next
  case False
  then have "vec_at h p xs" using v by (simp add: vec_def)
  moreover obtain b where "blocks h p = Some b" using vec_at_live calculation by blast
  ultimately show ?thesis using e ans False count_loop_vec [of h p xs 0 2]
    by (simp add: pushv_def heap_realloc_def)
qed

text \<open>\<open>freev\<close> frees the elements and the vector, nothing else.\<close>

lemma free_loop_vec:
  assumes "vec_at h p xs" and "distinct xs" and "p \<notin> set xs" and "set xs \<subseteq> dom (blocks h)"
  shows "i \<le> length xs \<Longrightarrow> free_loop p i (drop_blocks (set (take i xs)) h) =
    Some (drop_blocks (set xs) h)"
proof (induction "length xs - i" arbitrary: i)
  case (0 i)
  have "vec_at (drop_blocks (set (take i xs)) h) p xs"
    using assms(1,3) by (elim vec_at_frame) (auto dest: in_set_takeD)
  then show ?case
    using 0 get_cell_vec [of _ p xs i] by (simp add: free_loop.simps [of p i])
next
  case (Suc k i)
  let ?h = "drop_blocks (set (take i xs)) h"
  have i: "i < length xs" using Suc.hyps(2) by simp
  have v: "vec_at ?h p xs"
    using assms(1,3) by (elim vec_at_frame) (auto dest: in_set_takeD)
  have "xs ! i \<notin> set (take i xs)"
    using assms(2) i by (metis distinct_take id_take_nth_drop not_distinct_conv_prefix take_Suc_conv_app_nth)
  moreover have live: "xs ! i \<in> dom (blocks h)" using assms(4) i nth_mem by blast
  moreover have nz: "xs ! i \<noteq> NULL" using v i by (metis nth_mem vec_at_def)
  ultimately have "heap_free (xs ! i) ?h = Some (drop_blocks (set (take (Suc i) xs)) h)"
    using i heap_free_drop [of "xs ! i" "set (take i xs)" h] by (auto simp: take_Suc_conv_app_nth)
  moreover have "free_loop p (Suc i) (drop_blocks (set (take (Suc i) xs)) h) =
      Some (drop_blocks (set xs) h)"
    using Suc.hyps i by simp
  ultimately show ?case
    using get_cell_vec [OF v, of i] i nz by (simp add: free_loop.simps [of p i])
qed

lemma freev_vec:
  assumes "vec h p xs" and "distinct xs" and "p \<notin> set xs" and "set xs \<subseteq> dom (blocks h)"
    and ok: "heap_ok h"
  shows "freev p h = Some (drop_blocks (insert p (set xs)) h)"
proof (cases "p = NULL")
  case True
  then have "drop_blocks (insert p (set xs)) h = h"
    using assms(1) ok by (auto simp: vec_def drop_blocks_def fun_eq_iff intro!: heap.equality)
  then show ?thesis using True by (simp add: freev_def)
next
  case False
  then have v: "vec_at h p xs" using assms(1) by (simp add: vec_def)
  then have "free_loop p 0 h = Some (drop_blocks (set xs) h)"
    using free_loop_vec [OF v assms(2-4), of 0] by simp
  moreover have "heap_free p (drop_blocks (set xs) h) = Some (drop_blocks (insert p (set xs)) h)"
    using False assms(3) vec_at_live [OF v]
    by (intro heap_free_drop) auto
  ultimately show ?thesis using False by (simp add: freev_def)
qed

subsection \<open>The contract\<close>

text \<open>
  A vector module for a client: \<open>is_vec\<close> relates a handle to its contents. The laws let the
  client reason about sequences only; they are proved below for the functions of the library.
\<close>

locale ptr_vector =
  fixes good :: "'h \<Rightarrow> bool" and is_vec :: "'h \<Rightarrow> ptr \<Rightarrow> ptr list \<Rightarrow> bool"
    and may_push :: "'h \<Rightarrow> bool"
    and push :: "ptr \<Rightarrow> ptr \<Rightarrow> 'h \<Rightarrow> (ptr \<times> errno option \<times> 'h) option"
    and pop pop_front :: "ptr \<Rightarrow> 'h \<Rightarrow> (ptr \<times> 'h) option"
    and count :: "ptr \<Rightarrow> 'h \<Rightarrow> nat option"
  assumes push_law: "\<lbrakk>good h; may_push h; is_vec h p xs; e \<noteq> NULL\<rbrakk> \<Longrightarrow>
      \<exists>q h'. push e p h = Some (q, None, h') \<and> q \<noteq> NULL \<and> is_vec h' q (xs @ [e]) \<and>
        good h' \<and> may_push h'"
    and pop_law: "\<lbrakk>good h; is_vec h p xs; p \<noteq> NULL\<rbrakk> \<Longrightarrow>
      \<exists>h'. pop p h = Some (if xs = [] then NULL else last xs, h') \<and> is_vec h' p (butlast xs) \<and>
        good h'"
    and pop_front_law: "\<lbrakk>good h; is_vec h p xs; p \<noteq> NULL\<rbrakk> \<Longrightarrow>
      \<exists>h'. pop_front p h = Some (if xs = [] then NULL else hd xs, h') \<and> is_vec h' p (tl xs) \<and>
        good h'"
    and count_law: "\<lbrakk>is_vec h p xs; p \<noteq> NULL\<rbrakk> \<Longrightarrow> count p h = Some (length xs)"
    and null_law: "is_vec h NULL []"

text \<open>Clients: push a list of objects onto a vector; take \<open>n\<close> objects with one of the pops.\<close>

fun push_each :: "(ptr \<Rightarrow> ptr \<Rightarrow> 'h \<Rightarrow> (ptr \<times> errno option \<times> 'h) option) \<Rightarrow> ptr list \<Rightarrow> ptr \<Rightarrow> 'h \<Rightarrow>
    (ptr \<times> 'h) option" where
  "push_each push [] p h = Some (p, h)"
| "push_each push (e # es) p h =
     (case push e p h of Some (q, None, h') \<Rightarrow> push_each push es q h' | _ \<Rightarrow> None)"

fun take_each :: "(ptr \<Rightarrow> 'h \<Rightarrow> (ptr \<times> 'h) option) \<Rightarrow> nat \<Rightarrow> ptr \<Rightarrow> 'h \<Rightarrow> (ptr list \<times> 'h) option" where
  "take_each pop 0 p h = Some ([], h)"
| "take_each pop (Suc n) p h = do {
     (e, h) \<leftarrow> pop p h; (es, h) \<leftarrow> take_each pop n p h; Some (e # es, h) }"

context ptr_vector begin

lemma push_each_vec:
  "\<lbrakk>good h; may_push h; is_vec h p xs; NULL \<notin> set es\<rbrakk> \<Longrightarrow>
   \<exists>q h'. push_each push es p h = Some (q, h') \<and> is_vec h' q (xs @ es) \<and> good h' \<and>
     (es \<noteq> [] \<longrightarrow> q \<noteq> NULL)"
proof (induction es arbitrary: p xs h)
  case (Cons e es)
  then obtain q h1 where "push e p h = Some (q, None, h1)" "is_vec h1 q (xs @ [e])" "q \<noteq> NULL"
    "good h1" "may_push h1"
    using push_law [of h p xs e] by auto
  then show ?case using Cons.IH [of h1 q "xs @ [e]"] Cons.prems by (cases es) auto
qed auto

lemma take_each_front:
  "\<lbrakk>good h; is_vec h p xs; p \<noteq> NULL\<rbrakk> \<Longrightarrow>
   \<exists>h'. take_each pop_front (length xs) p h = Some (xs, h') \<and> is_vec h' p [] \<and> good h'"
proof (induction xs arbitrary: h)
  case (Cons x xs)
  then obtain h1 where "pop_front p h = Some (x, h1)" "is_vec h1 p xs" "good h1"
    using pop_front_law [of h p "x # xs"] by auto
  then show ?case using Cons.IH [of h1] Cons.prems by auto
qed auto

lemma take_each_back:
  "\<lbrakk>good h; is_vec h p xs; p \<noteq> NULL\<rbrakk> \<Longrightarrow>
   \<exists>h'. take_each pop (length xs) p h = Some (rev xs, h') \<and> is_vec h' p [] \<and> good h'"
proof (induction xs arbitrary: h rule: rev_induct)
  case (snoc x xs)
  then obtain h1 where "pop p h = Some (x, h1)" "is_vec h1 p xs" "good h1"
    using pop_law [of h p "xs @ [x]"] by auto
  then show ?case using snoc.IH [of h1] snoc.prems by auto
qed auto

lemma push_then_pop:
  assumes "good h" "may_push h" "NULL \<notin> set es" "es \<noteq> []"
  shows "\<exists>q h1 h2 h3. push_each push es NULL h = Some (q, h1) \<and> count q h1 = Some (length es) \<and>
    take_each pop_front (length es) q h1 = Some (es, h2) \<and> pop_front q h2 = Some (NULL, h3)"
proof -
  obtain q h1 where h1: "push_each push es NULL h = Some (q, h1)" "is_vec h1 q es" "good h1"
    "q \<noteq> NULL"
    using push_each_vec [OF assms(1,2) null_law assms(3)] assms(4) by auto
  moreover obtain h2 where "take_each pop_front (length es) q h1 = Some (es, h2)"
    "is_vec h2 q []" "good h2"
    using take_each_front calculation by blast
  moreover obtain h3 where "pop_front q h2 = Some (NULL, h3)"
    using pop_front_law [of h2 q "[]"] calculation by auto
  ultimately show ?thesis using count_law by blast
qed

lemma push_then_pop_back:
  assumes "good h" "may_push h" "NULL \<notin> set es" "es \<noteq> []"
  shows "\<exists>q h1 h2 h3. push_each push es NULL h = Some (q, h1) \<and> count q h1 = Some (length es) \<and>
    take_each pop (length es) q h1 = Some (rev es, h2) \<and> pop q h2 = Some (NULL, h3)"
proof -
  obtain q h1 where h1: "push_each push es NULL h = Some (q, h1)" "is_vec h1 q es" "good h1"
    "q \<noteq> NULL"
    using push_each_vec [OF assms(1,2) null_law assms(3)] assms(4) by auto
  moreover obtain h2 where "take_each pop (length es) q h1 = Some (rev es, h2)"
    "is_vec h2 q []" "good h2"
    using take_each_back calculation by blast
  moreover obtain h3 where "pop q h2 = Some (NULL, h3)"
    using pop_law [of h2 q "[]"] calculation by auto
  ultimately show ?thesis using count_law by blast
qed

end

lemma no_oom_plan_tl: "no_oom h \<Longrightarrow> plan h' = tl (plan h) \<Longrightarrow> no_oom h'"
  by (simp add: no_oom_tl no_oom_def)

interpretation cv: ptr_vector heap_ok vec no_oom pushv popv popv_front countv
proof
  fix h p xs e
  assume "heap_ok h" "no_oom h" "vec h p xs" "e \<noteq> NULL"
  then show "\<exists>q h'. pushv e p h = Some (q, None, h') \<and> q \<noteq> NULL \<and> vec h' q (xs @ [e]) \<and>
      heap_ok h' \<and> no_oom h'"
    using pushv_vec [of h p xs e] no_oom_plan_tl [of h] no_oom_next [of h]
    by (fastforce simp: vec_def vec_at_def)
next
  fix h p xs
  assume "heap_ok h" "vec h p xs" "p \<noteq> NULL"
  then show "\<exists>h'. popv p h = Some (if xs = [] then NULL else last xs, h') \<and>
      vec h' p (butlast xs) \<and> heap_ok h'"
    using popv_vec [of h p xs] by (auto simp: vec_def)
next
  fix h p xs
  assume "heap_ok h" "vec h p xs" "p \<noteq> NULL"
  then show "\<exists>h'. popv_front p h = Some (if xs = [] then NULL else hd xs, h') \<and>
      vec h' p (tl xs) \<and> heap_ok h'"
    using popv_front_vec [of h p xs] by (auto simp: vec_def)
qed (auto simp: vec_def countv_vec)

subsection \<open>Properties\<close>

text \<open>\<open>pushv\<close> on every branch. A null object is refused with \<open>EINVAL\<close>; when \<open>realloc\<close> fails the
  result is \<open>NULL\<close> with \<open>ENOMEM\<close> and the vector is as before; otherwise the result holds the old
  sequence with the object appended, the old block is gone if the vector moved, and no other
  block changes.\<close>

theorem pushv_branches:
  assumes "heap_ok h" and "vec h p xs"
  shows "if e = NULL then pushv e p h = Some (NULL, Some EINVAL, h)
    else if next_answer h = Fail
    then \<exists>h'. pushv e p h = Some (NULL, Some ENOMEM, h') \<and> blocks h' = blocks h \<and> vec h' p xs
    else \<exists>q h'. pushv e p h = Some (q, None, h') \<and> vec_at h' q (xs @ [e]) \<and>
      (\<forall>r. r \<noteq> q \<longrightarrow> blocks h' r = (if r = p then None else blocks h r))"
proof -
  have "vec (h\<lparr>plan := tl (plan h)\<rparr>) p xs" by (rule vec_frame [OF assms(2)]) simp
  then show ?thesis
    using pushv_oom [OF assms, of e] pushv_vec [OF assms, of e] by (auto simp: pushv_def)
qed

definition sample_vheap :: vheap where
  "sample_vheap = \<lparr>blocks = [1 \<mapsto> Obj 7, 2 \<mapsto> Cells [Some 1, Some 0, None], 3 \<mapsto> Obj 9, 4 \<mapsto> Obj 5],
     brk = 5, plan = []\<rparr>"

lemma sample_vheap_ok: "heap_ok sample_vheap" "vec sample_vheap 2 [1]"
  by (auto simp: sample_vheap_def heap_ok_def vec_def vec_at_def cells_at_def heap_load_def)

theorem pushv_branches_witness:
  "\<exists>q h'. pushv 3 2 sample_vheap = Some (q, None, h') \<and> vec_at h' q [1, 3] \<and>
     (\<forall>r. r \<noteq> q \<longrightarrow> blocks h' r = (if r = 2 then None else blocks sample_vheap r))"
  using pushv_branches [OF sample_vheap_ok, of 3] by (simp add: next_answer_def sample_vheap_def)

text \<open>A vector is a queue for \<open>pushv\<close> and \<open>popv_front\<close>: objects pushed one after the other onto the
  empty vector are counted by \<open>countv\<close> and leave at the front in the order they came; then
  \<open>popv_front\<close> returns \<open>NULL\<close>.\<close>

theorem cvector_queue_order:
  "\<lbrakk>heap_ok h; no_oom h; NULL \<notin> set es; es \<noteq> []\<rbrakk> \<Longrightarrow>
   \<exists>q h1 h2 h3. push_each pushv es NULL h = Some (q, h1) \<and> countv q h1 = Some (length es) \<and>
     take_each popv_front (length es) q h1 = Some (es, h2) \<and> popv_front q h2 = Some (NULL, h3)"
  by (rule cv.push_then_pop)

theorem cvector_queue_order_witness:
  "\<exists>q h1 h2 h3. push_each pushv [1, 3, 4] NULL sample_vheap = Some (q, h1) \<and>
     countv q h1 = Some 3 \<and> take_each popv_front 3 q h1 = Some ([1, 3, 4], h2) \<and>
     popv_front q h2 = Some (NULL, h3)"
  using cvector_queue_order [OF sample_vheap_ok(1), of "[1, 3, 4]"]
  by (simp add: no_oom_def sample_vheap_def numeral_3_eq_3)

text \<open>A vector is a stack for \<open>pushv\<close> and \<open>popv\<close>: the objects leave in reverse order, then \<open>popv\<close>
  returns \<open>NULL\<close>.\<close>

theorem cvector_stack_order:
  "\<lbrakk>heap_ok h; no_oom h; NULL \<notin> set es; es \<noteq> []\<rbrakk> \<Longrightarrow>
   \<exists>q h1 h2 h3. push_each pushv es NULL h = Some (q, h1) \<and> countv q h1 = Some (length es) \<and>
     take_each popv (length es) q h1 = Some (rev es, h2) \<and> popv q h2 = Some (NULL, h3)"
  by (rule cv.push_then_pop_back)

theorem cvector_stack_order_witness:
  "\<exists>q h1 h2 h3. push_each pushv [1, 3, 4] NULL sample_vheap = Some (q, h1) \<and>
     countv q h1 = Some 3 \<and> take_each popv 3 q h1 = Some ([4, 3, 1], h2) \<and>
     popv q h2 = Some (NULL, h3)"
  using cvector_stack_order [OF sample_vheap_ok(1), of "[1, 3, 4]"]
  by (simp add: no_oom_def sample_vheap_def numeral_3_eq_3)

text \<open>\<open>freev\<close> frees the block of the vector and each of its elements exactly once, and nothing
  else, when the elements are different live objects.\<close>

theorem freev_frees_exactly:
  assumes "heap_ok h" and "vec h p xs" and "distinct xs" and "p \<notin> set xs"
    and "set xs \<subseteq> dom (blocks h)"
  shows "\<exists>h'. freev p h = Some h' \<and>
    blocks h' = (\<lambda>r. if r = p \<or> r \<in> set xs then None else blocks h r)"
  using freev_vec [of h p xs] assms by (auto simp: drop_blocks_def)

theorem freev_frees_exactly_witness:
  "\<exists>h'. freev 2 sample_vheap = Some h' \<and>
     blocks h' = (\<lambda>r. if r = 2 \<or> r = 1 then None else blocks sample_vheap r)"
  using freev_frees_exactly [OF sample_vheap_ok]
  by (simp add: sample_vheap_def)

end
