(* ===== verification/Vector_Example.thy ===== *)
theory Vector_Example
  imports Cvector
begin

text \<open>
  \<open>examples/vector/vector.c\<close>: \<open>main\<close> allocates 256 objects, pushes them onto a vector and pops
  them again, alternately from the front and from the back, printing and freeing each. The
  messages on \<open>stderr\<close> of the failure exits are not modelled.
\<close>

text \<open>
  The allocation loop from index \<open>i\<close>: the vector, or \<^term>\<open>None\<close> where the program has exited with
  a failure status after a failed \<open>calloc\<close> or \<open>pushv\<close>.
\<close>

function fill_loop :: "nat \<Rightarrow> ptr \<Rightarrow> vheap \<Rightarrow> (ptr option \<times> vheap) option" where
  "fill_loop i v h =
     (if \<not> i < 0x100 then Some (Some v, h)
      else case heap_alloc (Obj 0) h of (s, h) \<Rightarrow>
        if s = NULL then do { h \<leftarrow> freev v h; Some (None, h) }
        else do {
          h \<leftarrow> heap_store s (Obj (int i + 1)) h;
          (tmp, _, h) \<leftarrow> pushv s v h;
          if tmp = NULL
          then do { h \<leftarrow> heap_free s h; h \<leftarrow> freev v h; Some (None, h) }
          else fill_loop (Suc i) tmp h })"
  by pat_completeness auto
termination by (relation "measure (\<lambda>(i, v, h). 0x100 - i)") auto

declare fill_loop.simps [simp del]

definition obj_val :: "ptr \<Rightarrow> vheap \<Rightarrow> int option" where
  "obj_val s h = (case heap_load s h of Some (Obj v) \<Rightarrow> Some v | _ \<Rightarrow> None)"

text \<open>
  The loop that empties the vector, with the text printed so far. \<open>continue\<close> on a null pointer
  goes to the test \<open>s != NULL\<close>, which ends the loop. \<^term>\<open>None\<close> stands for undefined behaviour and
  for not returning.
\<close>

partial_function (option) drain_loop ::
  "bool \<Rightarrow> ptr \<Rightarrow> string \<Rightarrow> vheap \<Rightarrow> (string \<times> vheap) option" where
  "drain_loop flipflop v out h =
     Option.bind (if flipflop then popv v h else popv_front v h) (\<lambda>(s, h).
       if s = NULL then Some (out, h)
       else Option.bind (obj_val s h) (\<lambda>x.
         Option.bind (heap_free s h) (\<lambda>h.
           drain_loop (\<not> flipflop) v (out @ dec_int x @ ''; '') h)))"

text \<open>The program: its output, its exit status and the heap it leaves.\<close>

definition vector_main :: "answer list \<Rightarrow> (string \<times> nat \<times> vheap) option" where
  "vector_main pl = do {
     (filled, h) \<leftarrow> fill_loop 0 NULL (heap_empty pl);
     case filled of
       None \<Rightarrow> Some ([], 1, h)
     | Some v \<Rightarrow> do {
         n \<leftarrow> countv v h;
         (out, h) \<leftarrow> drain_loop False v (''vectors has '' @ dec_nat n @ '' elements'' @ newline) h;
         h \<leftarrow> freev v h;
         Some (out, 0, h) } }"

subsection \<open>The state of the program\<close>

text \<open>The live blocks are the vector and its elements, which hold the values \<open>vals\<close>.\<close>

definition holds :: "vheap \<Rightarrow> ptr \<Rightarrow> ptr list \<Rightarrow> int list \<Rightarrow> bool" where
  "holds h v ps vals \<longleftrightarrow> heap_ok h \<and> vec h v ps \<and> distinct ps \<and> v \<notin> set ps \<and>
     dom (blocks h) = insert v (set ps) - {NULL} \<and>
     map (blocks h) ps = map (Some \<circ> Obj) vals"

lemma holds_freev:
  assumes "holds h v ps vals"
  shows "\<exists>h'. freev v h = Some h' \<and> blocks h' = Map.empty"
proof -
  have "set ps \<subseteq> dom (blocks h)"
    using assms by (auto simp: holds_def vec_def vec_at_def split: if_splits)
  then have "freev v h = Some (drop_blocks (insert v (set ps)) h)"
    using assms freev_vec [of h v ps] by (simp add: holds_def)
  moreover have "blocks h q = None" if "q \<notin> insert v (set ps)" for q
    using assms that by (auto simp: holds_def dom_def)
  then have "blocks (drop_blocks (insert v (set ps)) h) = Map.empty"
    by (auto simp: drop_blocks_def)
  ultimately show ?thesis by blast
qed

lemma holds_empty: "holds (heap_empty pl) NULL [] []"
  by (simp add: holds_def vec_def heap_empty_def heap_ok_def)

lemma map_eq_append_one:
  "map f (xs @ [x]) = map g (ys @ [y]) \<longleftrightarrow> map f xs = map g ys \<and> f x = g y"
  by simp

lemma holds_cong:
  assumes "holds h v ps vals" and b: "blocks h' = blocks h" and "brk h \<le> brk h'"
  shows "holds h' v ps vals"
proof -
  have "vec h' v ps" by (rule vec_frame [of h]) (use assms in \<open>auto simp: holds_def\<close>)
  moreover have "heap_ok h" using assms(1) by (simp add: holds_def)
  then have "heap_ok h'" using assms(3) unfolding heap_ok_def b by (meson less_le_trans)
  ultimately show ?thesis using assms(1) unfolding holds_def b by blast
qed

text \<open>The object allocated in one turn of the loop, before it is pushed.\<close>

lemma holds_alloc:
  assumes "holds h v ps vals" and "next_answer h \<noteq> Fail"
  assumes h1_def: "h1 = h\<lparr>blocks := (blocks h)(brk h \<mapsto> Obj x), brk := Suc (brk h), plan := tl (plan h)\<rparr>"
  shows "\<exists>h0. heap_alloc (Obj 0) h = (brk h, h0) \<and> heap_store (brk h) (Obj x) h0 = Some h1"
    and "brk h \<noteq> NULL"
    and "heap_ok h1" and "vec h1 v ps" and "brk h \<notin> insert v (set ps)"
proof -
  have ok: "heap_ok h" using assms(1) by (simp add: holds_def)
  show nz: "brk h \<noteq> NULL" using heap_ok_brk_pos [OF ok] by simp
  show "\<exists>h0. heap_alloc (Obj 0) h = (brk h, h0) \<and> heap_store (brk h) (Obj x) h0 = Some h1"
    using assms(2) nz by (simp add: heap_alloc_def heap_store_def h1_def)
  show "heap_ok h1" using ok by (auto simp: heap_ok_def h1_def less_Suc_eq)
  have "insert v (set ps) \<subseteq> insert NULL (dom (blocks h))"
    using assms(1) by (auto simp: holds_def)
  then show new: "brk h \<notin> insert v (set ps)" using nz heap_ok_brk [OF ok] by auto
  have "vec h v ps" using assms(1) by (simp add: holds_def)
  then show "vec h1 v ps" by (rule vec_frame) (use new in \<open>simp add: h1_def\<close>)
qed

text \<open>The blocks in use after a push that moved the array from \<open>v\<close> to \<open>q\<close>.\<close>

lemma dom_after_push:
  assumes h: "holds h v ps vals" and n: "n \<noteq> NULL" "n \<noteq> v" and q: "q \<noteq> NULL" "blocks h2 q \<noteq> None"
    and rest: "\<forall>r. r \<noteq> q \<longrightarrow> blocks h2 r = (if r = v then None else ((blocks h)(n \<mapsto> b)) r)"
  shows "dom (blocks h2) = insert q (set (ps @ [n])) - {NULL}"
proof (rule set_eqI)
  fix r
  show "r \<in> dom (blocks h2) \<longleftrightarrow> r \<in> insert q (set (ps @ [n])) - {NULL}"
  proof (cases "r = q")
    case True
    then show ?thesis using q by auto
  next
    case False
    moreover have "r \<in> dom (blocks h) \<longleftrightarrow> r \<in> insert v (set ps) - {NULL}" "v \<notin> set ps"
      using h by (simp_all add: holds_def)
    ultimately show ?thesis using rest n by (cases "r = v"; cases "r = n") (simp_all add: domIff)
  qed
qed

lemma holds_push:
  assumes h: "holds h v ps vals" and "next_answer h \<noteq> Fail"
  assumes h1_def: "h1 = h\<lparr>blocks := (blocks h)(brk h \<mapsto> Obj x), brk := Suc (brk h), plan := tl (plan h)\<rparr>"
  assumes ans: "next_answer h1 \<noteq> Fail"
  shows "\<exists>q h2. pushv (brk h) v h1 = Some (q, None, h2) \<and> q \<noteq> NULL \<and>
    holds h2 q (ps @ [brk h]) (vals @ [x]) \<and> plan h2 = tl (tl (plan h))"
proof -
  note a = holds_alloc [OF h assms(2) h1_def]
  obtain q h2 where p: "pushv (brk h) v h1 = Some (q, None, h2)" "vec_at h2 q (ps @ [brk h])"
    "heap_ok h2" "plan h2 = tl (plan h1)" "q = v \<or> blocks h1 q = None"
    "\<forall>r. r \<noteq> q \<longrightarrow> blocks h2 r = (if r = v then None else blocks h1 r)"
    using pushv_vec [OF a(3,4) a(2) ans] by blast
  have q: "q \<noteq> NULL" using p(2) by (simp add: vec_at_def)
  have ps: "set ps \<subseteq> dom (blocks h)"
    using h by (auto simp: holds_def vec_def vec_at_def split: if_splits)
  have new: "q \<notin> set (ps @ [brk h])"
  proof (cases "q = v")
    case True
    then show ?thesis using h a(5) by (auto simp: holds_def)
  next
    case False
    then have "blocks h1 q = None" using p(5) by simp
    then show ?thesis using ps by (auto simp: h1_def split: if_splits)
  qed
  have "blocks h2 r = blocks h r" if "r \<in> set ps" for r
    using that p(6) new h a(5) by (auto simp: holds_def h1_def)
  then have "map (blocks h2) ps = map (blocks h) ps" by (rule map_cong [OF refl])
  also have "\<dots> = map (Some \<circ> Obj) vals" using h by (simp add: holds_def)
  finally have "map (blocks h2) ps = map (Some \<circ> Obj) vals" .
  moreover have "blocks h2 (brk h) = Some (Obj x)"
    using p(6) new a(5) by (auto simp: h1_def)
  moreover have "dom (blocks h2) = insert q (set (ps @ [brk h])) - {NULL}"
    using p(6) vec_at_live [OF p(2)] a(2,5) q by (intro dom_after_push [OF h, where b = "Obj x"]) (auto simp: h1_def)
  ultimately have "holds h2 q (ps @ [brk h]) (vals @ [x])"
    using p(2,3) q new h a(5) by (auto simp: holds_def vec_def)
  then show ?thesis using p(1,4) q by (auto simp: h1_def)
qed

lemma fill_step:
  assumes h: "holds h v ps vals" and i: "i < 0x100"
  shows "if Fail \<in> set (take 2 (plan h))
    then \<exists>h'. fill_loop i v h = Some (None, h') \<and> blocks h' = Map.empty
    else \<exists>q h' s. fill_loop i v h = fill_loop (Suc i) q h' \<and>
      holds h' q (ps @ [s]) (vals @ [int i + 1]) \<and> plan h' = tl (tl (plan h))"
proof (cases "next_answer h = Fail")
  case True
  let ?h = "h\<lparr>plan := tl (plan h)\<rparr>"
  have "holds ?h v ps vals" by (rule holds_cong [OF h]) simp_all
  then obtain h' where "freev v ?h = Some h'" "blocks h' = Map.empty"
    using holds_freev by blast
  moreover have "Fail \<in> set (take 2 (plan h))"
    using True by (auto simp: next_answer_def split: list.splits)
  ultimately show ?thesis using True i by (simp add: fill_loop.simps [of i] heap_alloc_def)
next
  case False
  define h1 where "h1 = h\<lparr>blocks := (blocks h)(brk h \<mapsto> Obj (int i + 1)), brk := Suc (brk h),
    plan := tl (plan h)\<rparr>"
  note a = holds_alloc [OF h False h1_def]
  obtain h0 where al: "heap_alloc (Obj 0) h = (brk h, h0)"
    and st: "heap_store (brk h) (Obj (int i + 1)) h0 = Some h1"
    using a(1) by blast
  have fails: "Fail \<in> set (take 2 (plan h)) \<longleftrightarrow> next_answer h1 = Fail"
    using False by (auto simp: next_answer_def h1_def numeral_2_eq_2 split: list.splits)
  show ?thesis
  proof (cases "next_answer h1 = Fail")
    case True
    let ?h1 = "h1\<lparr>plan := tl (plan h1)\<rparr>"
    let ?h2 = "?h1\<lparr>blocks := (blocks ?h1)(brk h := None)\<rparr>"
    have "pushv (brk h) v h1 = Some (NULL, Some ENOMEM, ?h1)"
      using a(2,3,4) True by (intro pushv_oom) auto
    moreover have "heap_free (brk h) ?h1 = Some ?h2"
      using a(2) by (simp add: heap_free_def h1_def)
    moreover have "blocks ?h2 = blocks h"
      using h heap_ok_brk [of h] by (auto simp: h1_def holds_def fun_eq_iff)
    then have "holds ?h2 v ps vals" by (rule holds_cong [OF h]) (simp add: h1_def)
    then obtain h' where "freev v ?h2 = Some h'" "blocks h' = Map.empty"
      using holds_freev by blast
    ultimately show ?thesis
      using i a(2) st al fails True by (simp add: fill_loop.simps [of i])
  next
    case False': False
    obtain q h2 where "pushv (brk h) v h1 = Some (q, None, h2)" "q \<noteq> NULL"
      "holds h2 q (ps @ [brk h]) (vals @ [int i + 1])" "plan h2 = tl (tl (plan h))"
      using holds_push [OF h False h1_def] False' by blast
    moreover have "fill_loop i v h = fill_loop (Suc i) q h2"
      using i a(2) st al calculation by (simp add: fill_loop.simps [of i])
    ultimately show ?thesis using fails False' by auto
  qed
qed

text \<open>The whole loop: it fails when one of its two allocations per turn does.\<close>

lemma take_answers: "set (take (2 * Suc k) xs) = set (take 2 xs) \<union> set (take (2 * k) (tl (tl xs)))"
  by (cases xs; cases "tl xs") auto

lemma fill_loop_result:
  assumes "i \<le> 0x100" and "holds h v ps vals"
  shows "if Fail \<in> set (take (2 * (0x100 - i)) (plan h))
    then \<exists>h'. fill_loop i v h = Some (None, h') \<and> blocks h' = Map.empty
    else \<exists>q qs h'. fill_loop i v h = Some (Some q, h') \<and>
      holds h' q qs (vals @ map (\<lambda>j. int j + 1) [i..<0x100])"
  using assms
proof (induction "0x100 - i" arbitrary: i v h ps vals)
  case 0
  then have "fill_loop i v h = Some (Some v, h)" by (subst fill_loop.simps) simp
  then show ?case using 0 by auto
next
  case (Suc k)
  have i: "i < 0x100" and k: "0x100 - i = Suc k" "k = 0x100 - Suc i" using Suc.hyps(2) by auto
  show ?case
  proof (cases "Fail \<in> set (take 2 (plan h))")
    case True
    then show ?thesis using fill_step [OF Suc.prems(2) i] by (simp add: k take_answers del: mult_Suc_right)
  next
    case False
    then obtain q h' s where f: "fill_loop i v h = fill_loop (Suc i) q h'"
      "holds h' q (ps @ [s]) (vals @ [int i + 1])" "plan h' = tl (tl (plan h))"
      using fill_step [OF Suc.prems(2) i] by auto
    then show ?thesis
      using Suc.hyps(1) [OF k(2), of h' q "ps @ [s]" "vals @ [int i + 1]"] i False
      by (auto simp: k take_answers upt_conv_Cons simp del: mult_Suc_right split: if_splits)
  qed
qed

lemma pop_split:
  assumes "distinct ps" and "ps \<noteq> []" and "s = (if at_end then last ps else hd ps)"
    and "ps' = (if at_end then butlast ps else tl ps)"
  shows "s \<in> set ps \<and> s \<notin> set ps' \<and> set ps = insert s (set ps') \<and> distinct ps'"
proof (cases at_end)
  case True
  then have "ps = ps' @ [s]" using assms(2-4) by simp
  then show ?thesis using assms(1) by auto
next
  case False
  then have "ps = s # ps'" using assms(2-4) by simp
  then show ?thesis using assms(1) by auto
qed

lemma pop_vals:
  assumes "map f ps = map g vals" and "ps \<noteq> []"
  shows "f (if at_end then last ps else hd ps) = g (if at_end then last vals else hd vals)"
    and "map f (if at_end then butlast ps else tl ps) = map g (if at_end then butlast vals else tl vals)"
proof -
  have "vals \<noteq> []" using assms by auto
  then show "f (if at_end then last ps else hd ps) = g (if at_end then last vals else hd vals)"
    using arg_cong [OF assms(1), of last] arg_cong [OF assms(1), of hd] assms(2) by (simp add: last_map hd_map)
  show "map f (if at_end then butlast ps else tl ps) = map g (if at_end then butlast vals else tl vals)"
    using arg_cong [OF assms(1), of butlast] arg_cong [OF assms(1), of tl] by (simp add: map_butlast map_tl)
qed

lemma pop_step:
  assumes h: "holds h v ps vals" and v: "v \<noteq> NULL" and ps: "ps \<noteq> []"
    and p: "(if at_end then popv v h else popv_front v h) = Some (s, h1)"
    and r: "s = (if at_end then last ps else hd ps)" "vec_at h1 v ps'" "heap_ok h1" "same_except {v} h h1"
      "ps' = (if at_end then butlast ps else tl ps)"
  shows "\<exists>h2. s \<noteq> NULL \<and> obj_val s h1 = Some (if at_end then last vals else hd vals) \<and>
    heap_free s h1 = Some h2 \<and> holds h2 v ps' (if at_end then butlast vals else tl vals)"
proof -
  have eq: "map (blocks h) ps = map (Some \<circ> Obj) vals" using h by (simp add: holds_def)
  have "distinct ps" using h by (simp add: holds_def)
  from pop_split [OF this ps r(1,5)]
  have mem: "s \<in> set ps" "s \<notin> set ps'" "set ps = insert s (set ps')" "distinct ps'" by simp_all
  note popped = pop_vals [OF eq ps, of at_end, folded r(1) r(5)]
  have b1: "blocks h1 q = blocks h q" if "q \<noteq> v" for q
    using r(4) that by (simp add: same_except_def)
  have "s \<noteq> v" using mem h by (auto simp: holds_def)
  have "blocks h1 s = Some (Obj (if at_end then last vals else hd vals))"
    using b1 popped(1) \<open>s \<noteq> v\<close> by simp
  moreover from heap_live_pos [OF r(3) this] have "s \<noteq> NULL" by simp
  moreover define h2 where "h2 = h1\<lparr>blocks := (blocks h1)(s := None)\<rparr>"
  moreover have "heap_ok h2" using r(3) by (auto simp: heap_ok_def h2_def)
  moreover have "vec h2 v ps'"
    using vec_at_frame [OF r(2), of h2] \<open>s \<noteq> v\<close> v by (simp add: vec_def h2_def)
  moreover have "dom (blocks h2) = insert v (set ps') - {NULL}"
  proof (rule set_eqI)
    fix q
    have "q \<in> dom (blocks h) \<longleftrightarrow> q \<in> insert v (insert s (set ps')) - {NULL}"
      using h mem by (simp add: holds_def)
    then show "q \<in> dom (blocks h2) \<longleftrightarrow> q \<in> insert v (set ps') - {NULL}"
      using vec_at_live [OF r(2)] v b1 [of q] \<open>s \<noteq> v\<close> mem
      by (cases "q = v"; cases "q = s") (auto simp: h2_def domIff)
  qed
  moreover have "blocks h2 q = blocks h q" if "q \<in> set ps'" for q
  proof -
    have "q \<noteq> v" using h mem that by (auto simp: holds_def)
    moreover have "q \<noteq> s" using mem that by auto
    ultimately show ?thesis using b1 [of q] by (simp add: h2_def)
  qed
  then have "map (blocks h2) ps' = map (blocks h) ps'" by (rule map_cong [OF refl])
  moreover have "map (blocks h) ps' = map (Some \<circ> Obj) (if at_end then butlast vals else tl vals)"
    using popped(2) by simp
  moreover have "v \<notin> set ps'" using mem h by (simp add: holds_def)
  ultimately have "holds h2 v ps' (if at_end then butlast vals else tl vals)"
    and "heap_free s h1 = Some h2"
    and "obj_val s h1 = Some (if at_end then last vals else hd vals)"
    using mem by (simp_all add: obj_val_def heap_load_def heap_free_def holds_def)
  then show ?thesis using \<open>s \<noteq> NULL\<close> by blast
qed

text \<open>Front, back, front, \<dots>: the order in which the elements leave the vector.\<close>

function alternate :: "'a list \<Rightarrow> 'a list" where
  "alternate [] = []"
| "alternate (x # xs) = x # alternate (rev xs)"
  by pat_completeness auto
termination by (relation "measure length") auto

lemma alternate_hd: "xs \<noteq> [] \<Longrightarrow> alternate xs = hd xs # alternate (rev (tl xs))"
  by (cases xs) auto

lemma alternate_last: "xs \<noteq> [] \<Longrightarrow> alternate (rev xs) = last xs # alternate (butlast xs)"
  by (cases xs rule: rev_cases) auto

lemma drain_loop_result:
  assumes "holds h v ps vals" and "v \<noteq> NULL"
  shows "\<exists>h'. drain_loop flip v out h =
      Some (out @ concat (map (\<lambda>x. dec_int x @ ''; '')
        (alternate (if flip then rev vals else vals))), h') \<and> holds h' v [] []"
  using assms
proof (induction "length ps" arbitrary: flip out h ps vals)
  case 0
  then have ps: "ps = []" "vals = []" by (auto simp: holds_def)
  have "heap_ok h" "vec_at h v []" using 0 ps by (auto simp: holds_def vec_def)
  then obtain h' where "(if flip then popv v h else popv_front v h) = Some (NULL, h')"
    "vec_at h' v []" "heap_ok h'" "same_except {v} h h'"
    using popv_vec [of h v "[]"] popv_front_vec [of h v "[]"] by (cases flip) auto
  moreover have "dom (blocks h') = {v}"
  proof (rule set_eqI)
    fix q show "q \<in> dom (blocks h') \<longleftrightarrow> q \<in> {v}"
      using calculation vec_at_live [of h' v "[]"] 0 ps by (cases "q = v") (auto simp: same_except_def holds_def domIff set_eq_iff)
  qed
  ultimately show ?case using 0 ps by (subst drain_loop.simps) (auto simp: holds_def vec_def)
next
  case (Suc n)
  then have ps: "ps \<noteq> []" and v: "heap_ok h" "vec_at h v ps"
    by (auto simp: holds_def vec_def)
  obtain h1 where p: "(if flip then popv v h else popv_front v h) =
      Some (if flip then last ps else hd ps, h1)"
    "vec_at h1 v (if flip then butlast ps else tl ps)" "heap_ok h1" "same_except {v} h h1"
    using popv_vec [OF v] popv_front_vec [OF v] ps by (cases flip) auto
  obtain h2 where s: "(if flip then last ps else hd ps) \<noteq> NULL"
    "obj_val (if flip then last ps else hd ps) h1 = Some (if flip then last vals else hd vals)"
    "heap_free (if flip then last ps else hd ps) h1 = Some h2"
    "holds h2 v (if flip then butlast ps else tl ps) (if flip then butlast vals else tl vals)"
    using pop_step [OF Suc.prems ps p(1) refl p(2-4) refl] by blast
  have "n = length (if flip then butlast ps else tl ps)" using Suc.hyps(2) by simp
  note IH = Suc.hyps(1) [OF this s(4) Suc.prems(2), of "\<not> flip"
      "out @ dec_int (if flip then last vals else hd vals) @ ''; ''"]
  have "vals \<noteq> []" using Suc.prems ps by (auto simp: holds_def)
  then have alt: "alternate (if flip then rev vals else vals) =
      (if flip then last vals else hd vals) #
      alternate (if \<not> flip then rev (if flip then butlast vals else tl vals)
        else (if flip then butlast vals else tl vals))"
    by (cases flip) (simp_all add: alternate_last, simp add: alternate_hd)
  show ?case
    unfolding alt using IH p(1) s(1-3)
    by (subst drain_loop.simps) (cases flip; clarsimp)
qed

lemma length_alternate [simp]: "length (alternate xs) = length xs"
  by (induction xs rule: alternate.induct) auto

lemma alternate_nth:
  "k < length xs \<Longrightarrow>
   alternate xs ! k = (if even k then xs ! (k div 2) else xs ! (length xs - Suc (k div 2)))"
proof (induction xs arbitrary: k rule: alternate.induct)
  case (2 x ys)
  show ?case
  proof (cases k)
    case (Suc j)
    then have j: "j < length (rev ys)" "j div 2 < length ys" using 2(2) by auto
    have "alternate (x # ys) ! k = alternate (rev ys) ! j" using Suc by simp
    also have "\<dots> = (if even j then rev ys ! (j div 2) else rev ys ! (length ys - Suc (j div 2)))"
      using 2(1) [OF j(1)] by simp
    also have "\<dots> = (if even k then (x # ys) ! (k div 2)
        else (x # ys) ! (length (x # ys) - Suc (k div 2)))"
      using j Suc by (auto simp: rev_nth nth_Cons' elim!: oddE evenE)
    finally show ?thesis .
  qed simp
qed simp

lemma alternate_upto:
  "alternate (map (\<lambda>j. int j + 1) [0..<n]) =
   map (\<lambda>k. int (if even k then k div 2 + 1 else n - k div 2)) [0..<n]"
  by (rule nth_equalityI) (auto simp: alternate_nth elim!: oddE)

text \<open>C15: the program of \<open>examples/vector\<close>, under every behaviour of the allocator, is memory safe,
  ends, and frees every block it allocated. It fails exactly when one of its 512 allocations does;
  otherwise it prints the count and the values 1, 256, 2, 255, \<dots>, 128, 129.\<close>

theorem vector_main_correct:
  "\<exists>h. blocks h = Map.empty \<and>
     vector_main pl = Some
       (if Fail \<in> set (take 512 pl) then ([], 1, h)
        else (''vectors has 256 elements'' @ newline @
              concat (map (\<lambda>k. dec_nat (if even k then k div 2 + 1 else 256 - k div 2) @ ''; '')
                [0..<256]), 0, h))"
proof -
  have plan: "plan (heap_empty pl) = pl" by (simp add: heap_empty_def)
  show ?thesis
  proof (cases "Fail \<in> set (take 512 pl)")
    case True
    then show ?thesis
      using fill_loop_result [OF _ holds_empty [of pl], of 0] by (auto simp: plan vector_main_def)
  next
    case False
    then obtain q qs h where f: "fill_loop 0 NULL (heap_empty pl) = Some (Some q, h)"
      "holds h q qs (map (\<lambda>j. int j + 1) [0..<256])"
      using fill_loop_result [OF _ holds_empty [of pl], of 0] by (auto simp: plan)
    then have "map (blocks h) qs = map (Some \<circ> Obj) (map (\<lambda>j. int j + 1) [0..<256])"
      by (simp only: holds_def)
    from arg_cong [OF this, of length] have len: "length qs = 256" by simp
    then have q: "q \<noteq> NULL" using f(2) by (auto simp: holds_def vec_def)
    then have "countv q h = Some 256"
      using f(2) len countv_vec [of h q qs] by (simp add: holds_def vec_def)
    moreover have "\<exists>h'. drain_loop False q (''vectors has '' @ dec_nat 256 @ '' elements'' @ newline) h =
        Some ((''vectors has '' @ dec_nat 256 @ '' elements'' @ newline) @
          concat (map (\<lambda>x. dec_int x @ ''; '') (alternate (map (\<lambda>j. int j + 1) [0..<256]))), h') \<and>
      holds h' q [] []"
      using drain_loop_result [OF f(2) q, of False
          "''vectors has '' @ dec_nat 256 @ '' elements'' @ newline"]
      by (simp only: if_False)
    then obtain h' where d: "drain_loop False q (''vectors has '' @ dec_nat 256 @ '' elements'' @ newline) h =
        Some ((''vectors has '' @ dec_nat 256 @ '' elements'' @ newline) @
          concat (map (\<lambda>x. dec_int x @ ''; '') (alternate (map (\<lambda>j. int j + 1) [0..<256]))), h')"
      "holds h' q [] []" by (elim exE conjE)
    moreover obtain h'' where "freev q h' = Some h''" "blocks h'' = Map.empty"
      using holds_freev [OF d(2)] by (elim exE conjE)
    moreover have "dec_nat 256 = ''256''"
      by code_simp
    ultimately show ?thesis using f(1) False d(1)
      by (auto simp: vector_main_def alternate_upto dec_int_def comp_def simp del: upt_rec_numeral)
  qed
qed

end
