(* ===== verification/Vector_Calls.thy ===== *)
theory Vector_Calls
  imports Cvector Refinement
begin

text \<open>
  \<open>lib/cvector.c\<close> under any sequence of calls and any answers of the allocator: a client that starts with a vector or
  with \<open>NULL\<close>, and keeps its vector when \<open>pushv\<close> fails. Only \<open>pushv\<close> may be called on \<open>NULL\<close>.
\<close>

datatype vcall = Push ptr | Pop | Pop_front | Count

datatype vreply = Pushed "errno option" | Took ptr | Counted nat

text \<open>One call, on the vector's pointer and the memory.\<close>

fun exec_vector ::
  "(ptr \<Rightarrow> ptr \<Rightarrow> 'h \<Rightarrow> (ptr \<times> errno option \<times> 'h) option) \<Rightarrow> (ptr \<Rightarrow> 'h \<Rightarrow> (ptr \<times> 'h) option) \<Rightarrow>
    (ptr \<Rightarrow> 'h \<Rightarrow> (ptr \<times> 'h) option) \<Rightarrow> (ptr \<Rightarrow> 'h \<Rightarrow> nat option) \<Rightarrow>
    vcall \<Rightarrow> ptr \<times> 'h \<Rightarrow> (vreply \<times> ptr \<times> 'h) option" where
  "exec_vector push pop pop_front count (Push e) (p, h) = do {
     (q, er, h) \<leftarrow> push e p h;
     Some (Pushed er, if q = NULL then p else q, h) }"
| "exec_vector push pop pop_front count Pop (p, h) = do { (e, h) \<leftarrow> pop p h; Some (Took e, p, h) }"
| "exec_vector push pop pop_front count Pop_front (p, h) = do { (e, h) \<leftarrow> pop_front p h; Some (Took e, p, h) }"
| "exec_vector push pop pop_front count Count (p, h) = do { n \<leftarrow> count p h; Some (Counted n, p, h) }"

text \<open>
  The same call on the answers the allocator has still to give and a sequence, \<^term>\<open>None\<close> while there is no vector
  yet. Only a push of an object asks the allocator. The other calls are a misuse as long as there is no vector.
\<close>

fun spec_vector :: "vcall \<Rightarrow> answer list \<times> ptr list option \<Rightarrow> (vreply \<times> answer list \<times> ptr list option) option" where
  "spec_vector (Push e) (as, v) = Some
     (if e = NULL then (Pushed (Some EINVAL), as, v)
      else case as of
        Fail # as \<Rightarrow> (Pushed (Some ENOMEM), as, v)
      | _ \<Rightarrow> (Pushed None, tl as, Some (case v of None \<Rightarrow> [e] | Some xs \<Rightarrow> xs @ [e])))"
| "spec_vector Pop (as, Some xs) = Some (Took (if xs = [] then NULL else last xs), as, Some (butlast xs))"
| "spec_vector Pop_front (as, Some xs) = Some (Took (if xs = [] then NULL else hd xs), as, Some (tl xs))"
| "spec_vector Count (as, Some xs) = Some (Counted (length xs), as, Some xs)"
| "spec_vector _ (as, None) = None"

subsection \<open>A vector module whose memory is accounted for\<close>

text \<open>
  The contract of \<open>ptr_vector\<close> with failures: \<open>answers\<close> are those the allocator has still to give, and
  \<open>only p q h h'\<close> says that the vector moved from \<open>p\<close> to \<open>q\<close> and no other block changed.
\<close>

locale tracked_vector = ptr_vector good is_vec may_push push pop pop_front count
  for good :: "'h \<Rightarrow> bool" and is_vec may_push push pop pop_front count +
  fixes answers :: "'h \<Rightarrow> answer list" and only :: "ptr \<Rightarrow> ptr \<Rightarrow> 'h \<Rightarrow> 'h \<Rightarrow> bool"
  assumes push_null: "push NULL p h = Some (NULL, Some EINVAL, h)"
    and push_fail: "\<lbrakk>good h; is_vec h p xs; e \<noteq> NULL; answers h = Fail # as\<rbrakk> \<Longrightarrow>
      \<exists>h'. push e p h = Some (NULL, Some ENOMEM, h') \<and> is_vec h' p xs \<and> good h' \<and>
        answers h' = as \<and> only p p h h'"
    and push_done: "\<lbrakk>good h; is_vec h p xs; e \<noteq> NULL; answers h = [] \<or> hd (answers h) \<noteq> Fail\<rbrakk> \<Longrightarrow>
      \<exists>q h'. push e p h = Some (q, None, h') \<and> q \<noteq> NULL \<and> is_vec h' q (xs @ [e]) \<and> good h' \<and>
        answers h' = tl (answers h) \<and> only p q h h'"
    and pop_keeps: "\<lbrakk>good h; is_vec h p xs; p \<noteq> NULL; pop p h = Some (e, h')\<rbrakk> \<Longrightarrow>
      answers h' = answers h \<and> only p p h h'"
    and pop_front_keeps: "\<lbrakk>good h; is_vec h p xs; p \<noteq> NULL; pop_front p h = Some (e, h')\<rbrakk> \<Longrightarrow>
      answers h' = answers h \<and> only p p h h'"
    and null_empty: "is_vec h NULL xs \<Longrightarrow> xs = []"
    and null_undefined: "pop NULL h = None" "pop_front NULL h = None" "count NULL h = None"
    and only_refl: "only p p h h"
    and only_trans: "\<lbrakk>only p q h h1; only q r h1 h2\<rbrakk> \<Longrightarrow> only p r h h2"

context tracked_vector begin

text \<open>The vector at \<open>p\<close>, or none yet.\<close>

definition stands_for :: "'h \<Rightarrow> ptr \<Rightarrow> ptr list option \<Rightarrow> bool" where
  "stands_for h p v \<longleftrightarrow> is_vec h p (case v of None \<Rightarrow> [] | Some xs \<Rightarrow> xs) \<and> (v = None \<longleftrightarrow> p = NULL)"

lemma push_all:
  assumes "good h" and "stands_for h p v" and "spec_vector (Push e) (answers h, v) = Some (r, as, w)"
  shows "\<exists>q h'. exec_vector push pop pop_front count (Push e) (p, h) = Some (r, q, h') \<and>
    stands_for h' q w \<and> good h' \<and> answers h' = as \<and> only p q h h'"
proof -
  have v: "is_vec h p (case v of None \<Rightarrow> [] | Some xs \<Rightarrow> xs)" using assms(2) by (simp add: stands_for_def)
  consider "e = NULL" | (fail) as' where "e \<noteq> NULL" "answers h = Fail # as'"
    | (made) "e \<noteq> NULL" "answers h = [] \<or> hd (answers h) \<noteq> Fail"
    by (cases "answers h") auto
  then show ?thesis
  proof cases
    case 1
    then show ?thesis using assms push_null only_refl by auto
  next
    case fail
    then show ?thesis using push_fail [OF assms(1) v fail] assms(2,3) by (auto simp: stands_for_def)
  next
    case made
    then have "r = Pushed None \<and> as = tl (answers h) \<and> w = Some ((case v of None \<Rightarrow> [] | Some xs \<Rightarrow> xs) @ [e])"
      using assms(3) by (auto split: list.splits answer.splits option.splits)
    then show ?thesis using push_done [OF assms(1) v made] by (fastforce simp: stands_for_def)
  qed
qed

lemma call_all:
  assumes "good h" and "stands_for h p v" and "spec_vector c (answers h, v) = Some (r, as, w)"
  shows "\<exists>q h'. exec_vector push pop pop_front count c (p, h) = Some (r, q, h') \<and>
    stands_for h' q w \<and> good h' \<and> answers h' = as \<and> only p q h h'"
proof (cases "\<exists>e. c = Push e")
  case True
  then show ?thesis using push_all assms by blast
next
  case False
  then obtain xs where xs: "v = Some xs" using assms(3) by (cases c; cases v) auto
  then have p: "is_vec h p xs" "p \<noteq> NULL" using assms(2) by (auto simp: stands_for_def)
  note laws = pop_law [OF assms(1) p] pop_front_law [OF assms(1) p] count_law [OF p]
    pop_keeps [OF assms(1) p] pop_front_keeps [OF assms(1) p] only_refl
  show ?thesis
    using False assms(1,3) laws p xs by (cases c) (fastforce simp: stands_for_def)+
qed

lemma call_misuse:
  assumes "stands_for h p v" and "spec_vector c (as, v) = None"
  shows "exec_vector push pop pop_front count c (p, h) = None"
  using assms null_undefined by (cases c; cases v) (auto simp: stands_for_def)

text \<open>What the vector at \<open>q\<close> in \<open>h\<close> has become of the one at \<open>p0\<close> in \<open>h0\<close>.\<close>

definition became :: "ptr \<Rightarrow> 'h \<Rightarrow> ptr \<times> 'h \<Rightarrow> answer list \<times> ptr list option \<Rightarrow> bool" where
  "became p0 h0 = (\<lambda>(q, h) (as, v). stands_for h q v \<and> good h \<and> answers h = as \<and> only p0 q h0 h)"

end

sublocale tracked_vector \<subseteq> calls: exact_simulation "exec_vector push pop pop_front count" spec_vector "became p0 h0" for p0 h0
proof
  fix s a c r a'
  assume s: "became p0 h0 s a" and c: "spec_vector c a = Some (r, a')"
  obtain p h as v as' w where e: "s = (p, h)" "a = (as, v)" "a' = (as', w)" by (metis surj_pair)
  have h: "stands_for h p v" "good h" "answers h = as" "only p0 p h0 h" using s by (simp_all add: e became_def)
  obtain q h' where q: "exec_vector push pop pop_front count c (p, h) = Some (r, q, h')"
    "stands_for h' q w" "good h'" "answers h' = as'" "only p q h h'"
    using call_all [OF h(2,1), of c r as' w] c h(3) by (auto simp: e)
  then have "became p0 h0 (q, h') a'" using only_trans [OF h(4) q(5)] by (simp add: e became_def)
  then show "\<exists>s'. exec_vector push pop pop_front count c s = Some (r, s') \<and> became p0 h0 s' a'"
    using q(1) by (auto simp: e)
next
  fix s a c assume "became p0 h0 s a" and "spec_vector c a = None"
  then show "exec_vector push pop pop_front count c s = None"
    using call_misuse by (cases s; cases a) (auto simp: became_def)
qed

definition only_vec :: "ptr \<Rightarrow> ptr \<Rightarrow> vheap \<Rightarrow> vheap \<Rightarrow> bool" where
  "only_vec p q h h' \<longleftrightarrow> (q = p \<or> blocks h q = None) \<and>
     (\<forall>r. r \<noteq> q \<longrightarrow> blocks h' r = (if r = p then None else blocks h r))"

lemma only_vec_same: "same_except {p} h h' \<Longrightarrow> only_vec p p h h'"
  by (simp add: only_vec_def same_except_def)

lemma only_vec_trans: "\<lbrakk>only_vec p q h h1; only_vec q r h1 h2\<rbrakk> \<Longrightarrow> only_vec p r h h2"
  unfolding only_vec_def by metis

interpretation tv: tracked_vector heap_ok vec no_oom pushv popv popv_front countv plan only_vec
proof
  fix h p xs e and as :: "answer list"
  assume ok: "heap_ok h" "vec h p xs"
  show "\<exists>h'. pushv e p h = Some (NULL, Some ENOMEM, h') \<and> vec h' p xs \<and> heap_ok h' \<and> plan h' = as \<and>
      only_vec p p h h'" if "e \<noteq> NULL" "plan h = Fail # as"
    using pushv_oom [OF ok that(1)] that(2) vec_frame [OF ok(2)] ok(1)
    by (auto simp: next_answer_def only_vec_def heap_ok_def)
  show "\<exists>q h'. pushv e p h = Some (q, None, h') \<and> q \<noteq> NULL \<and> vec h' q (xs @ [e]) \<and> heap_ok h' \<and>
      plan h' = tl (plan h) \<and> only_vec p q h h'" if "e \<noteq> NULL" "plan h = [] \<or> hd (plan h) \<noteq> Fail"
  proof -
    have "next_answer h \<noteq> Fail" using that(2) by (auto simp: next_answer_def split: list.splits)
    from pushv_vec [OF ok that(1) this] show ?thesis by (fastforce simp: vec_def vec_at_def only_vec_def)
  qed
next
  fix h p xs e h'
  assume ok: "heap_ok h" "vec h p xs" "p \<noteq> NULL"
  then have v: "vec_at h p xs" by (simp add: vec_def)
  show "plan h' = plan h \<and> only_vec p p h h'" if "popv p h = Some (e, h')"
    using popv_vec [OF ok(1) v] that by (auto intro: only_vec_same)
  show "plan h' = plan h \<and> only_vec p p h h'" if "popv_front p h = Some (e, h')"
    using popv_front_vec [OF ok(1) v] that by (auto intro: only_vec_same)
next
  show "pushv NULL p h = Some (NULL, Some EINVAL, h)" for p h by (simp add: pushv_def)
  show "xs = []" if "vec h NULL xs" for h xs using that by (simp add: vec_def)
  show "popv NULL h = None" "popv_front NULL h = None" "countv NULL h = None" for h
    by (simp_all add: popv_def popv_front_def countv_def count_loop.simps get_cell_def cells_at_def heap_load_def)
  show "only_vec p p h h" for p h by (simp add: only_vec_def)
  show "only_vec p r h h2" if "only_vec p q h h1" "only_vec q r h1 h2" for p q r h h1 h2
    using only_vec_trans [OF that] .
qed

text \<open>C16: Whatever the allocator answers, a sequence of \<open>pushv\<close>, \<open>popv\<close>, \<open>popv_front\<close> and \<open>countv\<close> by a client that
  starts with a vector or with \<open>NULL\<close> keeps the vector well-formed (a live block of non-null pointers with their
  terminator) and returns what the same operations on a sequence return, with \<open>EINVAL\<close> for a null object and \<open>ENOMEM\<close>
  exactly where the allocator failed. No block but the vector's own changes, and the vector never leaves one behind
  when it moves. The sequence is undefined exactly when it takes from or counts a vector that does not exist yet: then
  the functions dereference \<open>NULL\<close>.\<close>

theorem vector_calls_refine:
  assumes "heap_ok h" and "vec h p xs"
  shows "case run spec_vector cs (plan h, if p = NULL then None else Some xs) of
      None \<Rightarrow> run (exec_vector pushv popv popv_front countv) cs (p, h) = None
    | Some (rs, as, v) \<Rightarrow> \<exists>q h'. run (exec_vector pushv popv popv_front countv) cs (p, h) = Some (rs, q, h') \<and>
        (v = None \<longleftrightarrow> q = NULL) \<and> vec h' q (case v of None \<Rightarrow> [] | Some ys \<Rightarrow> ys) \<and> heap_ok h' \<and> plan h' = as \<and>
        (\<forall>r. r \<noteq> q \<longrightarrow> blocks h' r = (if r = p then None else blocks h r))"
proof -
  let ?v = "if p = NULL then None else Some xs"
  have start: "tv.became p h (p, h) (plan h, ?v)"
    using assms by (auto simp: tv.became_def tv.stands_for_def only_vec_def vec_def)
  show ?thesis
  proof (cases "run spec_vector cs (plan h, ?v)")
    case None
    then show ?thesis using tv.calls.run_misuse [OF start] by simp
  next
    case (Some r)
    then obtain rs as v where r: "run spec_vector cs (plan h, ?v) = Some (rs, as, v)" by (cases r) auto
    from tv.calls.run_refines [OF start r] obtain q h' where
      "run (exec_vector pushv popv popv_front countv) cs (p, h) = Some (rs, q, h')"
      "tv.became p h (q, h') (as, v)"
      by auto
    then show ?thesis using r by (simp add: tv.became_def tv.stands_for_def only_vec_def)
  qed
qed

theorem vector_calls_refine_witness:
  "(\<exists>q h'. run (exec_vector pushv popv popv_front countv)
       [Push 3, Push 0, Push 4, Count, Pop_front, Push 1, Pop, Pop, Pop] (2, sample_vheap\<lparr>plan := [InPlace, Fail]\<rparr>) =
     Some ([Pushed None, Pushed (Some EINVAL), Pushed (Some ENOMEM), Counted 2, Took 1, Pushed None, Took 1, Took 3,
       Took NULL], q, h') \<and> vec h' q []) \<and>
   run (exec_vector pushv popv popv_front countv) [Push 3, Pop] (NULL, sample_vheap\<lparr>plan := [Fail]\<rparr>) = None"
proof
  have "heap_ok (sample_vheap\<lparr>plan := [InPlace, Fail]\<rparr>)" "vec (sample_vheap\<lparr>plan := [InPlace, Fail]\<rparr>) 2 [1]"
    by (auto simp: sample_vheap_def heap_ok_def vec_def vec_at_def cells_at_def heap_load_def)
  from vector_calls_refine [OF this, of "[Push 3, Push 0, Push 4, Count, Pop_front, Push 1, Pop, Pop, Pop]"]
  show "\<exists>q h'. run (exec_vector pushv popv popv_front countv)
       [Push 3, Push 0, Push 4, Count, Pop_front, Push 1, Pop, Pop, Pop] (2, sample_vheap\<lparr>plan := [InPlace, Fail]\<rparr>) =
     Some ([Pushed None, Pushed (Some EINVAL), Pushed (Some ENOMEM), Counted 2, Took 1, Pushed None, Took 1, Took 3,
       Took NULL], q, h') \<and> vec h' q []"
    by auto
  have "heap_ok (sample_vheap\<lparr>plan := [Fail]\<rparr>)" "vec (sample_vheap\<lparr>plan := [Fail]\<rparr>) NULL []"
    by (auto simp: sample_vheap_def heap_ok_def vec_def)
  from vector_calls_refine [OF this, of "[Push 3, Pop]"]
  show "run (exec_vector pushv popv popv_front countv) [Push 3, Pop] (NULL, sample_vheap\<lparr>plan := [Fail]\<rparr>) = None"
    by simp
qed

end
