(* ===== verification/Dictionary.thy ===== *)
theory Dictionary
  imports C_Heap Cstring
begin

text \<open>
  \<open>lib/dictionary.c\<close>: a table of string keys and values searched linearly, with a 32-bit hash kept
  beside each key. Everything lies in the heap: the dictionary, its array of entries and the
  strings, a string block holding the characters before its terminator. The keys and values
  passed to the functions are pointers too, so that an argument may be a string the dictionary
  owns. \<^term>\<open>None\<close> is undefined behaviour; sizes and counts are 64-bit words. Of \<open>errno\<close> only the
  value \<open>dictionary_get\<close> sets is modelled.
\<close>

record dict_entry =
  e_hash :: u32
  e_key :: ptr
  e_val :: ptr

record dict =
  d_count :: size_t
  d_size :: size_t
  d_entries :: ptr

datatype dblock = Str string | Entries "dict_entry list" | Dict dict

type_synonym dheap = "dblock heap"

definition DICTIONARY_MIN_SIZE :: size_t where "DICTIONARY_MIN_SIZE = 128"

text \<open>The macro \<open>ALIGN\<close> of this file with the mask \<open>0x7fu\<close>: its complement is taken in 32 bits.\<close>

definition ALIGN_u :: "size_t \<Rightarrow> u32 \<Rightarrow> size_t" where
  "ALIGN_u x m = (x + ucast m) AND ucast (NOT m)"

definition zero_entry :: dict_entry where
  "zero_entry = \<lparr>e_hash = 0, e_key = NULL, e_val = NULL\<rparr>"

subsection \<open>Memory accesses\<close>

definition load_str :: "ptr \<Rightarrow> dheap \<Rightarrow> string option" where
  "load_str p h = (case heap_load p h of Some (Str s) \<Rightarrow> Some s | _ \<Rightarrow> None)"

definition load_dict :: "ptr \<Rightarrow> dheap \<Rightarrow> dict option" where
  "load_dict p h = (case heap_load p h of Some (Dict d) \<Rightarrow> Some d | _ \<Rightarrow> None)"

definition load_entries :: "ptr \<Rightarrow> dheap \<Rightarrow> dict_entry list option" where
  "load_entries p h = (case heap_load p h of Some (Entries es) \<Rightarrow> Some es | _ \<Rightarrow> None)"

definition load_entry :: "ptr \<Rightarrow> nat \<Rightarrow> dheap \<Rightarrow> dict_entry option" where
  "load_entry p i h = do {
     es \<leftarrow> load_entries p h; if i < length es then Some (es ! i) else None }"

definition store_entry :: "ptr \<Rightarrow> nat \<Rightarrow> dict_entry \<Rightarrow> dheap \<Rightarrow> dheap option" where
  "store_entry p i e h = do {
     es \<leftarrow> load_entries p h;
     if i < length es then heap_store p (Entries (es[i := e])) h else None }"

definition c_strdup :: "ptr \<Rightarrow> dheap \<Rightarrow> (ptr \<times> dheap) option" where
  "c_strdup p h = do { s \<leftarrow> load_str p h; Some (heap_alloc (Str s) h) }"

text \<open>\<open>calloc(n, sizeof(struct dictionary_entry_s))\<close> fails on a product that does not fit.\<close>

definition calloc_entries :: "size_t \<Rightarrow> dheap \<Rightarrow> ptr \<times> dheap" where
  "calloc_entries n h =
     (if 2 ^ 64 \<le> unat n * 24 then (NULL, h)
      else heap_alloc (Entries (replicate (unat n) zero_entry)) h)"

subsection \<open>The hash\<close>

definition hash_char :: "u32 \<Rightarrow> char \<Rightarrow> u32" where
  "hash_char hash c =
     (let hash = hash + scast (of_char c :: u8);
          hash = hash + push_bit 10 hash
      in hash XOR drop_bit 6 hash)"

definition hash_string :: "string \<Rightarrow> u32" where
  "hash_string key =
     (let hash = foldl hash_char 0 key;
          hash = hash + push_bit 3 hash;
          hash = hash XOR drop_bit 11 hash
      in hash + push_bit 15 hash)"

definition dictionary_hash :: "ptr \<Rightarrow> dheap \<Rightarrow> u32 option" where
  "dictionary_hash key h = (if key = NULL then Some 0 else map_option hash_string (load_str key h))"

subsection \<open>Searching\<close>

function find_key_loop :: "dict \<Rightarrow> ptr \<Rightarrow> u32 \<Rightarrow> nat \<Rightarrow> dheap \<Rightarrow> (errno + nat) option" where
  "find_key_loop d key hash i h =
     (if i < unat (d_size d) then do {
        e \<leftarrow> load_entry (d_entries d) i h;
        if e_key e = NULL then find_key_loop d key hash (Suc i) h
        else if hash \<noteq> e_hash e then find_key_loop d key hash (Suc i) h
        else do {
          a \<leftarrow> load_str key h;
          b \<leftarrow> load_str (e_key e) h;
          if a = b then Some (Inr i) else find_key_loop d key hash (Suc i) h } }
      else Some (Inl ENOENT))"
  by pat_completeness auto
termination by (relation "measure (\<lambda>(d, key, hash, i, h). unat (d_size d) - i)") auto

definition dictionary_find_idx_by_key :: "ptr \<Rightarrow> ptr \<Rightarrow> u32 \<Rightarrow> dheap \<Rightarrow> (errno + nat) option" where
  "dictionary_find_idx_by_key dp key hash h = do {
     d \<leftarrow> load_dict dp h; find_key_loop d key hash 0 h }"

function find_empty_loop :: "dict \<Rightarrow> nat \<Rightarrow> dheap \<Rightarrow> (errno + nat) option" where
  "find_empty_loop d i h =
     (if i < unat (d_size d) then do {
        e \<leftarrow> load_entry (d_entries d) i h;
        if e_key e = NULL then Some (Inr i) else find_empty_loop d (Suc i) h }
      else Some (Inl ENOENT))"
  by pat_completeness auto
termination by (relation "measure (\<lambda>(d, i, h). unat (d_size d) - i)") auto

definition dictionary_find_idx_by_empty :: "ptr \<Rightarrow> dheap \<Rightarrow> (errno + nat) option" where
  "dictionary_find_idx_by_empty dp h = do { d \<leftarrow> load_dict dp h; find_empty_loop d 0 h }"

declare find_key_loop.simps [simp del] find_empty_loop.simps [simp del]

subsection \<open>Creation, growth, destruction\<close>

definition dictionary_resize :: "ptr \<Rightarrow> dheap \<Rightarrow> (int \<times> dheap) option" where
  "dictionary_resize dp h = do {
     d \<leftarrow> load_dict dp h;
     if d_count d < d_size d then Some (0, h)
     else do {
       let (new, h) = calloc_entries (d_size d + DICTIONARY_MIN_SIZE) h;
       if new = NULL then Some (- 1, h)
       else do {
         old \<leftarrow> load_entries (d_entries d) h;
         fresh \<leftarrow> load_entries new h;
         let n = unat (d_size d);
         if n \<le> length old \<and> n \<le> length fresh
         then do {
           h \<leftarrow> heap_store new (Entries (take n old @ drop n fresh)) h;
           h \<leftarrow> heap_free (d_entries d) h;
           h \<leftarrow> heap_store dp (Dict (d\<lparr>d_size := d_size d + DICTIONARY_MIN_SIZE,
                                       d_entries := new\<rparr>)) h;
           Some (0, h) }
         else None } } }"

definition dictionary_create :: "size_t \<Rightarrow> dheap \<Rightarrow> (ptr \<times> dheap) option" where
  "dictionary_create sz h =
     (let sz = (if sz < DICTIONARY_MIN_SIZE then DICTIONARY_MIN_SIZE else sz);
          sz = ALIGN_u sz 0x7f;
          (dp, h) = heap_alloc (Dict \<lparr>d_count = 0, d_size = 0, d_entries = NULL\<rparr>) h
      in if dp = NULL then Some (NULL, h)
         else do {
           h \<leftarrow> heap_store dp (Dict \<lparr>d_count = 0, d_size = sz, d_entries = NULL\<rparr>) h;
           let (ep, h) = calloc_entries sz h;
           h \<leftarrow> heap_store dp (Dict \<lparr>d_count = 0, d_size = sz, d_entries = ep\<rparr>) h;
           if ep = NULL then do { h \<leftarrow> heap_free dp h; Some (NULL, h) }
           else Some (dp, h) })"

function destroy_loop :: "dict \<Rightarrow> nat \<Rightarrow> dheap \<Rightarrow> dheap option" where
  "destroy_loop d i h =
     (if i < unat (d_size d) then do {
        e \<leftarrow> load_entry (d_entries d) i h;
        h \<leftarrow> (if e_key e \<noteq> NULL then heap_free (e_key e) h else Some h);
        h \<leftarrow> (if e_val e \<noteq> NULL then heap_free (e_val e) h else Some h);
        destroy_loop d (Suc i) h }
      else Some h)"
  by pat_completeness auto
termination by (relation "measure (\<lambda>(d, i, h). unat (d_size d) - i)") auto

declare destroy_loop.simps [simp del]

definition dictionary_destroy :: "ptr \<Rightarrow> dheap \<Rightarrow> dheap option" where
  "dictionary_destroy dp h =
     (if dp = NULL then Some h
      else do { d \<leftarrow> load_dict dp h; h \<leftarrow> destroy_loop d 0 h; heap_free dp h })"

subsection \<open>Lookup, insertion, deletion\<close>

text \<open>\<open>dictionary_get\<close>: the pointer it returns and the \<open>errno\<close> it sets.\<close>

definition dictionary_get :: "ptr \<Rightarrow> ptr \<Rightarrow> ptr \<Rightarrow> dheap \<Rightarrow> (ptr \<times> errno option) option" where
  "dictionary_get dp key dflt h =
     (if dp = NULL \<or> key = NULL then Some (dflt, Some EINVAL)
      else do {
        hash \<leftarrow> dictionary_hash key h;
        r \<leftarrow> dictionary_find_idx_by_key dp key hash h;
        case r of
          Inl er \<Rightarrow> Some (dflt, Some er)
        | Inr idx \<Rightarrow> do {
            d \<leftarrow> load_dict dp h;
            e \<leftarrow> load_entry (d_entries d) idx h;
            Some (e_val e, None) } })"

definition dictionary_add :: "ptr \<Rightarrow> ptr \<Rightarrow> ptr \<Rightarrow> dheap \<Rightarrow> (int \<times> dheap) option" where
  "dictionary_add dp key val h =
     (if dp = NULL \<or> key = NULL then Some (- 1, h)
      else do {
        hash \<leftarrow> dictionary_hash key h;
        r \<leftarrow> dictionary_find_idx_by_key dp key hash h;
        case r of
          Inr idx \<Rightarrow> do {
            d \<leftarrow> load_dict dp h;
            e \<leftarrow> load_entry (d_entries d) idx h;
            h \<leftarrow> (if e_val e \<noteq> NULL then heap_free (e_val e) h else Some h);
            (v, h) \<leftarrow> c_strdup val h;
            h \<leftarrow> store_entry (d_entries d) idx (e\<lparr>e_val := v\<rparr>) h;
            if v = NULL then Some (- 1, h) else Some (0, h) }
        | Inl _ \<Rightarrow> do {
            (rc, h) \<leftarrow> dictionary_resize dp h;
            if rc < 0 then Some (- 1, h)
            else do {
              r \<leftarrow> dictionary_find_idx_by_empty dp h;
              case r of
                Inr idx \<Rightarrow> do {
                  d \<leftarrow> load_dict dp h;
                  e \<leftarrow> load_entry (d_entries d) idx h;
                  (k, h) \<leftarrow> c_strdup key h;
                  (v, h) \<leftarrow> (if val = NULL then Some (NULL, h) else c_strdup val h);
                  h \<leftarrow> store_entry (d_entries d) idx (e\<lparr>e_hash := hash, e_key := k, e_val := v\<rparr>) h;
                  h \<leftarrow> heap_store dp (Dict (d\<lparr>d_count := d_count d + 1\<rparr>)) h;
                  Some (0, h) }
              | Inl _ \<Rightarrow> Some (- 1, h) } } })"

definition dictionary_del :: "ptr \<Rightarrow> ptr \<Rightarrow> dheap \<Rightarrow> dheap option" where
  "dictionary_del dp key h =
     (if dp = NULL \<or> key = NULL then Some h
      else do {
        hash \<leftarrow> dictionary_hash key h;
        r \<leftarrow> dictionary_find_idx_by_key dp key hash h;
        case r of
          Inl _ \<Rightarrow> Some h
        | Inr idx \<Rightarrow> do {
            d \<leftarrow> load_dict dp h;
            e \<leftarrow> load_entry (d_entries d) idx h;
            h \<leftarrow> heap_free (e_key e) h;
            h \<leftarrow> (if e_val e \<noteq> NULL then heap_free (e_val e) h else Some h);
            h \<leftarrow> store_entry (d_entries d) idx \<lparr>e_hash = 0, e_key = NULL, e_val = NULL\<rparr> h;
            heap_store dp (Dict (d\<lparr>d_count := d_count d - 1\<rparr>)) h } })"

subsection \<open>Output\<close>

definition hex8_upper :: "u32 \<Rightarrow> string" where
  "hex8_upper w = map (\<lambda>c. if (97 :: nat) \<le> of_char c then char_of (of_char c - 32 :: nat) else c)
     (pad_left CHR ''0'' 8 (hex_nat (unat w)))"

definition dump_line :: "u32 \<Rightarrow> string \<Rightarrow> string option \<Rightarrow> string" where
  "dump_line hash k v = hex8_upper hash @ '';'' @ [CHR 0x22] @ k @ [CHR 0x22] @ '';'' @ [CHR 0x22] @
     (case v of None \<Rightarrow> ''undefined'' | Some v \<Rightarrow> v) @ [CHR 0x22] @ newline"

function dump_loop :: "dict \<Rightarrow> nat \<Rightarrow> dheap \<Rightarrow> string option" where
  "dump_loop d i h =
     (if i < unat (d_size d) then do {
        e \<leftarrow> load_entry (d_entries d) i h;
        if e_key e = NULL then dump_loop d (Suc i) h
        else do {
          k \<leftarrow> load_str (e_key e) h;
          v \<leftarrow> (if e_val e \<noteq> NULL then map_option Some (load_str (e_val e) h) else Some None);
          out \<leftarrow> dump_loop d (Suc i) h;
          Some (dump_line (e_hash e) k v @ out) } }
      else Some [])"
  by pat_completeness auto
termination by (relation "measure (\<lambda>(d, i, h). unat (d_size d) - i)") auto

declare dump_loop.simps [simp del]

text \<open>\<open>dictionary_dump\<close> with the stream open or \<open>NULL\<close>: the text it writes.\<close>

definition dictionary_dump :: "ptr \<Rightarrow> bool \<Rightarrow> dheap \<Rightarrow> string option" where
  "dictionary_dump dp out_open h =
     (if dp = NULL \<or> \<not> out_open then Some []
      else do {
        d \<leftarrow> load_dict dp h;
        if d_count d = 0 then Some [] else dump_loop d 0 h })"

end
