(* ===== verification/Dictionary_Rep.thy ===== *)
theory Dictionary_Rep
  imports Dictionary
begin

text \<open>
  What a dictionary in the heap stands for. The middle level is the list of its \<open>slots\<close>, one per
  entry of the array: free, or a key with its value (\<^term>\<open>None\<close> for a null value pointer). The top
  level is the finite map of the keys. This theory relates the heap to the slots and the slots
  to the map; \<open>Dictionary_Ops\<close> shows that the operations respect both.
\<close>

type_synonym slot = "(string \<times> string option) option"

subsection \<open>Slots and their map\<close>

fun filled :: "slot list \<Rightarrow> (string \<times> string option) list" where
  "filled [] = []"
| "filled (None # ss) = filled ss"
| "filled (Some kv # ss) = kv # filled ss"

definition slots_map :: "slot list \<Rightarrow> string \<rightharpoonup> string option" where
  "slots_map ss = map_of (filled ss)"

fun key_index :: "string \<Rightarrow> slot list \<Rightarrow> nat option" where
  "key_index k [] = None"
| "key_index k (None # ss) = map_option Suc (key_index k ss)"
| "key_index k (Some (k', v) # ss) = (if k' = k then Some 0 else map_option Suc (key_index k ss))"

fun free_index :: "slot list \<Rightarrow> nat option" where
  "free_index [] = None"
| "free_index (None # ss) = Some 0"
| "free_index (Some kv # ss) = map_option Suc (free_index ss)"

lemma filled_append [simp]: "filled (xs @ ys) = filled xs @ filled ys"
  by (induction xs rule: filled.induct) auto

lemma filled_free [simp]: "filled (replicate n None) = []"
  by (induction n) auto

lemma length_filled: "length (filled ss) \<le> length ss"
  by (induction ss rule: filled.induct) auto

lemma free_index_None: "free_index ss = None \<longleftrightarrow> length (filled ss) = length ss"
proof (induction ss rule: filled.induct)
  case (2 ss)
  then show ?case using length_filled [of ss] by auto
qed auto

lemma free_index_Some:
  "free_index ss = Some i \<Longrightarrow> \<exists>as bs. ss = as @ None # bs \<and> length as = i"
proof (induction ss arbitrary: i rule: free_index.induct)
  case (2 ss)
  then show ?case by (auto intro: exI [of _ "[] :: slot list"])
next
  case (3 kv ss)
  then obtain j where j: "free_index ss = Some j" "i = Suc j" by auto
  then obtain as bs where "ss = as @ None # bs" "length as = j" using 3 by blast
  then have "Some kv # ss = (Some kv # as) @ None # bs \<and> length (Some kv # as) = i" using j by simp
  then show ?case by blast
qed auto

lemma free_index_replicate:
  "free_index ss = None \<Longrightarrow> 0 < n \<Longrightarrow> free_index (ss @ replicate n None) = Some (length ss)"
  by (induction ss rule: free_index.induct) (auto simp: gr0_conv_Suc)

lemma key_index_None: "key_index k ss = None \<longleftrightarrow> k \<notin> fst ` set (filled ss)"
  by (induction k ss rule: key_index.induct) auto

lemma key_index_Some:
  "key_index k ss = Some i \<Longrightarrow>
   \<exists>as v bs. ss = as @ Some (k, v) # bs \<and> length as = i \<and> k \<notin> fst ` set (filled as)"
proof (induction k ss arbitrary: i rule: key_index.induct)
  case (2 k ss)
  then obtain j where j: "key_index k ss = Some j" "i = Suc j" by auto
  then obtain as v bs where "ss = as @ Some (k, v) # bs" "length as = j"
    "k \<notin> fst ` set (filled as)"
    using 2 by blast
  then show ?case using j by (intro exI [of _ "None # as"]) auto
next
  case (3 k k' v ss)
  show ?case
  proof (cases "k' = k")
    case True
    then show ?thesis using 3 by (intro exI [of _ "[]"]) auto
  next
    case False
    then obtain j where j: "key_index k ss = Some j" "i = Suc j" using 3 by auto
    then obtain as w bs where "ss = as @ Some (k, w) # bs" "length as = j"
      "k \<notin> fst ` set (filled as)"
      using 3 False by blast
    then show ?thesis using j False by (intro exI [of _ "Some (k', v) # as"]) auto
  qed
qed auto

lemma slots_map_None: "slots_map ss k = None \<longleftrightarrow> key_index k ss = None"
  by (simp add: slots_map_def map_of_eq_None_iff key_index_None)

lemma slots_map_at:
  assumes "distinct (map fst (filled (as @ Some (k, v) # bs)))"
  shows "slots_map (as @ Some (k, v) # bs) k = Some v"
    and "slots_map (as @ Some (k, w) # bs) = (slots_map (as @ Some (k, v) # bs))(k \<mapsto> w)"
    and "slots_map (as @ None # bs) = (slots_map (as @ Some (k, v) # bs))(k := None)"
proof -
  have as: "map_of (filled as) k = None" and bs: "map_of (filled bs) k = None"
    using assms by (auto simp: map_of_eq_None_iff)
  show "slots_map (as @ Some (k, v) # bs) k = Some v"
    using as by (simp add: slots_map_def map_add_def)
  show "slots_map (as @ Some (k, w) # bs) = (slots_map (as @ Some (k, v) # bs))(k \<mapsto> w)"
    "slots_map (as @ None # bs) = (slots_map (as @ Some (k, v) # bs))(k := None)"
    using as bs by (auto simp: slots_map_def map_add_def fun_eq_iff split: option.splits)
qed

lemma slots_map_new:
  assumes "key_index k (as @ None # bs) = None"
  shows "slots_map (as @ Some (k, v) # bs) = (slots_map (as @ None # bs))(k \<mapsto> v)"
proof -
  have "map_of (filled as) k = None" "map_of (filled bs) k = None"
    using assms by (auto simp: key_index_None map_of_eq_None_iff)
  then show ?thesis
    by (auto simp: slots_map_def map_add_def fun_eq_iff split: option.splits)
qed

lemma slots_map_grow [simp]: "slots_map (ss @ replicate n None) = slots_map ss"
  by (simp add: slots_map_def)

subsection \<open>The dictionary in the heap\<close>

text \<open>The pointers an entry owns, and the block contents it stands for.\<close>

definition own :: "dict_entry \<Rightarrow> ptr list" where
  "own e = filter (\<lambda>p. p \<noteq> NULL) [e_key e, e_val e]"

definition owned :: "dict_entry list \<Rightarrow> ptr list" where
  "owned es = concat (map own es)"

definition val_is :: "dheap \<Rightarrow> ptr \<Rightarrow> string option \<Rightarrow> bool" where
  "val_is h p v = (case v of None \<Rightarrow> p = NULL | Some w \<Rightarrow> load_str p h = Some w)"

definition entry_is :: "dheap \<Rightarrow> dict_entry \<Rightarrow> slot \<Rightarrow> bool" where
  "entry_is h e sl = (case sl of
     None \<Rightarrow> e_key e = NULL \<and> (e_val e = NULL \<or> load_str (e_val e) h \<noteq> None)
   | Some (k, v) \<Rightarrow> load_str (e_key e) h = Some k \<and> e_hash e = hash_string k \<and>
       val_is h (e_val e) v)"

text \<open>
  A failed copy of a new key leaves a free entry with a value, an orphan. A dictionary is
  well-formed when its array has the recorded size, its entries stand for the slots, no string
  is shared and keys are different; it is exact when moreover the count is the number of keys and
  there are no orphans. The first survives every failure of the allocator, the second holds as
  long as no allocation fails.
\<close>

definition orphans :: "dict_entry list \<Rightarrow> ptr list" where
  "orphans es = filter (\<lambda>p. p \<noteq> NULL) (map e_val (filter (\<lambda>e. e_key e = NULL) es))"

definition dict_wf :: "dheap \<Rightarrow> ptr \<Rightarrow> dict \<Rightarrow> dict_entry list \<Rightarrow> slot list \<Rightarrow> bool" where
  "dict_wf h dp d es ss \<longleftrightarrow> heap_ok h \<and> load_dict dp h = Some d \<and>
     load_entries (d_entries d) h = Some es \<and> length es = unat (d_size d) \<and>
     24 * length es < 2 ^ 64 \<and> list_all2 (entry_is h) es ss \<and> distinct (owned es) \<and>
     distinct (map fst (filled ss))"

definition dict_exact :: "dict \<Rightarrow> dict_entry list \<Rightarrow> slot list \<Rightarrow> bool" where
  "dict_exact d es ss \<longleftrightarrow> d_count d = of_nat (length (filled ss)) \<and> orphans es = []"

definition dict_rep :: "dheap \<Rightarrow> ptr \<Rightarrow> dict \<Rightarrow> dict_entry list \<Rightarrow> slot list \<Rightarrow> bool" where
  "dict_rep h dp d es ss \<longleftrightarrow> dict_wf h dp d es ss \<and> dict_exact d es ss"

lemma rep_wf: "dict_rep h dp d es ss \<Longrightarrow> dict_wf h dp d es ss"
  by (simp add: dict_rep_def)

lemma rep_exact: "dict_rep h dp d es ss \<Longrightarrow> dict_exact d es ss"
  by (simp add: dict_rep_def)

lemma orphans_simps [simp]:
  "orphans [] = []"
  "orphans (e # es) = (if e_key e = NULL \<and> e_val e \<noteq> NULL then e_val e # orphans es else orphans es)"
  "orphans (xs @ ys) = orphans xs @ orphans ys"
  by (simp_all add: orphans_def)

lemma orphans_zero [simp]: "orphans (replicate n zero_entry) = []"
  by (induction n) (simp_all add: zero_entry_def)

definition footprint :: "ptr \<Rightarrow> dict \<Rightarrow> dict_entry list \<Rightarrow> ptr set" where
  "footprint dp d es = {dp, d_entries d} \<union> set (owned es)"

text \<open>
  A step that turns the footprint \<open>fp\<close> into \<open>fp'\<close>: blocks outside are untouched, what left the
  footprint has been freed, what entered it is new. A step with this property leaks nothing.
\<close>

definition step_mem :: "ptr set \<Rightarrow> ptr set \<Rightarrow> dheap \<Rightarrow> dheap \<Rightarrow> bool" where
  "step_mem fp fp' h h' \<longleftrightarrow> brk h \<le> brk h' \<and>
     (\<forall>q. q \<notin> fp \<union> fp' \<longrightarrow> blocks h' q = blocks h q) \<and>
     (\<forall>q \<in> fp - fp'. blocks h' q = None) \<and> (\<forall>q \<in> fp' - fp. brk h \<le> q)"

lemma load_str_Some: "load_str p h = Some s \<longleftrightarrow> p \<noteq> NULL \<and> blocks h p = Some (Str s)"
  by (auto simp: load_str_def heap_load_def split: option.splits dblock.splits)

lemma load_dict_Some: "load_dict p h = Some d \<longleftrightarrow> p \<noteq> NULL \<and> blocks h p = Some (Dict d)"
  by (auto simp: load_dict_def heap_load_def split: option.splits dblock.splits)

lemma load_entries_Some: "load_entries p h = Some es \<longleftrightarrow> p \<noteq> NULL \<and> blocks h p = Some (Entries es)"
  by (auto simp: load_entries_def heap_load_def split: option.splits dblock.splits)

lemmas load_Some = load_str_Some load_dict_Some load_entries_Some

lemma owned_simps [simp]:
  "owned [] = []" "owned (e # es) = own e @ owned es" "owned (xs @ ys) = owned xs @ owned ys"
  by (simp_all add: owned_def)

lemma own_zero [simp]: "own zero_entry = []"
  by (simp add: own_def zero_entry_def)

lemma owned_zero [simp]: "owned (replicate n zero_entry) = []"
  by (induction n) auto

lemma own_entry: "set (own e) = {e_key e, e_val e} - {NULL}"
  by (auto simp: own_def)

lemma val_is_frame: "val_is h p v \<Longrightarrow> p = NULL \<or> blocks h' p = blocks h p \<Longrightarrow> val_is h' p v"
  by (auto simp: val_is_def load_Some split: option.splits)

lemma entry_is_frame:
  "entry_is h e sl \<Longrightarrow> \<forall>p \<in> set (own e). blocks h' p = blocks h p \<Longrightarrow> entry_is h' e sl"
  by (auto simp: entry_is_def load_Some own_entry split: option.splits intro: val_is_frame)

lemma entries_frame:
  "list_all2 (entry_is h) es ss \<Longrightarrow> \<forall>p \<in> set (owned es). blocks h' p = blocks h p \<Longrightarrow>
   list_all2 (entry_is h') es ss"
  by (induction rule: list_all2_induct) (auto intro: entry_is_frame)

lemma own_is_str: "entry_is h e sl \<Longrightarrow> p \<in> set (own e) \<Longrightarrow> \<exists>s. blocks h p = Some (Str s)"
  by (auto simp: entry_is_def own_entry load_Some val_is_def split: option.splits prod.splits)

lemma owned_is_str:
  "list_all2 (entry_is h) es ss \<Longrightarrow> p \<in> set (owned es) \<Longrightarrow> \<exists>s. blocks h p = Some (Str s)"
  by (induction rule: list_all2_induct) (auto dest: own_is_str)

lemma entry_key_NULL: "entry_is h e sl \<Longrightarrow> e_key e = NULL \<longleftrightarrow> sl = None"
  by (auto simp: entry_is_def load_Some split: option.splits prod.splits)

lemma wf_entry:
  assumes "dict_wf h dp d es ss" and "i < length ss"
  shows "load_entry (d_entries d) i h = Some (es ! i)" and "entry_is h (es ! i) (ss ! i)"
    and "i < unat (d_size d)"
  using assms by (auto simp: dict_wf_def load_entry_def list_all2_conv_all_nth)

lemma wf_length: "dict_wf h dp d es ss \<Longrightarrow> length es = length ss \<and> unat (d_size d) = length ss"
  by (auto simp: dict_wf_def dest: list_all2_lengthD)

lemmas rep_entry = wf_entry [OF rep_wf]
lemmas rep_length = wf_length [OF rep_wf]

lemma rep_count:
  assumes "dict_rep h dp d es ss"
  shows "unat (d_count d) = length (filled ss)"
proof -
  have "length (filled ss) < 2 ^ 64"
    using assms length_filled [of ss] rep_length [OF assms] by (auto simp: dict_rep_def dict_wf_def)
  then show ?thesis using assms by (simp add: dict_rep_def dict_exact_def unat_of_nat_64)
qed

lemma rep_full: "dict_rep h dp d es ss \<Longrightarrow> d_count d < d_size d \<longleftrightarrow> free_index ss \<noteq> None"
  using rep_count [of h dp d es ss] rep_length [of h dp d es ss] length_filled [of ss]
  by (auto simp: word_less_nat_alt free_index_None)

subsection \<open>The searches\<close>

lemma find_key_loop_wf:
  assumes r: "dict_wf h dp d es ss" and k: "load_str key h = Some k"
  shows "i \<le> length ss \<Longrightarrow> find_key_loop d key (hash_string k) i h =
    Some (case key_index k (drop i ss) of None \<Rightarrow> Inl ENOENT | Some j \<Rightarrow> Inr (i + j))"
proof (induction "length ss - i" arbitrary: i)
  case 0
  then show ?case using wf_length [OF r] by (subst find_key_loop.simps) simp
next
  case (Suc n)
  then have i: "i < length ss" by simp
  note e = wf_entry [OF r i]
  have d: "drop i ss = ss ! i # drop (Suc i) ss" using i by (simp add: Cons_nth_drop_Suc)
  have IH: "find_key_loop d key (hash_string k) (Suc i) h =
    Some (case key_index k (drop (Suc i) ss) of None \<Rightarrow> Inl ENOENT | Some j \<Rightarrow> Inr (Suc i + j))"
    using Suc.hyps(1) [of "Suc i"] Suc.hyps(2) i by simp
  show ?case
  proof (cases "ss ! i")
    case None
    then show ?thesis
      using e IH entry_key_NULL [OF e(2)] unfolding d
      by (subst find_key_loop.simps) (auto split: option.splits)
  next
    case (Some kv)
    then obtain k' v where kv: "ss ! i = Some (k', v)" by (cases kv) auto
    then have "load_str (e_key (es ! i)) h = Some k'" "e_hash (es ! i) = hash_string k'"
      "e_key (es ! i) \<noteq> NULL"
      using e(2) by (auto simp: entry_is_def load_Some)
    then show ?thesis
      using e(1,3) IH k kv unfolding d
      by (subst find_key_loop.simps) (auto split: option.splits)
  qed
qed

lemma find_key_wf:
  assumes "dict_wf h dp d es ss" and "load_str key h = Some k"
  shows "dictionary_find_idx_by_key dp key (hash_string k) h =
    Some (case key_index k ss of None \<Rightarrow> Inl ENOENT | Some j \<Rightarrow> Inr j)"
  using find_key_loop_wf [OF assms, of 0] assms(1)
  by (simp add: dictionary_find_idx_by_key_def dict_wf_def split: option.splits)

lemma find_empty_loop_wf:
  assumes r: "dict_wf h dp d es ss"
  shows "i \<le> length ss \<Longrightarrow> find_empty_loop d i h =
    Some (case free_index (drop i ss) of None \<Rightarrow> Inl ENOENT | Some j \<Rightarrow> Inr (i + j))"
proof (induction "length ss - i" arbitrary: i)
  case 0
  then show ?case using wf_length [OF r] by (subst find_empty_loop.simps) simp
next
  case (Suc n)
  then have i: "i < length ss" by simp
  note e = wf_entry [OF r i]
  have d: "drop i ss = ss ! i # drop (Suc i) ss" using i by (simp add: Cons_nth_drop_Suc)
  have IH: "find_empty_loop d (Suc i) h =
    Some (case free_index (drop (Suc i) ss) of None \<Rightarrow> Inl ENOENT | Some j \<Rightarrow> Inr (Suc i + j))"
    using Suc.hyps(1) [of "Suc i"] Suc.hyps(2) i by simp
  show ?case
    using e(1,3) IH entry_key_NULL [OF e(2)] unfolding d
    by (subst find_empty_loop.simps) (cases "ss ! i"; auto split: option.splits)
qed

lemma find_empty_wf:
  assumes "dict_wf h dp d es ss"
  shows "dictionary_find_idx_by_empty dp h =
    Some (case free_index ss of None \<Rightarrow> Inl ENOENT | Some j \<Rightarrow> Inr j)"
  using find_empty_loop_wf [OF assms, of 0] assms
  by (simp add: dictionary_find_idx_by_empty_def dict_wf_def split: option.splits)

lemmas find_key_rep = find_key_wf [OF rep_wf]
lemmas find_empty_rep = find_empty_wf [OF rep_wf]

end
