(* ===== verification/Dictionary_Ops.thy ===== *)
theory Dictionary_Ops
  imports Dictionary_Rep
begin

text \<open>
  Every operation of the dictionary on the representation of \<open>Dictionary_Rep\<close>: what it returns,
  the slots it leaves, and which blocks it frees and allocates, on each branch.
\<close>

subsection \<open>Footprints\<close>

lemma step_mem_refl [simp]: "step_mem fp fp h h"
  by (simp add: step_mem_def)

lemma step_mem_trans:
  assumes a: "step_mem A B h h1" and b: "step_mem B C h1 h2"
    and new: "\<forall>q. brk h \<le> q \<longrightarrow> blocks h q = None" and A: "\<forall>q \<in> A. q < brk h"
  shows "step_mem A C h h2"
proof -
  have "blocks h2 q = blocks h q" if "q \<notin> A \<union> C" for q
  proof (cases "q \<in> B")
    case True
    then have "brk h \<le> q" "blocks h2 q = None" using a b that by (auto simp: step_mem_def)
    then show ?thesis using new by simp
  qed (use a b that in \<open>auto simp: step_mem_def\<close>)
  moreover have "blocks h2 q = None" if "q \<in> A - C" for q
    using a b that by (cases "q \<in> B") (auto simp: step_mem_def)
  moreover have "brk h \<le> q" if "q \<in> C - A" for q
  proof (cases "q \<in> B")
    case False
    then have "brk h1 \<le> q" using b that by (auto simp: step_mem_def)
    then show ?thesis using a by (auto simp: step_mem_def)
  qed (use a that in \<open>auto simp: step_mem_def\<close>)
  ultimately show ?thesis using a b by (auto simp: step_mem_def)
qed

lemma heap_ok_above: "heap_ok h \<Longrightarrow> brk h \<le> q \<Longrightarrow> blocks h q = None"
  using heap_live_lt_brk [of h q] by (cases "blocks h q") auto

text \<open>The blocks of a well-formed dictionary are live, and of different kinds.\<close>

lemma wf_blocks:
  assumes "dict_wf h dp d es ss"
  shows "blocks h dp = Some (Dict d)" and "blocks h (d_entries d) = Some (Entries es)"
    and "p \<in> set (owned es) \<Longrightarrow> \<exists>s. blocks h p = Some (Str s)"
    and "dp \<noteq> NULL" and "d_entries d \<noteq> NULL" and "dp \<noteq> d_entries d"
    and "heap_ok h" and "dp \<notin> set (owned es)" and "d_entries d \<notin> set (owned es)"
proof -
  show b: "blocks h dp = Some (Dict d)" "blocks h (d_entries d) = Some (Entries es)"
    "dp \<noteq> NULL" "d_entries d \<noteq> NULL" "heap_ok h"
    using assms unfolding dict_wf_def load_Some by blast+
  show str: "\<exists>s. blocks h p = Some (Str s)" if "p \<in> set (owned es)" for p
    using assms that owned_is_str [of h es ss p] by (auto simp: dict_wf_def)
  show "dp \<noteq> d_entries d" using b by auto
  show "dp \<notin> set (owned es)" "d_entries d \<notin> set (owned es)" using b str by fastforce+
qed

text \<open>A string outside the footprint is none of the strings of an entry.\<close>

lemma own_outside:
  assumes "dict_wf h dp d es ss" and "load_str p h = Some w" and "p \<notin> footprint dp d es" and "i < length ss"
  shows "p \<noteq> e_val (es ! i)"
proof
  assume a: "p = e_val (es ! i)"
  have "es ! i \<in> set es" using wf_length [OF assms(1)] assms(4) by simp
  then have "set (own (es ! i)) \<subseteq> set (owned es)" by (auto simp: owned_def)
  then show False using a assms(2,3) by (auto simp: footprint_def own_entry load_Some)
qed

lemma wf_lt_brk:
  assumes "dict_wf h dp d es ss" and "p \<in> footprint dp d es"
  shows "p < brk h"
proof -
  note r = wf_blocks [OF assms(1)]
  consider "p = dp" | "p = d_entries d" | "p \<in> set (owned es)"
    using assms(2) by (auto simp: footprint_def)
  then have "\<exists>b. blocks h p = Some b"
    using r(1,2) r(3) [of p] by cases auto
  then show ?thesis using heap_live_lt_brk [OF r(7), of p] by blast
qed

lemmas rep_blocks = wf_blocks [OF rep_wf]
lemmas footprint_lt_brk = wf_lt_brk [OF rep_wf]

lemma free_opt:
  assumes "heap_ok h" and "p = NULL \<or> blocks h p \<noteq> None"
  shows "(if p \<noteq> NULL then heap_free p h else Some h) = Some (h\<lparr>blocks := (blocks h)(p := None)\<rparr>)"
  using assms heap_ok_NULL [OF assms(1)] by (auto simp: heap_free_def fun_upd_idem)

lemma c_strdup_result:
  "load_str p h = Some s \<Longrightarrow> c_strdup p h = Some (heap_alloc (Str s) h)"
  by (simp add: c_strdup_def)

text \<open>A well-formed dictionary, split at the entry of a slot.\<close>

lemma wf_split:
  assumes r: "dict_wf h dp d es ss" and ss: "ss = us @ sl # ts"
  obtains as bs where "es = as @ (es ! length us) # bs" and "length as = length us"
    and "entry_is h (es ! length us) sl"
    and "set (own (es ! length us)) \<inter> set (owned as @ owned bs) = {}"
    and "distinct (own (es ! length us))"
proof -
  have "length us < length es" using wf_length [OF r] ss by simp
  then obtain as bs where s: "es = as @ (es ! length us) # bs" "length as = length us"
    using split_at_index by metis
  have "distinct (owned (as @ (es ! length us) # bs))" using r s(1) by (simp add: dict_wf_def)
  then show ?thesis
    using that [OF s] wf_entry(2) [OF r, of "length us"] ss by auto
qed

text \<open>
  One entry changes from \<open>e\<close> to \<open>e'\<close>: the strings it gives up are freed, except \<open>L\<close>, those it
  gains are new, and apart from them only the dictionary and its array are written.
\<close>

lemma wf_change:
  assumes r: "dict_wf h dp d es ss" and ss: "ss = us @ sl # ts" and e: "e = es ! length us"
    and ok: "heap_ok h'" "brk h \<le> brk h'"
    and d': "blocks h' dp = Some (Dict d')" "d_size d' = d_size d" "d_entries d' = d_entries d"
    and keys: "distinct (map fst (filled (us @ sl' # ts)))"
    and es': "blocks h' (d_entries d) = Some (Entries (es[length us := e']))"
    and e': "entry_is h' e' sl'" "distinct (own e')"
    and new: "\<forall>p \<in> set (own e') - set (own e). brk h \<le> p"
    and gone: "\<forall>p \<in> set (own e) - set (own e') - L. blocks h' p = None"
    and L: "L \<subseteq> set (own e)"
    and same: "\<forall>p. p \<notin> {dp, d_entries d} \<union> set (own e) \<union> set (own e') \<longrightarrow> blocks h' p = blocks h p"
  shows "dict_wf h' dp d' (es[length us := e']) (us @ sl' # ts) \<and>
    step_mem (footprint dp d es) (footprint dp d' (es[length us := e']) \<union> L) h h'"
proof
  obtain as bs where s: "es = as @ e # bs" "length as = length us"
    and own: "set (own e) \<inter> set (owned as @ owned bs) = {}"
    using wf_split [OF r ss] unfolding e by metis
  have upd: "es[length us := e'] = as @ e' # bs" using s by (metis list_update_append_mid)
  note b = wf_blocks [OF r]
  have sub: "set (owned as @ owned bs) \<subseteq> set (owned es)" using s(1) by auto
  have lt: "p < brk h" if "p \<in> set (owned as @ owned bs)" for p
    using wf_lt_brk [OF r, of p] that sub by (auto simp: footprint_def)
  have disj: "set (own e') \<inter> set (owned as @ owned bs) = {}"
  proof (rule ccontr)
    assume "\<not> ?thesis"
    then obtain p where p: "p \<in> set (own e')" "p \<in> set (owned as @ owned bs)" by blast
    then have "p \<notin> set (own e)" using own by blast
    then have "brk h \<le> p" using new p(1) by simp
    then show False using lt [OF p(2)] by simp
  qed
  have fr: "\<forall>p \<in> set (owned as @ owned bs). blocks h' p = blocks h p"
  proof
    fix p assume p: "p \<in> set (owned as @ owned bs)"
    then have "p \<notin> set (own e)" "p \<notin> set (own e')" using own disj by blast+
    moreover have "p \<noteq> dp" "p \<noteq> d_entries d" using p b(8,9) sub by blast+
    ultimately show "blocks h' p = blocks h p" using same by simp
  qed
  have "list_all2 (entry_is h) (as @ e # bs) (us @ sl # ts)"
    using r unfolding dict_wf_def s(1) ss by blast
  then have "list_all2 (entry_is h) as us" "list_all2 (entry_is h) bs ts"
    using s(2) by (auto simp: list_all2_append)
  then have "list_all2 (entry_is h') as us" "list_all2 (entry_is h') bs ts"
    using fr by (auto intro: entries_frame)
  then have "list_all2 (entry_is h') (es[length us := e']) (us @ sl' # ts)"
    unfolding upd using e'(1) s(2) by (simp add: list_all2_append)
  moreover have "distinct (owned es)" using r by (simp add: dict_wf_def)
  then have "distinct (owned (es[length us := e']))"
    unfolding upd using e'(2) disj unfolding s(1) by auto
  ultimately show "dict_wf h' dp d' (es[length us := e']) (us @ sl' # ts)"
    using ok(1) d' keys es' b(4,5) r unfolding dict_wf_def load_Some length_list_update
    by simp
  have fp: "footprint dp d es = {dp, d_entries d} \<union> set (own e) \<union> set (owned as @ owned bs)"
    "footprint dp d' (es[length us := e']) =
      {dp, d_entries d} \<union> set (own e') \<union> set (owned as @ owned bs)"
    unfolding upd footprint_def d'(3) using arg_cong [OF s(1), of owned] by auto
  show "step_mem (footprint dp d es) (footprint dp d' (es[length us := e']) \<union> L) h h'"
    unfolding step_mem_def fp using ok(2) same gone new L by blast
qed

text \<open>A free entry owns its orphan alone, and only a change of a free entry changes the orphans.\<close>

lemma own_free: "e_key e = NULL \<Longrightarrow> own e = orphans [e]"
  by (simp add: own_def)

lemma orphans_upd:
  assumes "i < length es"
  shows "length (orphans (es[i := e])) + length (orphans [es ! i]) =
    length (orphans es) + length (orphans [e])"
proof -
  obtain as bs where "es = as @ (es ! i) # bs" "length as = i" using split_at_index [OF assms] by metis
  then have "es[i := e] = as @ e # bs" "orphans es = orphans as @ orphans [es ! i] @ orphans bs"
    by (metis list_update_length, metis orphans_simps(3) append_Cons append_Nil)
  moreover have "orphans (as @ e # bs) = orphans as @ orphans [e] @ orphans bs" by simp
  ultimately show ?thesis by simp
qed

lemma orphans_used:
  assumes "i < length es" and "e_key (es ! i) \<noteq> NULL" and "orphans [e] = []"
  shows "orphans (es[i := e]) = orphans es"
proof -
  obtain as bs where "es = as @ (es ! i) # bs" "length as = i" using split_at_index [OF assms(1)] by metis
  then have "es[i := e] = as @ e # bs" "orphans es = orphans as @ orphans [es ! i] @ orphans bs"
    by (metis list_update_length, metis orphans_simps(3) append_Cons append_Nil)
  moreover have "orphans (as @ e # bs) = orphans as @ orphans [e] @ orphans bs" by simp
  ultimately show ?thesis using assms(2,3) by simp
qed

lemma heap_ok_upd:
  "heap_ok h \<Longrightarrow> blocks h p = Some x \<Longrightarrow> heap_ok (h\<lparr>blocks := (blocks h)(p \<mapsto> y)\<rparr>)"
  by (auto simp: heap_ok_def)

lemma heap_ok_del: "heap_ok h \<Longrightarrow> heap_ok (h\<lparr>blocks := (blocks h)(p := None)\<rparr>)"
  by (auto simp: heap_ok_def)

subsection \<open>Lookup\<close>

lemma get_wf:
  assumes r: "dict_wf h dp d es ss" and k: "load_str key h = Some k"
  shows "case slots_map ss k of
      None \<Rightarrow> dictionary_get dp key dflt h = Some (dflt, Some ENOENT)
    | Some v \<Rightarrow> \<exists>p. dictionary_get dp key dflt h = Some (p, None) \<and> val_is h p v"
proof -
  have nz: "dp \<noteq> NULL" "key \<noteq> NULL" "load_dict dp h = Some d"
    using r k by (auto simp: dict_wf_def load_Some)
  have h: "dictionary_hash key h = Some (hash_string k)"
    using nz k by (simp add: dictionary_hash_def)
  note f = find_key_wf [OF r k]
  show ?thesis
  proof (cases "key_index k ss")
    case None
    then show ?thesis using nz h f slots_map_None [of ss k] by (simp add: dictionary_get_def)
  next
    case (Some i)
    then obtain us v ts where s: "ss = us @ Some (k, v) # ts" "length us = i"
      using key_index_Some by blast
    then have "slots_map ss k = Some v"
      using r slots_map_at(1) by (simp add: dict_wf_def)
    moreover have "load_entry (d_entries d) i h = Some (es ! i)" "val_is h (e_val (es ! i)) v"
      using wf_entry [OF r, of i] s by (auto simp: entry_is_def)
    ultimately show ?thesis using nz h f Some by (simp add: dictionary_get_def)
  qed
qed

lemmas get_rep = get_wf [OF rep_wf]

subsection \<open>Copies of strings\<close>

lemma store_entry_result:
  "blocks h p = Some (Entries es) \<Longrightarrow> p \<noteq> NULL \<Longrightarrow> i < length es \<Longrightarrow>
   store_entry p i e h = Some (h\<lparr>blocks := (blocks h)(p \<mapsto> Entries (es[i := e]))\<rparr>)"
  by (simp add: store_entry_def load_entries_def heap_load_def heap_store_def)

text \<open>\<open>copied v h q h'\<close>: \<open>strdup\<close> of an optional string \<open>v\<close> gave the pointer \<open>q\<close>.\<close>

definition copied :: "string option \<Rightarrow> dheap \<Rightarrow> ptr \<Rightarrow> dheap \<Rightarrow> bool" where
  "copied v h q h' \<longleftrightarrow>
     (case v of None \<Rightarrow> q = NULL \<and> h' = h | Some s \<Rightarrow> heap_alloc (Str s) h = (q, h'))"

lemma copied_ptr:
  assumes "copied v h q h'" and "heap_ok h"
  shows "q = NULL \<or> q = brk h \<and> brk h' = Suc (brk h) \<and> blocks h q = None"
    and "q = NULL \<longleftrightarrow> v = None \<or> next_answer h = Fail"
    and "brk h \<le> brk h'" and "heap_ok h'"
    and "fails h = fails h' + (if q = NULL \<and> v \<noteq> None then 1 else 0)"
    and "plan h' = (if v = None then plan h else tl (plan h))"
  using assms fails_step [of h] heap_ok_brk_pos [OF assms(2)] heap_ok_brk [OF assms(2)]
    heap_alloc_ok [OF assms(2)]
  by (auto simp: copied_def heap_alloc_def split: option.splits if_splits)

lemma copied_blocks:
  assumes "copied v h q h'" and "heap_ok h"
  shows "blocks h' p = (if q \<noteq> NULL \<and> p = q then map_option Str v else blocks h p)"
  using assms heap_ok_brk_pos [OF assms(2)]
  by (auto simp: copied_def heap_alloc_def split: option.splits if_splits)

lemma copied_live:
  assumes "copied v h q h'" and "heap_ok h" and "blocks h p = Some b"
  shows "blocks h' p = Some b" and "q = NULL \<or> p \<noteq> q"
  using copied_blocks [OF assms(1,2), of p] copied_ptr(1) [OF assms(1,2)] assms(3) by auto

lemma copied_ne:
  assumes "copied v h q h'" and "heap_ok h" and "blocks h p = Some b" and "p \<noteq> NULL"
  shows "q \<noteq> p"
  using copied_live(2) [OF assms(1-3)] assms(4) by auto

lemma copied_val_is:
  assumes "copied v h q h'" and "heap_ok h"
  shows "val_is h p u \<Longrightarrow> val_is h' p u" and "val_is h' q (if q = NULL then None else v)"
  using copied_live [OF assms, of p] copied_blocks [OF assms, of q] copied_ptr(2) [OF assms]
  by (auto simp: val_is_def load_Some split: option.splits)

lemma strdup_copied: "load_str p h = Some s \<Longrightarrow> \<exists>q h'. c_strdup p h = Some (q, h') \<and> copied (Some s) h q h'"
  by (cases "heap_alloc (Str s) h") (simp add: c_strdup_def copied_def)

lemma strdup_opt_copied:
  assumes "val_is h p v"
  shows "\<exists>q h'. (if p = NULL then Some (NULL, h) else c_strdup p h) = Some (q, h') \<and> copied v h q h'"
  using assms strdup_copied [of p h] by (cases v) (auto simp: val_is_def copied_def load_Some)

subsection \<open>Insertion\<close>

text \<open>The entry of a key in use, and the pointers around it.\<close>

lemma wf_key_entry:
  assumes r: "dict_wf h dp d es ss" and s: "ss = us @ Some (k, v) # ts"
  defines "e \<equiv> es ! length us"
  shows "load_entry (d_entries d) (length us) h = Some e" and "length us < length es"
    and "blocks h (e_key e) = Some (Str k)" and "e_hash e = hash_string k" and "val_is h (e_val e) v"
    and "e_key e \<noteq> NULL" and "e_key e \<noteq> e_val e"
    and "e_key e \<notin> {dp, d_entries d, brk h}" and "e_val e \<notin> {dp, d_entries d, brk h}"
    and "e_val e = NULL \<or> blocks h (e_val e) \<noteq> None"
proof -
  note b = wf_blocks [OF r]
  show "length us < length es" using wf_length [OF r] s by simp
  have e: "entry_is h e (Some (k, v))" "distinct (own e)" using wf_split [OF r s] by (auto simp: e_def)
  show "load_entry (d_entries d) (length us) h = Some e"
    using wf_entry(1) [OF r, of "length us"] s by (simp add: e_def)
  show key: "blocks h (e_key e) = Some (Str k)" "e_hash e = hash_string k" "val_is h (e_val e) v"
    "e_key e \<noteq> NULL"
    using e(1) by (auto simp: entry_is_def load_Some)
  show "e_key e \<noteq> e_val e" using e(2) key(4) by (auto simp: own_def split: if_splits)
  show "e_key e \<notin> {dp, d_entries d, brk h}" using key(1) b(1,2,7) by auto
  have val: "e_val e = NULL \<or> (\<exists>w. blocks h (e_val e) = Some (Str w))"
    using key(3) by (auto simp: val_is_def load_Some split: option.splits)
  then show "e_val e = NULL \<or> blocks h (e_val e) \<noteq> None" by auto
  show "e_val e \<notin> {dp, d_entries d, brk h}"
    using val b(1,2,4,5) heap_ok_brk [OF b(7)] heap_ok_brk_pos [OF b(7)] by auto
qed

lemmas rep_key_entry = wf_key_entry [OF rep_wf]

text \<open>
  The key is present: the old value is freed before the new one is copied, so the new value must
  not be the stored string itself, and a failing \<open>strdup\<close> leaves the key without a value.
\<close>

lemma refresh_run:
  assumes r: "dict_wf h dp d es ss" and k: "load_str key h = Some k"
    and w: "load_str val h = Some w"
    and s: "ss = us @ Some (k, v) # ts" and i: "key_index k ss = Some (length us)"
    and e_def: "e = es ! length us" and sep: "val \<noteq> e_val e"
    and h1_def: "h1 = h\<lparr>blocks := (blocks h)(e_val e := None)\<rparr>"
  shows "\<exists>q h2. copied (Some w) h1 q h2 \<and>
    dictionary_add dp key val h = Some (if q = NULL then - 1 else 0,
      h2\<lparr>blocks := (blocks h2)(d_entries d \<mapsto> Entries (es[length us := e\<lparr>e_val := q\<rparr>]))\<rparr>)"
proof -
  note b = wf_blocks [OF r]
  note e = wf_key_entry [OF r s, folded e_def]
  have key: "key \<noteq> NULL" "dictionary_hash key h = Some (hash_string k)"
    using k by (auto simp: dictionary_hash_def load_Some)
  note free = free_opt [OF b(7) e(10), folded h1_def]
  have ok1: "heap_ok h1" unfolding h1_def by (rule heap_ok_del [OF b(7)])
  have "load_str val h1 = Some w" using w sep by (auto simp: load_Some h1_def)
  from strdup_copied [OF this] obtain q h2 where dup: "c_strdup val h1 = Some (q, h2)"
    and c: "copied (Some w) h1 q h2" by blast
  have "blocks h1 (d_entries d) = Some (Entries es)" using b(2) e(9) by (simp add: h1_def)
  note ent = copied_live(1) [OF c ok1 this]
  have "dictionary_add dp key val h = Some (if q = NULL then - 1 else 0,
      h2\<lparr>blocks := (blocks h2)(d_entries d \<mapsto> Entries (es[length us := e\<lparr>e_val := q\<rparr>]))\<rparr>)"
    using key b(4) r e(1) free dup find_key_wf [OF r k] i store_entry_result [OF ent b(5) e(2)]
    by (simp add: dictionary_add_def dict_wf_def)
  then show ?thesis using c by blast
qed

text \<open>The memory in which the copy of the new value has replaced the old one.\<close>

lemma refresh_blocks:
  assumes r: "dict_wf h dp d es ss" and s: "ss = us @ Some (k, v) # ts"
    and e_def: "e = es ! length us" and h1_def: "h1 = h\<lparr>blocks := (blocks h)(e_val e := None)\<rparr>"
    and c: "copied (Some w) h1 q h2"
    and h3_def: "h3 = h2\<lparr>blocks := (blocks h2)(d_entries d \<mapsto> Entries (es[length us := e\<lparr>e_val := q\<rparr>]))\<rparr>"
  shows "heap_ok h3" and "brk h \<le> brk h3" and "blocks h3 dp = Some (Dict d)"
    and "blocks h3 (d_entries d) = Some (Entries (es[length us := e\<lparr>e_val := q\<rparr>]))"
    and "blocks h3 (e_key e) = Some (Str k)"
    and "q = NULL \<or> e_key e \<noteq> q \<and> dp \<noteq> q \<and> d_entries d \<noteq> q"
    and "blocks h3 p = (if p = d_entries d then Some (Entries (es[length us := e\<lparr>e_val := q\<rparr>]))
      else if q \<noteq> NULL \<and> p = q then Some (Str w) else if p = e_val e then None else blocks h p)"
    and "fails h = fails h3 + (if q = NULL then 1 else 0)"
proof -
  note b = wf_blocks [OF r]
  note e = wf_key_entry [OF r s, folded e_def]
  have ok1: "heap_ok h1" unfolding h1_def by (rule heap_ok_del [OF b(7)])
  note cp = copied_ptr [OF c ok1] copied_blocks [OF c ok1]
  have live: "blocks h1 (d_entries d) = Some (Entries es)" "blocks h1 dp = Some (Dict d)"
    "blocks h1 (e_key e) = Some (Str k)"
    using b(1,2) e(3,7,9) by (simp_all add: h1_def)
  note ent = live [THEN copied_live(1) [OF c ok1]]
  show "heap_ok h3" unfolding h3_def by (rule heap_ok_upd [OF cp(4) ent(1)])
  show "brk h \<le> brk h3" using cp(3) by (simp add: h3_def h1_def)
  show "blocks h3 dp = Some (Dict d)" using ent(2) b(6) by (simp add: h3_def)
  show "blocks h3 (d_entries d) = Some (Entries (es[length us := e\<lparr>e_val := q\<rparr>]))" by (simp add: h3_def)
  show "blocks h3 (e_key e) = Some (Str k)" using ent(3) e(8) by (simp add: h3_def)
  show "q = NULL \<or> e_key e \<noteq> q \<and> dp \<noteq> q \<and> d_entries d \<noteq> q"
    using live [THEN copied_live(2) [OF c ok1]] by auto
  show "blocks h3 p = (if p = d_entries d then Some (Entries (es[length us := e\<lparr>e_val := q\<rparr>]))
      else if q \<noteq> NULL \<and> p = q then Some (Str w) else if p = e_val e then None else blocks h p)"
    by (simp add: h3_def cp(7) h1_def)
  show "fails h = fails h3 + (if q = NULL then 1 else 0)"
    using cp(5) by (simp add: h3_def h1_def)
qed

lemma refresh_wf:
  assumes r: "dict_wf h dp d es ss" and k: "load_str key h = Some k"
    and w: "load_str val h = Some w"
    and s: "ss = us @ Some (k, v) # ts" and i: "key_index k ss = Some (length us)"
    and sep: "val \<noteq> e_val (es ! length us)"
  defines "w' \<equiv> (if next_answer h = Fail then None else Some w)"
  shows "\<exists>h' es'. dictionary_add dp key val h = Some (if w' = None then - 1 else 0, h') \<and>
    dict_wf h' dp d es' (us @ Some (k, w') # ts) \<and> orphans es' = orphans es \<and>
    fails h = fails h' + (if w' = None then 1 else 0) \<and>
    step_mem (footprint dp d es) (footprint dp d es') h h'"
proof -
  note b = wf_blocks [OF r]
  define e where "e = es ! length us"
  note e = wf_key_entry [OF r s, folded e_def]
  define h1 where "h1 = h\<lparr>blocks := (blocks h)(e_val e := None)\<rparr>"
  have ok1: "heap_ok h1" unfolding h1_def by (rule heap_ok_del [OF b(7)])
  obtain q h2 where c: "copied (Some w) h1 q h2"
    and run: "dictionary_add dp key val h = Some (if q = NULL then - 1 else 0,
      h2\<lparr>blocks := (blocks h2)(d_entries d \<mapsto> Entries (es[length us := e\<lparr>e_val := q\<rparr>]))\<rparr>)"
    using refresh_run [OF r k w s i e_def sep [folded e_def] h1_def] by blast
  note cp = copied_ptr(1,2) [OF c ok1]
  have w': "w' = (if q = NULL then None else Some w)"
    using cp(2) by (simp add: w'_def h1_def next_answer_def)
  define e' where "e' = e\<lparr>e_val := q\<rparr>"
  define h3 where "h3 = h2\<lparr>blocks := (blocks h2)(d_entries d \<mapsto> Entries (es[length us := e']))\<rparr>"
  note h3 = refresh_blocks [OF r s e_def h1_def c h3_def [unfolded e'_def], folded e'_def]
  have "dict_wf h3 dp d (es[length us := e']) (us @ Some (k, w') # ts) \<and>
    step_mem (footprint dp d es) (footprint dp d (es[length us := e']) \<union> {}) h h3"
  proof (rule wf_change [OF r s e_def h3(1-3) _ _ _ h3(4)])
    show "distinct (map fst (filled (us @ Some (k, w') # ts)))"
      using r unfolding dict_wf_def s by simp
    have "val_is h3 q w'" using h3(6) by (auto simp: val_is_def w' h3(7) load_Some)
    then show "entry_is h3 e' (Some (k, w'))"
      using e(4,6) h3(5) by (simp add: entry_is_def e'_def load_Some)
    show "distinct (own e')" using h3(6) by (auto simp: own_def e'_def)
    show "\<forall>p \<in> set (own e') - set (own e). brk h \<le> p"
      using cp(1) by (auto simp: own_entry e'_def h1_def)
    show "\<forall>p \<in> set (own e) - set (own e') - {}. blocks h3 p = None"
      using e(9) by (auto simp: own_entry e'_def h3(7))
    show "\<forall>p. p \<notin> {dp, d_entries d} \<union> set (own e) \<union> set (own e') \<longrightarrow> blocks h3 p = blocks h p"
      using heap_ok_NULL [OF b(7)] by (auto simp: own_entry e'_def h3(7))
  qed simp_all
  moreover have "orphans (es[length us := e']) = orphans es"
    using orphans_used [of "length us" es e'] e(2,6) by (simp add: e_def e'_def)
  moreover have "fails h = fails h3 + (if w' = None then 1 else 0)"
    using h3(8) by (simp add: w' split: if_splits)
  ultimately show ?thesis using run w' unfolding e'_def [symmetric] h3_def [symmetric] by auto
qed

text \<open>Growth: a full dictionary gets 128 more free slots, or stays as it is when \<open>calloc\<close> fails.\<close>

definition grow_fails :: "slot list \<Rightarrow> dheap \<Rightarrow> bool" where
  "grow_fails ss h \<longleftrightarrow> 2 ^ 64 \<le> (length ss + 128) * 24 \<or> next_answer h = Fail"

lemma resize_wf_room:
  "dict_wf h dp d es ss \<Longrightarrow> d_count d < d_size d \<Longrightarrow> dictionary_resize dp h = Some (0, h)"
  by (simp add: dictionary_resize_def dict_wf_def)

lemma resize_rep_room:
  "dict_rep h dp d es ss \<Longrightarrow> free_index ss \<noteq> None \<Longrightarrow> dictionary_resize dp h = Some (0, h)"
  using rep_full [of h dp d es ss] resize_wf_room [OF rep_wf] by simp

lemma unat_grow:
  assumes "dict_wf h dp d es ss"
  shows "unat (d_size d + DICTIONARY_MIN_SIZE) = length ss + 128"
proof -
  have "unat (d_size d) = length ss" "24 * length ss < 2 ^ 64"
    using wf_length [OF assms] assms by (simp_all add: dict_wf_def)
  then show ?thesis by (simp add: DICTIONARY_MIN_SIZE_def unat_word_ariths)
qed

lemma resize_wf_fail:
  assumes "dict_wf h dp d es ss" and "\<not> d_count d < d_size d" and "grow_fails ss h"
  shows "\<exists>h'. dictionary_resize dp h = Some (- 1, h') \<and> blocks h' = blocks h \<and> brk h' = brk h \<and>
    fails h' \<le> fails h"
proof -
  have "\<exists>h'. calloc_entries (d_size d + DICTIONARY_MIN_SIZE) h = (NULL, h') \<and>
    blocks h' = blocks h \<and> brk h' = brk h \<and> fails h' \<le> fails h"
    using assms(3) unat_grow [OF assms(1)] fails_step [of h]
    by (cases "2 ^ 64 \<le> (length ss + 128) * 24")
      (simp_all add: calloc_entries_def grow_fails_def heap_alloc_def)
  then obtain h' where "calloc_entries (d_size d + DICTIONARY_MIN_SIZE) h = (NULL, h')"
    "blocks h' = blocks h" "brk h' = brk h" "fails h' \<le> fails h" by blast
  then show ?thesis
    using assms by (auto simp: dictionary_resize_def dict_wf_def)
qed

definition grown :: "ptr \<Rightarrow> dict \<Rightarrow> dict_entry list \<Rightarrow> dheap \<Rightarrow> dict \<times> dict_entry list \<times> dheap" where
  "grown dp d es h =
     (let d' = d\<lparr>d_size := d_size d + DICTIONARY_MIN_SIZE, d_entries := brk h\<rparr>;
          es' = es @ replicate 128 zero_entry
      in (d', es', h\<lparr>blocks := (blocks h)(brk h \<mapsto> Entries es', d_entries d := None, dp \<mapsto> Dict d'),
                     brk := Suc (brk h), plan := tl (plan h)\<rparr>))"

lemma resize_wf_grown:
  assumes r: "dict_wf h dp d es ss" and full: "\<not> d_count d < d_size d" and g: "\<not> grow_fails ss h"
  shows "dictionary_resize dp h = Some (0, snd (snd (grown dp d es h)))"
proof -
  note b = wf_blocks [OF r]
  have new: "brk h \<noteq> NULL" "brk h \<noteq> dp" "brk h \<noteq> d_entries d"
    using heap_ok_brk_pos [OF b(7)] heap_ok_brk [OF b(7)] b(1,2) by auto
  have size: "unat (d_size d + DICTIONARY_MIN_SIZE) = length ss + 128" "unat (d_size d) = length ss"
    "length es = length ss"
    using unat_grow [OF r] wf_length [OF r] by simp_all
  then have "es @ drop (length ss) (replicate (length ss + 128) zero_entry) = es @ replicate 128 zero_entry"
    by simp
  then show ?thesis
    using b r full g new size
    by (simp add: dictionary_resize_def dict_wf_def calloc_entries_def grow_fails_def heap_alloc_def
        load_entries_def heap_load_def heap_store_def heap_free_def Let_def grown_def fun_upd_twist)
qed

lemma grown_wf:
  assumes r: "dict_wf h dp d es ss" and size: "(length ss + 128) * 24 < 2 ^ 64"
    and g: "grown dp d es h = (d', es', h')"
  shows "dict_wf h' dp d' es' (ss @ replicate 128 None)"
    and "\<forall>p s. blocks h p = Some (Str s) \<longrightarrow> blocks h' p = Some (Str s)"
    and "step_mem (footprint dp d es) (footprint dp d' es') h h'"
    and "d_count d' = d_count d" and "orphans es' = orphans es" and "length es' = length es + 128"
proof -
  note b = wf_blocks [OF r]
  have new: "brk h \<noteq> NULL" "brk h \<noteq> dp" "brk h \<noteq> d_entries d" "blocks h (brk h) = None"
    using heap_ok_brk_pos [OF b(7)] heap_ok_brk [OF b(7)] b(1,2) by auto
  have es': "es' = es @ replicate 128 zero_entry"
    and d': "d' = d\<lparr>d_size := d_size d + DICTIONARY_MIN_SIZE, d_entries := brk h\<rparr>"
    and h': "blocks h' = (blocks h)(brk h \<mapsto> Entries es', d_entries d := None, dp \<mapsto> Dict d')"
      "brk h' = Suc (brk h)"
    using g by (auto simp: grown_def Let_def)
  show "d_count d' = d_count d" "orphans es' = orphans es" "length es' = length es + 128"
    by (simp_all add: d' es')
  show str: "\<forall>p s. blocks h p = Some (Str s) \<longrightarrow> blocks h' p = Some (Str s)"
    using b(1,2) new by (auto simp: h')
  have "heap_ok h'" using b(1,7) heap_live_pos [OF b(7,1)] heap_live_lt_brk [OF b(7,1)]
    by (auto simp: heap_ok_def h' less_Suc_eq)
  moreover have "\<forall>p \<in> set (owned es). blocks h' p = blocks h p"
    using str b(3) by (metis (no_types, lifting))
  then have "list_all2 (entry_is h') es ss"
    using r entries_frame [of h es ss h'] by (simp add: dict_wf_def)
  then have "list_all2 (entry_is h') es' (ss @ replicate 128 None)"
    unfolding es' by (rule list_all2_appendI)
      (auto simp: list_all2_conv_all_nth entry_is_def zero_entry_def)
  ultimately show "dict_wf h' dp d' es' (ss @ replicate 128 None)"
    using r b new size unat_grow [OF r] wf_length [OF r] by (simp add: dict_wf_def load_Some es' d' h')
  show "step_mem (footprint dp d es) (footprint dp d' es') h h'"
    using b(8,9) new by (auto simp: step_mem_def footprint_def es' d' h')
qed

subsection \<open>A new key\<close>

text \<open>What \<open>dictionary_add\<close> does for a key that is absent, after the array has room.\<close>

definition insert_free :: "ptr \<Rightarrow> ptr \<Rightarrow> ptr \<Rightarrow> u32 \<Rightarrow> dheap \<Rightarrow> (int \<times> dheap) option" where
  "insert_free dp key val hash h = do {
     r \<leftarrow> dictionary_find_idx_by_empty dp h;
     case r of
       Inr idx \<Rightarrow> do {
         d \<leftarrow> load_dict dp h;
         e \<leftarrow> load_entry (d_entries d) idx h;
         (k, h) \<leftarrow> c_strdup key h;
         (v, h) \<leftarrow> (if val = NULL then Some (NULL, h) else c_strdup val h);
         h \<leftarrow> store_entry (d_entries d) idx (e\<lparr>e_hash := hash, e_key := k, e_val := v\<rparr>) h;
         h \<leftarrow> heap_store dp (Dict (d\<lparr>d_count := d_count d + 1\<rparr>)) h;
         Some (0, h) }
     | Inl _ \<Rightarrow> Some (- 1, h) }"

lemma add_absent:
  assumes "dict_wf h dp d es ss" and "load_str key h = Some k" and "key_index k ss = None"
    and "dictionary_resize dp h = Some (rc, h')"
  shows "dictionary_add dp key val h =
    (if rc < 0 then Some (- 1, h') else insert_free dp key val (hash_string k) h')"
proof -
  have "dictionary_hash key h = Some (hash_string k)" "key \<noteq> NULL"
    using assms(2) by (auto simp: dictionary_hash_def load_Some)
  then show ?thesis
    using find_key_wf [OF assms(1,2)] assms(3,4) wf_blocks(4) [OF assms(1)]
    by (simp add: dictionary_add_def insert_free_def)
qed

lemma insert_full:
  "dict_wf h dp d es ss \<Longrightarrow> free_index ss = None \<Longrightarrow> insert_free dp key val hash h = Some (- 1, h)"
  using find_empty_wf [of h dp d es ss] by (simp add: insert_free_def)

text \<open>The slot a new entry stands for, when the copies of its key and value gave \<open>kq\<close> and \<open>vq\<close>.\<close>

definition new_slot :: "string \<Rightarrow> string option \<Rightarrow> ptr \<Rightarrow> ptr \<Rightarrow> slot" where
  "new_slot k v kq vq = (if kq = NULL then None else Some (k, if vq = NULL then None else v))"

lemma insert_run:
  fixes hash :: u32
  assumes r: "dict_wf h dp d es ss" and free: "free_index ss = Some i"
    and k: "c_strdup key h = Some (kq, h1)" "copied (Some k) h kq h1"
    and v: "(if val = NULL then Some (NULL, h1) else c_strdup val h1) = Some (vq, h2)" "copied v h1 vq h2"
  defines "e' \<equiv> (es ! i)\<lparr>e_hash := hash, e_key := kq, e_val := vq\<rparr>"
    and "d' \<equiv> d\<lparr>d_count := d_count d + 1\<rparr>"
  shows "insert_free dp key val hash h = Some (0, h2\<lparr>blocks :=
    (blocks h2)(d_entries d \<mapsto> Entries (es[i := e']), dp \<mapsto> Dict d')\<rparr>)"
    and "blocks h2 dp = Some (Dict d)" and "blocks h2 (d_entries d) = Some (Entries es)"
proof -
  note b = wf_blocks [OF r]
  have i: "i < length ss" using free_index_Some [OF free] by auto
  show h2: "blocks h2 dp = Some (Dict d)" "blocks h2 (d_entries d) = Some (Entries es)"
    using b(1,2) [THEN copied_live(1) [OF k(2) b(7)], THEN copied_live(1) [OF v(2) copied_ptr(4) [OF k(2) b(7)]]] .
  have "store_entry (d_entries d) i e' h2 =
      Some (h2\<lparr>blocks := (blocks h2)(d_entries d \<mapsto> Entries (es[i := e']))\<rparr>)"
    using store_entry_result [OF h2(2) b(5), of i] i wf_length [OF r] by simp
  then show "insert_free dp key val hash h = Some (0, h2\<lparr>blocks :=
    (blocks h2)(d_entries d \<mapsto> Entries (es[i := e']), dp \<mapsto> Dict d')\<rparr>)"
    using r b(4,6) find_empty_wf [OF r] free wf_entry(1) [OF r i] k(1) v(1) h2(1)
    by (simp add: insert_free_def dict_wf_def heap_store_def e'_def d'_def)
qed

text \<open>The two copies of an insertion: new blocks, distinct from each other and from what was there.\<close>

lemma two_copies:
  assumes ok: "heap_ok h" and k: "load_str key h = Some k" and v: "val_is h val v"
  obtains kq h1 vq h2 where "c_strdup key h = Some (kq, h1)" "copied (Some k) h kq h1"
    "(if val = NULL then Some (NULL, h1) else c_strdup val h1) = Some (vq, h2)" "copied v h1 vq h2"
    "heap_ok h2" "brk h \<le> brk h2"
    "kq = NULL \<or> brk h \<le> kq" "vq = NULL \<or> brk h \<le> vq" "kq = NULL \<or> kq \<noteq> vq"
    "kq = NULL \<longleftrightarrow> next_answer h = Fail" "v = None \<Longrightarrow> vq = NULL"
    "kq \<noteq> NULL \<Longrightarrow> blocks h2 kq = Some (Str k)" "val_is h2 vq (if vq = NULL then None else v)"
    "fails h = fails h2 + (if kq = NULL then 1 else 0) + (if vq = NULL \<and> v \<noteq> None then 1 else 0)"
    "\<And>p. \<lbrakk>kq = NULL \<or> p \<noteq> kq; vq = NULL \<or> p \<noteq> vq\<rbrakk> \<Longrightarrow> blocks h2 p = blocks h p"
    "\<And>p b. \<lbrakk>blocks h p = Some b; p \<noteq> NULL\<rbrakk> \<Longrightarrow> kq \<noteq> p \<and> vq \<noteq> p"
proof -
  obtain kq h1 where dk: "c_strdup key h = Some (kq, h1)" and ck: "copied (Some k) h kq h1"
    using strdup_copied [OF k] by blast
  note k1 = copied_ptr [OF ck ok] copied_blocks [OF ck ok] copied_live [OF ck ok]
  obtain vq h2 where dv: "(if val = NULL then Some (NULL, h1) else c_strdup val h1) = Some (vq, h2)"
    and cv: "copied v h1 vq h2"
    using strdup_opt_copied [OF copied_val_is(1) [OF ck ok v]] by blast
  note v1 = copied_ptr [OF cv k1(4)] copied_blocks [OF cv k1(4)] copied_live [OF cv k1(4)]
  have key: "blocks h2 kq = Some (Str k)" if "kq \<noteq> NULL" using k1(7) [of kq] that by (intro v1(8)) simp
  show thesis
  proof (rule that [OF dk ck dv cv v1(4)])
    show "brk h \<le> brk h2" using k1(3) v1(3) by simp
    show "kq = NULL \<or> brk h \<le> kq" "vq = NULL \<or> brk h \<le> vq" "kq = NULL \<or> kq \<noteq> vq"
      using k1(1,3) v1(1) by (metis le_trans order_refl, metis le_trans order_refl, metis Suc_n_not_le_n)
    show "kq = NULL \<longleftrightarrow> next_answer h = Fail" using k1(2) by simp
    show "vq = NULL" if "v = None" using v1(2) that by simp
    show "val_is h2 vq (if vq = NULL then None else v)" by (rule copied_val_is(2) [OF cv k1(4)])
    show "fails h = fails h2 + (if kq = NULL then 1 else 0) + (if vq = NULL \<and> v \<noteq> None then 1 else 0)"
      using k1(5) v1(5) by simp
    show "blocks h2 p = blocks h p" if "kq = NULL \<or> p \<noteq> kq" "vq = NULL \<or> p \<noteq> vq" for p
      using that k1(7) v1(7) by auto
    show "kq \<noteq> p \<and> vq \<noteq> p" if "blocks h p = Some b" "p \<noteq> NULL" for p b
      using copied_ne [OF ck ok that] copied_ne [OF cv k1(4) k1(8) [OF that(1)] that(2)] by blast
  qed (use key in blast)
qed

lemma insert_room:
  assumes r: "dict_wf h dp d es ss" and k: "load_str key h = Some k" and v: "val_is h val v"
    and abs: "key_index k ss = None" and s: "ss = us @ None # ts"
    and free: "free_index ss = Some (length us)"
  shows "\<exists>h' es' kq vq. insert_free dp key val (hash_string k) h = Some (0, h') \<and>
    dict_wf h' dp (d\<lparr>d_count := d_count d + 1\<rparr>) es' (us @ new_slot k v kq vq # ts) \<and>
    step_mem (footprint dp d es) (footprint dp d es' \<union> set (orphans [es ! length us])) h h' \<and>
    length (orphans es') + length (orphans [es ! length us]) =
      length (orphans es) + (if kq = NULL \<and> vq \<noteq> NULL then 1 else 0) \<and>
    fails h = fails h' + (if kq = NULL then 1 else 0) + (if vq = NULL \<and> v \<noteq> None then 1 else 0) \<and>
    (kq = NULL \<longleftrightarrow> next_answer h = Fail)"
proof -
  note b = wf_blocks [OF r]
  define e where "e = es ! length us"
  have e: "e_key e = NULL" and i: "length us < length es"
    using wf_entry(2) [OF r, of "length us"] wf_length [OF r] s by (simp_all add: entry_is_def e_def)
  from two_copies [OF b(7) k v] obtain kq h1 vq h2
    where run: "c_strdup key h = Some (kq, h1)" "copied (Some k) h kq h1"
      "(if val = NULL then Some (NULL, h1) else c_strdup val h1) = Some (vq, h2)" "copied v h1 vq h2"
    and ok: "heap_ok h2" "brk h \<le> brk h2"
    and new: "kq = NULL \<or> brk h \<le> kq" "vq = NULL \<or> brk h \<le> vq" "kq = NULL \<or> kq \<noteq> vq"
    and copies: "kq = NULL \<longleftrightarrow> next_answer h = Fail" "v = None \<Longrightarrow> vq = NULL"
      "kq \<noteq> NULL \<Longrightarrow> blocks h2 kq = Some (Str k)" "val_is h2 vq (if vq = NULL then None else v)"
      "fails h = fails h2 + (if kq = NULL then 1 else 0) + (if vq = NULL \<and> v \<noteq> None then 1 else 0)"
    and frame: "\<And>p. \<lbrakk>kq = NULL \<or> p \<noteq> kq; vq = NULL \<or> p \<noteq> vq\<rbrakk> \<Longrightarrow> blocks h2 p = blocks h p"
    and ne: "\<And>p b. \<lbrakk>blocks h p = Some b; p \<noteq> NULL\<rbrakk> \<Longrightarrow> kq \<noteq> p \<and> vq \<noteq> p"
    by blast
  have nul: "blocks h2 NULL = blocks h NULL" by (rule frame) auto
  note h2 = insert_run(2,3) [OF r free run] and live = ne [OF b(1,4)] ne [OF b(2,5)]
  define e' where "e' = e\<lparr>e_hash := hash_string k, e_key := kq, e_val := vq\<rparr>"
  define d' where "d' = d\<lparr>d_count := d_count d + 1\<rparr>"
  define h' where "h' = h2\<lparr>blocks := (blocks h2)(d_entries d \<mapsto> Entries (es[length us := e']), dp \<mapsto> Dict d')\<rparr>"
  have "dict_wf h' dp d' (es[length us := e']) (us @ new_slot k v kq vq # ts) \<and>
    step_mem (footprint dp d es) (footprint dp d' (es[length us := e']) \<union> set (own e)) h h'"
  proof (rule wf_change [OF r s e_def])
    show "heap_ok h'" using heap_ok_upd [OF heap_ok_upd [OF ok(1) h2(2)], where p = dp and x = "Dict d"] h2(1) b(6)
      by (simp add: h'_def)
    show "distinct (map fst (filled (us @ new_slot k v kq vq # ts)))"
      using r abs unfolding dict_wf_def key_index_None s by (auto simp: new_slot_def)
    have "val_is h' vq (if vq = NULL then None else v)"
      using copies(4) live by (auto simp: val_is_def load_Some h'_def split: option.splits)
    moreover have "kq \<noteq> NULL \<Longrightarrow> blocks h' kq = Some (Str k)" using copies(3) live by (simp add: h'_def)
    ultimately show "entry_is h' e' (new_slot k v kq vq)"
      using copies(2) by (auto simp: entry_is_def e'_def load_Some new_slot_def val_is_def split: option.splits)
    show "distinct (own e')" using new(3) by (auto simp: own_def e'_def)
    show "\<forall>p \<in> set (own e') - set (own e). brk h \<le> p" using new(1,2) by (auto simp: own_entry e'_def)
    show "\<forall>p. p \<notin> {dp, d_entries d} \<union> set (own e) \<union> set (own e') \<longrightarrow> blocks h' p = blocks h p"
      using frame by (auto simp: own_entry e'_def h'_def nul)
  qed (use ok(2) b(6) in \<open>auto simp: d'_def h'_def\<close>)
  moreover have "length (orphans (es[length us := e'])) + length (orphans [e]) =
      length (orphans es) + (if kq = NULL \<and> vq \<noteq> NULL then 1 else 0)"
    using orphans_upd [OF i, of e', folded e_def] by (simp add: e'_def)
  moreover have "insert_free dp key val (hash_string k) h = Some (0, h')"
    using insert_run(1) [OF r free run, of "hash_string k"] by (simp add: h'_def e'_def d'_def e_def)
  moreover have "fails h' = fails h2" by (simp add: h'_def)
  moreover have "footprint dp d' es' = footprint dp d es'" for es' by (simp add: footprint_def d'_def)
  ultimately show ?thesis
    using copies(1,5) unfolding own_free [OF e] e_def [symmetric] d'_def [symmetric] by metis
qed

subsection \<open>Deletion\<close>

lemma del_absent:
  assumes "dict_wf h dp d es ss" and "load_str key h = Some k" and "key_index k ss = None"
  shows "dictionary_del dp key h = Some h"
proof -
  have "dictionary_hash key h = Some (hash_string k)" "key \<noteq> NULL"
    using assms(2) by (auto simp: dictionary_hash_def load_Some)
  then show ?thesis
    using find_key_wf [OF assms(1,2)] assms(3) wf_blocks(4) [OF assms(1)] by (simp add: dictionary_del_def)
qed

text \<open>Deletion of a key in use.\<close>

lemma del_run:
  assumes r: "dict_wf h dp d es ss" and k: "load_str key h = Some k"
    and s: "ss = us @ Some (k, v) # ts" and i: "key_index k ss = Some (length us)"
    and e_def: "e = es ! length us"
    and h2_def: "h2 = h\<lparr>blocks := (blocks h)(e_key e := None, e_val e := None)\<rparr>"
  shows "heap_ok h2"
    and "dictionary_del dp key h = Some (h2\<lparr>blocks := (blocks h2)(d_entries d \<mapsto> Entries (es[length us := zero_entry]),
      dp \<mapsto> Dict (d\<lparr>d_count := d_count d - 1\<rparr>))\<rparr>)"
proof -
  note b = wf_blocks [OF r]
  note e = wf_key_entry [OF r s, folded e_def]
  have key: "key \<noteq> NULL" "dictionary_hash key h = Some (hash_string k)"
    using k by (auto simp: dictionary_hash_def load_Some)
  define h1 where "h1 = h\<lparr>blocks := (blocks h)(e_key e := None)\<rparr>"
  have h2: "h2 = h1\<lparr>blocks := (blocks h1)(e_val e := None)\<rparr>" by (simp add: h2_def h1_def)
  have ok1: "heap_ok h1" unfolding h1_def by (rule heap_ok_del [OF b(7)])
  then show "heap_ok h2" unfolding h2 by (rule heap_ok_del)
  have f1: "heap_free (e_key e) h = Some h1" using e(3,6) by (simp add: heap_free_def h1_def)
  have "e_val e = NULL \<or> blocks h1 (e_val e) \<noteq> None" using e(7,10) by (simp add: h1_def)
  note f2 = free_opt [OF ok1 this, folded h2]
  have live: "blocks h2 dp = Some (Dict d)" "blocks h2 (d_entries d) = Some (Entries es)"
    using b(1,2) e(8,9) by (simp_all add: h2_def)
  show "dictionary_del dp key h = Some (h2\<lparr>blocks := (blocks h2)(d_entries d \<mapsto> Entries (es[length us := zero_entry]),
      dp \<mapsto> Dict (d\<lparr>d_count := d_count d - 1\<rparr>))\<rparr>)"
    using key b(4,6) r f1 f2 live(1) find_key_wf [OF r k] i e(1) store_entry_result [OF live(2) b(5) e(2)]
    by (simp add: dictionary_del_def dict_wf_def heap_store_def zero_entry_def)
qed

lemma del_wf:
  assumes r: "dict_wf h dp d es ss" and k: "load_str key h = Some k"
    and s: "ss = us @ Some (k, v) # ts" and i: "key_index k ss = Some (length us)"
  shows "\<exists>h' d' es'. dictionary_del dp key h = Some h' \<and> plan h' = plan h \<and>
    dict_wf h' dp d' es' (us @ None # ts) \<and> d_count d' = d_count d - 1 \<and> orphans es' = orphans es \<and>
    step_mem (footprint dp d es) (footprint dp d' es') h h'"
proof -
  note b = wf_blocks [OF r]
  define e where "e = es ! length us"
  note e = wf_key_entry [OF r s, folded e_def]
  define h2 where "h2 = h\<lparr>blocks := (blocks h)(e_key e := None, e_val e := None)\<rparr>"
  define d' where "d' = d\<lparr>d_count := d_count d - 1\<rparr>"
  define h4 where "h4 = h2\<lparr>blocks := (blocks h2)(d_entries d \<mapsto> Entries (es[length us := zero_entry]), dp \<mapsto> Dict d')\<rparr>"
  note del = del_run [OF r k s i e_def h2_def, folded d'_def, folded h4_def]
  have live: "blocks h2 dp = Some (Dict d)" "blocks h2 (d_entries d) = Some (Entries es)"
    using b(1,2) e(8,9) by (simp_all add: h2_def)
  have h4: "blocks h4 p = (if p = dp then Some (Dict d')
    else if p = d_entries d then Some (Entries (es[length us := zero_entry]))
    else if p = e_key e \<or> p = e_val e then None else blocks h p)" for p
    by (simp add: h4_def h2_def)
  have "dict_wf h4 dp d' (es[length us := zero_entry]) (us @ None # ts) \<and>
    step_mem (footprint dp d es) (footprint dp d' (es[length us := zero_entry]) \<union> {}) h h4"
  proof (rule wf_change [OF r s e_def])
    show "heap_ok h4" using heap_ok_upd [OF heap_ok_upd [OF del(1) live(2)], where p = dp and x = "Dict d"] live(1) b(6)
      by (simp add: h4_def)
    show "brk h \<le> brk h4" by (simp add: h4_def h2_def)
    show "blocks h4 dp = Some (Dict d')" by (simp add: h4)
    show "blocks h4 (d_entries d) = Some (Entries (es[length us := zero_entry]))"
      using b(6) by (simp add: h4)
    show "distinct (map fst (filled (us @ None # ts)))"
      using r unfolding dict_wf_def s by simp
    show "entry_is h4 zero_entry None" by (simp add: entry_is_def zero_entry_def)
    show "\<forall>p \<in> set (own e) - set (own zero_entry) - {}. blocks h4 p = None"
      using e(8,9) by (auto simp: own_entry h4)
    show "\<forall>p. p \<notin> {dp, d_entries d} \<union> set (own e) \<union> set (own zero_entry) \<longrightarrow>
        blocks h4 p = blocks h p"
      using heap_ok_NULL [OF b(7)] by (auto simp: own_entry h4)
  qed (simp_all add: d'_def)
  moreover have "orphans (es[length us := zero_entry]) = orphans es"
    using orphans_used [OF e(2)] e(6) by (simp add: e_def zero_entry_def)
  moreover have "plan h4 = plan h" "d_count d' = d_count d - 1"
    by (simp_all add: h4_def h2_def d'_def)
  ultimately show ?thesis using del(2) unfolding Un_empty_right by blast
qed

lemma del_rep:
  assumes r: "dict_rep h dp d es ss" and k: "load_str key h = Some k"
    and s: "ss = us @ Some (k, v) # ts" and i: "key_index k ss = Some (length us)"
  shows "\<exists>h' d' es'. dictionary_del dp key h = Some h' \<and> plan h' = plan h \<and>
    dict_rep h' dp d' es' (us @ None # ts) \<and>
    step_mem (footprint dp d es) (footprint dp d' es') h h'"
proof -
  have "d_count d - 1 = of_nat (length (filled (us @ None # ts)))"
    using rep_exact [OF r] s by (simp add: dict_exact_def)
  then show ?thesis
    using del_wf [OF rep_wf [OF r] k s i] rep_exact [OF r] unfolding dict_rep_def dict_exact_def by metis
qed

end
