(* ===== verification/Dictionary_Spec.thy ===== *)
theory Dictionary_Spec
  imports Dictionary_Ops Ctypes
begin

text \<open>
  The dictionary as a finite map from strings: creation, destruction and output, and the contract
  \<open>string_dict\<close> a client relies on with its interpretation on \<open>lib/dictionary.c\<close>.
\<close>

subsection \<open>Insertion on the slots\<close>

definition slots_add :: "string \<Rightarrow> string option \<Rightarrow> slot list \<Rightarrow> slot list" where
  "slots_add k v ss = (case key_index k ss of
     Some i \<Rightarrow> ss[i := Some (k, v)]
   | None \<Rightarrow> (case free_index ss of
       Some i \<Rightarrow> ss[i := Some (k, v)]
     | None \<Rightarrow> ss @ Some (k, v) # replicate 127 None))"

lemma slots_add_map:
  assumes "distinct (map fst (filled ss))"
  shows "slots_map (slots_add k v ss) = (slots_map ss)(k \<mapsto> v)"
proof (cases "key_index k ss")
  case (Some i)
  then obtain us w ts where "ss = us @ Some (k, w) # ts" "length us = i"
    using key_index_Some by blast
  then show ?thesis using assms Some slots_map_at(2) [of us k w ts v] by (auto simp: slots_add_def)
next
  case abs: None
  show ?thesis
  proof (cases "free_index ss")
    case (Some i)
    then obtain us ts where "ss = us @ None # ts" "length us = i" using free_index_Some by blast
    then show ?thesis
      using abs Some slots_map_new [of k us ts v] by (auto simp: slots_add_def)
  next
    case None
    have "key_index k (ss @ None # replicate 127 None) = None"
      using abs by (auto simp: key_index_None)
    from slots_map_new [OF this, of v] None abs show ?thesis by (simp add: slots_add_def slots_map_def)
  qed
qed

lemma slots_map_dom: "dom (slots_map ss) = fst ` set (filled ss)"
  by (simp add: slots_map_def dom_map_of_conv_image_fst)

lemma card_slots_map:
  "distinct (map fst (filled ss)) \<Longrightarrow> card (dom (slots_map ss)) = length (filled ss)"
  unfolding slots_map_dom by (metis distinct_card length_map set_map)

text \<open>Adding a pair, when no allocation fails and the array can still grow.\<close>

definition can_grow :: "slot list \<Rightarrow> bool" where
  "can_grow ss \<longleftrightarrow> free_index ss \<noteq> None \<or> (length ss + 128) * 24 < 2 ^ 64"

lemma insert_rep:
  assumes r: "dict_rep h dp d es ss" and k: "load_str key h = Some k" and v: "val_is h val v"
    and abs: "key_index k ss = None" and free: "free_index ss = Some i" and mem: "no_oom h"
  shows "\<exists>h' d' es'. insert_free dp key val (hash_string k) h = Some (0, h') \<and>
    dict_rep h' dp d' es' (ss[i := Some (k, v)]) \<and> no_oom h' \<and>
    step_mem (footprint dp d es) (footprint dp d' es') h h'"
proof -
  obtain us ts where s: "ss = us @ None # ts" "length us = i" using free_index_Some [OF free] by blast
  define d' where "d' = d\<lparr>d_count := d_count d + 1\<rparr>"
  obtain h' es' kq vq where i: "insert_free dp key val (hash_string k) h = Some (0, h')"
    "dict_wf h' dp d' es' (us @ new_slot k v kq vq # ts)"
    "step_mem (footprint dp d es) (footprint dp d es' \<union> set (orphans [es ! i])) h h'"
    "length (orphans es') + length (orphans [es ! i]) =
      length (orphans es) + (if kq = NULL \<and> vq \<noteq> NULL then 1 else 0)"
    "fails h = fails h' + (if kq = NULL then 1 else 0) + (if vq = NULL \<and> v \<noteq> None then 1 else 0)"
    using insert_room [OF rep_wf [OF r] k v abs s(1)] free s(2) unfolding d'_def by metis
  have mem': "fails h' = 0" and kq: "kq \<noteq> NULL" "vq = NULL \<longrightarrow> v = None"
    using i(5) mem by (auto simp: no_oom_fails split: if_splits)
  have ex: "orphans es = []" "d_count d = of_nat (length (filled ss))"
    using rep_exact [OF r] by (simp_all add: dict_exact_def)
  have or: "orphans es' = []" "orphans [es ! i] = []" using i(4) kq(1) ex(1) by (simp_all del: orphans_simps)
  have slot: "us @ new_slot k v kq vq # ts = ss[i := Some (k, v)]"
    using s kq by (auto simp: new_slot_def)
  have "d_count d' = of_nat (length (filled (ss[i := Some (k, v)])))"
    using ex(2) s by (auto simp: d'_def)
  then have "dict_rep h' dp d' es' (ss[i := Some (k, v)])"
    using i(2) or(1) by (simp add: dict_rep_def dict_exact_def slot)
  moreover have "step_mem (footprint dp d es) (footprint dp d' es') h h'"
    using i(3) or(2) by (simp add: footprint_def d'_def)
  ultimately show ?thesis using i(1) mem' unfolding no_oom_fails by blast
qed

lemma refresh_rep:
  assumes r: "dict_rep h dp d es ss" and k: "load_str key h = Some k" and w: "load_str val h = Some w"
    and i: "key_index k ss = Some i" and sep: "val \<notin> footprint dp d es"
  defines "w' \<equiv> (if next_answer h = Fail then None else Some w)"
  shows "\<exists>h' es'. dictionary_add dp key val h = Some (if w' = None then - 1 else 0, h') \<and>
    dict_rep h' dp d es' (ss[i := Some (k, w')]) \<and> fails h = fails h' + (if w' = None then 1 else 0) \<and>
    step_mem (footprint dp d es) (footprint dp d es') h h'"
proof -
  obtain us v ts where s: "ss = us @ Some (k, v) # ts" "length us = i" using key_index_Some [OF i] by blast
  have "ss[i := Some (k, w')] = us @ Some (k, w') # ts" using s by auto
  moreover have "filled ss = filled us @ (k, v) # filled ts" by (simp add: s(1))
  ultimately show ?thesis
    using refresh_wf [OF rep_wf [OF r] k w s(1) _ own_outside [OF rep_wf [OF r] w sep, of "length us"]] i s rep_exact [OF r]
    unfolding w'_def dict_rep_def dict_exact_def by fastforce
qed

lemma grow_rep:
  assumes r: "dict_rep h dp d es ss" and full: "free_index ss = None" and g: "\<not> grow_fails ss h"
  shows "\<exists>h' d' es'. dictionary_resize dp h = Some (0, h') \<and>
    dict_rep h' dp d' es' (ss @ replicate 128 None) \<and> fails h' = fails h \<and>
    (\<forall>p s. blocks h p = Some (Str s) \<longrightarrow> blocks h' p = Some (Str s)) \<and>
    step_mem (footprint dp d es) (footprint dp d' es') h h'"
proof -
  obtain d' es' h' where e: "grown dp d es h = (d', es', h')" by (metis surj_pair)
  have "(length ss + 128) * 24 < 2 ^ 64" "next_answer h \<noteq> Fail" using g by (simp_all add: grow_fails_def)
  moreover have "plan h' = tl (plan h)" using e by (auto simp: grown_def Let_def)
  ultimately show ?thesis
    using grown_wf [OF rep_wf [OF r] _ e] resize_wf_grown [OF rep_wf [OF r] _ g] e full rep_full [OF r]
      rep_exact [OF r] fails_step [of h]
    by (auto simp: dict_rep_def dict_exact_def fails_def)
qed

lemma add_rep:
  assumes r: "dict_rep h dp d es ss" and k: "load_str key h = Some k" and v: "val_is h val v"
    and refresh: "key_index k ss \<noteq> None \<longrightarrow> val \<noteq> NULL \<and> val \<notin> footprint dp d es"
    and grow: "key_index k ss = None \<longrightarrow> can_grow ss" and mem: "no_oom h"
  shows "\<exists>h' d' es'. dictionary_add dp key val h = Some (0, h') \<and>
    dict_rep h' dp d' es' (slots_add k v ss) \<and> no_oom h' \<and>
    step_mem (footprint dp d es) (footprint dp d' es') h h'"
proof (cases "key_index k ss")
  case (Some i)
  have "val \<noteq> NULL" "val \<notin> footprint dp d es" using refresh Some by simp_all
  moreover from this(1) obtain x where "v = Some x" "load_str val h = Some x"
    using v by (auto simp: val_is_def split: option.splits)
  ultimately show ?thesis
    using refresh_rep [OF r k _ Some] no_oom_next [OF mem] mem Some
    by (fastforce simp: slots_add_def no_oom_fails)
next
  case abs: None
  note add = add_absent [OF rep_wf [OF r] k abs, of _ _ val]
  show ?thesis
  proof (cases "free_index ss")
    case (Some i)
    then show ?thesis
      using insert_rep [OF r k v abs Some mem] add [OF resize_rep_room [OF r]] abs
      by (simp add: slots_add_def)
  next
    case full: None
    then have "\<not> grow_fails ss h"
      using grow abs no_oom_next [OF mem] by (auto simp: can_grow_def grow_fails_def)
    from grow_rep [OF r full this] obtain h1 d1 es1 where h1:
      "dictionary_resize dp h = Some (0, h1)" "dict_rep h1 dp d1 es1 (ss @ replicate 128 None)"
      "no_oom h1" "\<forall>p s. blocks h p = Some (Str s) \<longrightarrow> blocks h1 p = Some (Str s)"
      "step_mem (footprint dp d es) (footprint dp d1 es1) h h1"
      using mem unfolding no_oom_fails by auto
    have k1: "load_str key h1 = Some k" and v1: "val_is h1 val v"
      using k v h1(4) by (auto simp: load_Some val_is_def split: option.splits)
    have abs1: "key_index k (ss @ replicate 128 None) = None"
      using abs by (simp add: key_index_None)
    have free1: "free_index (ss @ replicate 128 None) = Some (length ss)"
      using full free_index_replicate by simp
    obtain h2 d2 es2 where h2: "insert_free dp key val (hash_string k) h1 = Some (0, h2)"
      "dict_rep h2 dp d2 es2 ((ss @ replicate 128 None)[length ss := Some (k, v)])" "no_oom h2"
      "step_mem (footprint dp d1 es1) (footprint dp d2 es2) h1 h2"
      using insert_rep [OF h1(2) k1 v1 abs1 free1 h1(3)] by blast
    moreover have "step_mem (footprint dp d es) (footprint dp d2 es2) h h2"
      using step_mem_trans [OF h1(5) h2(4)] heap_ok_above rep_blocks(7) [OF r] footprint_lt_brk [OF r]
      by blast
    moreover have "(ss @ replicate 128 None)[length ss := Some (k, v)] = slots_add k v ss"
      using abs full by (simp add: slots_add_def numeral_eq_Suc)
    ultimately show ?thesis using add [OF h1(1)] by auto
  qed
qed

subsection \<open>Creation\<close>

text \<open>The capacity \<open>dictionary_create\<close> computes: \<open>ALIGN\<close> keeps only the low 32 bits.\<close>

definition capacity :: "size_t \<Rightarrow> nat" where
  "capacity sz = (max 128 (unat sz) + 127) mod 2 ^ 32 div 128 * 128"

lemma unat_ALIGN_u: "unat (ALIGN_u x 0x7f) = (unat x + 127) mod 2 ^ 32 div 128 * 128"
proof -
  have "ucast (NOT (0x7f :: u32)) = (mask 32 AND NOT (mask 7) :: u64)"
    by (simp add: mask_eq_exp_minus_1)
  moreover have "ucast (0x7f :: u32) = (127 :: u64)" by simp
  ultimately have "ALIGN_u x 0x7f = take_bit 32 (x + 127) AND NOT (mask 7)"
    unfolding ALIGN_u_def take_bit_eq_mask and.assoc by simp
  then have "unat (ALIGN_u x 0x7f) = unat (take_bit 32 (x + 127)) div 2 ^ 7 * 2 ^ 7"
    by (simp only: unat_and_not_mask)
  also have "unat (take_bit 32 (x + 127)) = (unat x + 127) mod 2 ^ 64 mod 2 ^ 32"
    by (simp add: unsigned_take_bit_eq take_bit_eq_mod unat_word_ariths)
  also have "\<dots> = (unat x + 127) mod 2 ^ 32" by (rule mod_mod_cancel) simp
  finally show ?thesis by simp
qed

lemma capacity_small: "capacity sz * 24 < 2 ^ 64" "capacity sz < 2 ^ 32"
proof -
  have "(max 128 (unat sz) + 127) mod 2 ^ 32 < 2 ^ 32" by simp
  moreover have "n div 128 * 128 \<le> n" for n :: nat by simp
  ultimately show "capacity sz < 2 ^ 32" unfolding capacity_def by (meson le_less_trans)
  then show "capacity sz * 24 < 2 ^ 64" by simp
qed

lemma create_size: "unat (ALIGN_u (if sz < DICTIONARY_MIN_SIZE then DICTIONARY_MIN_SIZE else sz) 0x7f) = capacity sz"
  by (simp add: unat_ALIGN_u capacity_def DICTIONARY_MIN_SIZE_def word_less_nat_alt max_def)

lemma create_rep:
  assumes ok: "heap_ok h" and a: "Fail \<notin> set (take 2 (plan h))"
  shows "\<exists>dp d es h'. dictionary_create sz h = Some (dp, h') \<and>
    dict_rep h' dp d es (replicate (capacity sz) None) \<and> plan h' = tl (tl (plan h)) \<and>
    step_mem {} (footprint dp d es) h h'"
proof -
  define z where "z = ALIGN_u (if sz < DICTIONARY_MIN_SIZE then DICTIONARY_MIN_SIZE else sz) 0x7f"
  define d where "d = \<lparr>d_count = 0, d_size = z, d_entries = Suc (brk h)\<rparr>"
  define es where "es = replicate (capacity sz) zero_entry"
  define h' where "h' = h\<lparr>blocks := (blocks h)(brk h \<mapsto> Dict d, Suc (brk h) \<mapsto> Entries es),
    brk := Suc (Suc (brk h)), plan := tl (tl (plan h))\<rparr>"
  have z: "unat z = capacity sz" unfolding z_def by (rule create_size)
  then have size: "unat (d_size d) = capacity sz" by (simp add: d_def)
  have ans: "next_answer h \<noteq> Fail" "next_answer (h\<lparr>plan := tl (plan h)\<rparr>) \<noteq> Fail"
    using a by (auto simp: take_two_answers)
  have "dictionary_create sz h = Some (brk h, h')"
    using ans z heap_ok_brk_pos [OF ok] capacity_small [of sz]
    unfolding dictionary_create_def Let_def z_def [symmetric]
    by (simp add: heap_alloc_def heap_store_def calloc_entries_def d_def es_def h'_def
        next_answer_def fun_upd_twist)
  moreover have "list_all2 (entry_is h') es (replicate (capacity sz) None)"
    by (simp add: es_def list_all2_conv_all_nth entry_is_def zero_entry_def)
  moreover have "heap_ok h'" using ok by (auto simp: heap_ok_def h'_def less_Suc_eq)
  ultimately show ?thesis
    using size heap_ok_brk_pos [OF ok] capacity_small [of sz]
    by (intro exI [of _ "brk h"] exI [of _ d] exI [of _ es] exI [of _ h'])
      (auto simp: dict_rep_def dict_wf_def dict_exact_def load_Some h'_def es_def step_mem_def footprint_def d_def)
qed

lemma create_fails:
  assumes ok: "heap_ok h" and a: "Fail \<in> set (take 2 (plan h))"
  shows "\<exists>h'. dictionary_create sz h = Some (NULL, h') \<and> blocks h' = blocks h"
proof (cases "next_answer h = Fail")
  case True
  then show ?thesis by (simp add: dictionary_create_def heap_alloc_def Let_def)
next
  case False
  define z where "z = ALIGN_u (if sz < DICTIONARY_MIN_SIZE then DICTIONARY_MIN_SIZE else sz) 0x7f"
  have z: "unat z = capacity sz" unfolding z_def by (rule create_size)
  from False have "next_answer (h\<lparr>plan := tl (plan h)\<rparr>) = Fail"
    using a by (auto simp: take_two_answers)
  then show ?thesis
    using False heap_ok_brk_pos [OF ok] heap_ok_brk [OF ok] capacity_small [of sz] z
    unfolding dictionary_create_def Let_def z_def [symmetric]
    by (simp add: heap_alloc_def heap_store_def calloc_entries_def heap_free_def next_answer_def
        fun_upd_idem)
qed

subsection \<open>Destruction\<close>

text \<open>One turn of the loop frees the strings of its entry.\<close>

lemma free_own:
  assumes d: "distinct (own e)" and A: "set (own e) \<inter> A = {}"
    and live: "\<forall>p \<in> set (own e). blocks h p \<noteq> None"
  shows "\<exists>h1. (if e_key e \<noteq> NULL then heap_free (e_key e) (drop_blocks A h) else Some (drop_blocks A h)) = Some h1 \<and>
    (if e_val e \<noteq> NULL then heap_free (e_val e) h1 else Some h1) = Some (drop_blocks (A \<union> set (own e)) h)"
proof (intro exI conjI)
  define B where "B = A \<union> ({e_key e} - {NULL})"
  have "e_key e \<noteq> NULL \<longrightarrow> e_key e \<notin> A \<and> blocks h (e_key e) \<noteq> None"
    using A live by (auto simp: own_entry)
  then show "(if e_key e \<noteq> NULL then heap_free (e_key e) (drop_blocks A h) else Some (drop_blocks A h)) =
      Some (drop_blocks B h)"
    by (simp add: heap_free_drop B_def)
  have "e_val e \<noteq> NULL \<longrightarrow> e_val e \<notin> B \<and> blocks h (e_val e) \<noteq> None"
    using A live d unfolding B_def by (auto simp: own_def split: if_splits)
  moreover have "A \<union> set (own e) = (if e_val e \<noteq> NULL then insert (e_val e) B else B)"
    by (auto simp: B_def own_entry)
  ultimately show "(if e_val e \<noteq> NULL then heap_free (e_val e) (drop_blocks B h) else Some (drop_blocks B h)) =
      Some (drop_blocks (A \<union> set (own e)) h)"
    by (auto simp: heap_free_drop)
qed

lemma destroy_loop_wf:
  assumes r: "dict_wf h dp d es ss"
  shows "i \<le> length es \<Longrightarrow> destroy_loop d i (drop_blocks (set (owned (take i es))) h) =
    Some (drop_blocks (set (owned es)) h)"
proof (induction "length es - i" arbitrary: i)
  case 0
  then show ?case using wf_length [OF r] by (subst destroy_loop.simps) simp
next
  case (Suc n)
  then have i: "i < length es" by simp
  define e where "e = es ! i"
  define A where "A = set (owned (take i es))"
  note b = wf_blocks [OF r]
  have tk: "owned (take (Suc i) es) = owned (take i es) @ own e"
    using i by (simp add: take_Suc_conv_app_nth e_def)
  have "distinct (owned es)" using r by (simp add: dict_wf_def)
  moreover have "owned es = owned (take (Suc i) es) @ owned (drop (Suc i) es)"
    by (metis append_take_drop_id owned_simps(3))
  ultimately have own: "distinct (own e)" "set (own e) \<inter> A = {}" and
    sub: "A \<union> set (own e) \<subseteq> set (owned es)"
    unfolding tk A_def by auto
  have "\<forall>p \<in> set (own e). blocks h p \<noteq> None" using sub b(3) by fastforce
  from free_own [OF own this] obtain h1 where h1:
    "(if e_key e \<noteq> NULL then heap_free (e_key e) (drop_blocks A h) else Some (drop_blocks A h)) = Some h1"
    "(if e_val e \<noteq> NULL then heap_free (e_val e) h1 else Some h1) = Some (drop_blocks (A \<union> set (own e)) h)"
    by blast
  have "d_entries d \<notin> A" using b(9) sub by blast
  then have ld: "load_entry (d_entries d) i (drop_blocks A h) = Some e"
    using b(2,5) i by (simp add: load_entry_def load_entries_def heap_load_def e_def)
  have "A \<union> set (own e) = set (owned (take (Suc i) es))" unfolding tk A_def by simp
  then have "destroy_loop d (Suc i) (drop_blocks (A \<union> set (own e)) h) = Some (drop_blocks (set (owned es)) h)"
    using Suc.hyps i by simp
  then show ?case
    using h1 ld i wf_length [OF r] unfolding A_def [symmetric]
    by (subst destroy_loop.simps) (simp del: not_gr_zero)
qed

lemma destroy_wf:
  assumes r: "dict_wf h dp d es ss"
  shows "dictionary_destroy dp h = Some (drop_blocks (insert dp (set (owned es))) h)"
  using destroy_loop_wf [OF r, of 0] wf_blocks [OF r] r
  by (simp add: dictionary_destroy_def dict_wf_def heap_free_drop)

lemmas destroy_rep = destroy_wf [OF rep_wf]

subsection \<open>Output\<close>

lemma dump_loop_wf:
  assumes r: "dict_wf h dp d es ss"
  shows "i \<le> length ss \<Longrightarrow> dump_loop d i h =
    Some (concat (map (\<lambda>(k, v). dump_line (hash_string k) k v) (filled (drop i ss))))"
proof (induction "length ss - i" arbitrary: i)
  case 0
  then show ?case using wf_length [OF r] by (subst dump_loop.simps) simp
next
  case (Suc n)
  then have i: "i < length ss" by simp
  note e = wf_entry [OF r i]
  have IH: "dump_loop d (Suc i) h =
    Some (concat (map (\<lambda>(k, v). dump_line (hash_string k) k v) (filled (drop (Suc i) ss))))"
    using Suc.hyps i by simp
  have d: "drop i ss = ss ! i # drop (Suc i) ss" using i by (simp add: Cons_nth_drop_Suc)
  show ?case
  proof (cases "ss ! i")
    case None
    then show ?thesis
      using e IH entry_key_NULL [OF e(2)] unfolding d by (subst dump_loop.simps) simp
  next
    case (Some kv)
    then obtain k v where kv: "ss ! i = Some (k, v)" by (cases kv) auto
    then have "load_str (e_key (es ! i)) h = Some k" "e_hash (es ! i) = hash_string k"
      "e_key (es ! i) \<noteq> NULL" "val_is h (e_val (es ! i)) v"
      using e(2) kv entry_key_NULL [OF e(2)] by (auto simp: entry_is_def)
    moreover have "load_str NULL h = None" by (simp add: load_str_def heap_load_def)
    ultimately show ?thesis
      using e(1,3) IH kv unfolding d
      by (subst dump_loop.simps) (cases "e_val (es ! i) = NULL"; auto simp: val_is_def split: option.splits)
  qed
qed

lemma dump_wf:
  assumes r: "dict_wf h dp d es ss"
  shows "dictionary_dump dp True h =
    Some (if d_count d = 0 then [] else concat (map (\<lambda>(k, v). dump_line (hash_string k) k v) (filled ss)))"
  using dump_loop_wf [OF r, of 0] wf_blocks [OF r] r by (simp add: dictionary_dump_def dict_wf_def)

lemma dump_rep:
  assumes r: "dict_rep h dp d es ss"
  shows "dictionary_dump dp True h =
    Some (concat (map (\<lambda>(k, v). dump_line (hash_string k) k v) (filled ss)))"
  using dump_wf [OF rep_wf [OF r]] rep_count [OF r] by (cases "filled ss = []") auto

subsection \<open>The contract of a dictionary\<close>

text \<open>
  \<open>is_dict h dp m fp\<close>: the dictionary at \<open>dp\<close> holds the map \<open>m\<close> and owns the blocks \<open>fp\<close>. The laws
  speak of maps only; \<open>frame fp fp' h h'\<close> is what an operation that turns the blocks \<open>fp\<close> into \<open>fp'\<close> promises
  about memory, among it that a client's strings outside \<open>fp\<close> survive and stay outside.
\<close>

locale string_dict =
  fixes is_dict :: "'h \<Rightarrow> ptr \<Rightarrow> (string \<rightharpoonup> string option) \<Rightarrow> ptr set \<Rightarrow> bool"
    and ready :: "'h \<Rightarrow> bool" and str :: "ptr \<Rightarrow> 'h \<Rightarrow> string option"
    and get :: "ptr \<Rightarrow> ptr \<Rightarrow> ptr \<Rightarrow> 'h \<Rightarrow> (ptr \<times> errno option) option"
    and add :: "ptr \<Rightarrow> ptr \<Rightarrow> ptr \<Rightarrow> 'h \<Rightarrow> (int \<times> 'h) option"
    and del :: "ptr \<Rightarrow> ptr \<Rightarrow> 'h \<Rightarrow> 'h option" and bound :: nat
    and frame :: "ptr set \<Rightarrow> ptr set \<Rightarrow> 'h \<Rightarrow> 'h \<Rightarrow> bool"
  assumes get_absent: "\<lbrakk>is_dict h dp m fp; str key h = Some k; m k = None\<rbrakk> \<Longrightarrow>
      get dp key dflt h = Some (dflt, Some ENOENT)"
    and get_unset: "\<lbrakk>is_dict h dp m fp; str key h = Some k; m k = Some None\<rbrakk> \<Longrightarrow>
      get dp key dflt h = Some (NULL, None)"
    and get_present: "\<lbrakk>is_dict h dp m fp; str key h = Some k; m k = Some (Some w)\<rbrakk> \<Longrightarrow>
      \<exists>p. get dp key dflt h = Some (p, None) \<and> str p h = Some w"
    and str_NULL: "str NULL h = None"
    and add_law: "\<lbrakk>is_dict h dp m fp; ready h; str key h = Some k; str val h = Some w;
        val \<notin> fp; card (dom m) < bound\<rbrakk> \<Longrightarrow>
      \<exists>h' fp'. add dp key val h = Some (0, h') \<and> is_dict h' dp (m(k \<mapsto> Some w)) fp' \<and> ready h' \<and> frame fp fp' h h'"
    and del_law: "\<lbrakk>is_dict h dp m fp; ready h; str key h = Some k\<rbrakk> \<Longrightarrow>
      \<exists>h' fp'. del dp key h = Some h' \<and> is_dict h' dp (m(k := None)) fp' \<and> ready h' \<and> frame fp fp' h h'"
    and finite_law: "is_dict h dp m fp \<Longrightarrow> finite (dom m)"
    and frame_refl: "frame fp fp h h"
    and frame_trans: "\<lbrakk>is_dict h dp m A; frame A B h h1; frame B C h1 h2\<rbrakk> \<Longrightarrow> frame A C h h2"
    and frame_str: "\<lbrakk>is_dict h dp m fp; frame fp fp' h h'; p \<notin> fp; str p h = Some s\<rbrakk> \<Longrightarrow>
      p \<notin> fp' \<and> str p h' = Some s"

text \<open>
  A client is a list of calls, on pointers in the program and on strings in the specification. It
  stops at the first \<open>dictionary_add\<close> that fails, and observes of a lookup whether there is an entry and
  the string found.
\<close>

datatype 'a dict_call = Add 'a 'a | Del 'a | Get 'a

fun run_calls ::
  "(ptr \<Rightarrow> 'h \<Rightarrow> string option) \<Rightarrow> (ptr \<Rightarrow> ptr \<Rightarrow> ptr \<Rightarrow> 'h \<Rightarrow> (ptr \<times> errno option) option) \<Rightarrow>
    (ptr \<Rightarrow> ptr \<Rightarrow> ptr \<Rightarrow> 'h \<Rightarrow> (int \<times> 'h) option) \<Rightarrow> (ptr \<Rightarrow> ptr \<Rightarrow> 'h \<Rightarrow> 'h option) \<Rightarrow>
    ptr \<Rightarrow> ptr dict_call list \<Rightarrow> 'h \<Rightarrow> (string option option list \<times> 'h) option" where
  "run_calls str get add del dp [] h = Some ([], h)"
| "run_calls str get add del dp (Add key val # cs) h =
     (case add dp key val h of
        Some (rc, h') \<Rightarrow> if rc = 0 then run_calls str get add del dp cs h' else None
      | None \<Rightarrow> None)"
| "run_calls str get add del dp (Del key # cs) h =
     (case del dp key h of Some h' \<Rightarrow> run_calls str get add del dp cs h' | None \<Rightarrow> None)"
| "run_calls str get add del dp (Get key # cs) h =
     (case get dp key NULL h of
        Some (p, er) \<Rightarrow> map_option (\<lambda>(rs, h'). ((if er = Some ENOENT then None else Some (str p h)) # rs, h'))
          (run_calls str get add del dp cs h)
      | None \<Rightarrow> None)"

fun spec_calls :: "string dict_call list \<Rightarrow> (string \<rightharpoonup> string option) \<Rightarrow>
    string option option list \<times> (string \<rightharpoonup> string option)" where
  "spec_calls [] m = ([], m)"
| "spec_calls (Add k w # cs) m = spec_calls cs (m(k \<mapsto> Some w))"
| "spec_calls (Del k # cs) m = spec_calls cs (m(k := None))"
| "spec_calls (Get k # cs) m = (case spec_calls cs m of (rs, m') \<Rightarrow> (m k # rs, m'))"

text \<open>The calls on pointers and those on strings correspond, and the pointers are the client's own.\<close>

abbreviation own_strings ::
  "(ptr \<Rightarrow> 'h \<Rightarrow> string option) \<Rightarrow> ptr set \<Rightarrow> 'h \<Rightarrow> ptr dict_call list \<Rightarrow> string dict_call list \<Rightarrow> bool" where
  "own_strings str fp h \<equiv> list_all2 (rel_dict_call (\<lambda>p s. p \<notin> fp \<and> str p h = Some s))"

context string_dict begin

lemma own_strings_step:
  assumes "is_dict h dp m fp" and "frame fp fp' h h'" and "own_strings str fp h cs ss"
  shows "own_strings str fp' h' cs ss"
  using assms(3)
  by (rule list_all2_mono) (auto elim!: dict_call.rel_mono_strong dest: frame_str [OF assms(1,2)])

lemma card_dom_upd: "is_dict h dp m fp \<Longrightarrow> card (dom (m(k := v))) \<le> Suc (card (dom m))"
  using finite_law card_insert_le_m1 [of "Suc (card (dom m))" "dom m" k]
    card_insert_if [of "dom m" k] card_Diff1_le [of "dom m" k]
  by (auto simp: card_insert_if le_SucI)

lemma run_calls_spec:
  "\<lbrakk>is_dict h dp m fp; ready h; card (dom m) + length cs \<le> bound; own_strings str fp h cs ss\<rbrakk> \<Longrightarrow>
   \<exists>h' fp'. run_calls str get add del dp cs h = Some (fst (spec_calls ss m), h') \<and> ready h' \<and>
     is_dict h' dp (snd (spec_calls ss m)) fp' \<and> frame fp fp' h h'"
proof (induction cs arbitrary: h m fp ss)
  case Nil
  then show ?case using frame_refl by auto
next
  case (Cons c cs)
  then obtain s ss' where ss: "ss = s # ss'" "rel_dict_call (\<lambda>p s. p \<notin> fp \<and> str p h = Some s) c s"
      "own_strings str fp h cs ss'"
    by (auto simp: list_all2_Cons1)
  have later: "\<exists>h' fp'. run_calls str get add del dp cs h1 = Some (fst (spec_calls ss' (m(k := v))), h') \<and> ready h' \<and>
      is_dict h' dp (snd (spec_calls ss' (m(k := v)))) fp' \<and> frame fp fp' h h'"
    if h1: "is_dict h1 dp (m(k := v)) fp1" "ready h1" "frame fp fp1 h h1" for h1 fp1 k v
  proof -
    have "card (dom (m(k := v))) + length cs \<le> bound"
      using Cons.prems(3) card_dom_upd [OF Cons.prems(1), of k v] by simp
    from Cons.IH [OF h1(1,2) this own_strings_step [OF Cons.prems(1) h1(3) ss(3)]] show ?thesis
      using frame_trans [OF Cons.prems(1) h1(3)] by blast
  qed
  show ?case
  proof (cases c)
    case (Add key val)
    then obtain k w where s: "s = Add k w" "str key h = Some k" "str val h = Some w" "val \<notin> fp"
      using ss(2) by (cases s) auto
    have "card (dom m) < bound" using Cons.prems(3) by simp
    from add_law [OF Cons.prems(1,2) s(2,3,4) this] show ?thesis using later Add s(1) ss(1) by fastforce
  next
    case (Del key)
    then obtain k where s: "s = Del k" "str key h = Some k" using ss(2) by (cases s) auto
    from del_law [OF Cons.prems(1,2) s(2)] show ?thesis using later Del s(1) ss(1) by fastforce
  next
    case (Get key)
    then obtain k where s: "s = Get k" "str key h = Some k" using ss(2) by (cases s) auto
    have "m(k := m k) = m" by simp
    from later [where k = k and v = "m k", unfolded this, OF Cons.prems(1,2) frame_refl] obtain h' fp' where
      h': "run_calls str get add del dp cs h = Some (fst (spec_calls ss' m), h')" "ready h'"
        "is_dict h' dp (snd (spec_calls ss' m)) fp'" "frame fp fp' h h'"
      by blast
    have "\<exists>p er. get dp key NULL h = Some (p, er) \<and> (if er = Some ENOENT then None else Some (str p h)) = m k"
      using get_absent [OF Cons.prems(1) s(2)] get_unset [OF Cons.prems(1) s(2)]
        get_present [OF Cons.prems(1) s(2), of _ NULL] str_NULL
      by (cases "m k"; fastforce)
    then show ?thesis using h' Get s(1) ss(1) by (auto split: prod.splits)
  qed
qed

text \<open>What was added last is found, what was deleted is not.\<close>

lemma add_get:
  assumes "is_dict h dp m fp" "ready h" "str key h = Some k" "str val h = Some w"
    "key \<notin> fp" "val \<notin> fp" "card (dom m) < bound"
  shows "\<exists>h' p. add dp key val h = Some (0, h') \<and> get dp key dflt h' = Some (p, None) \<and> str p h' = Some w"
proof -
  obtain h' fp' where h': "add dp key val h = Some (0, h')" "is_dict h' dp (m(k \<mapsto> Some w)) fp'" "frame fp fp' h h'"
    using add_law [OF assms(1-4,6,7)] by blast
  then show ?thesis
    using get_present [of h' dp "m(k \<mapsto> Some w)" fp' key k w] frame_str [OF assms(1) h'(3) assms(5,3)] by auto
qed

lemma del_get:
  assumes "is_dict h dp m fp" "ready h" "str key h = Some k" "key \<notin> fp"
  shows "\<exists>h'. del dp key h = Some h' \<and> get dp key dflt h' = Some (dflt, Some ENOENT)"
proof -
  obtain h' fp' where h': "del dp key h = Some h'" "is_dict h' dp (m(k := None)) fp'" "frame fp fp' h h'"
    using del_law [OF assms(1-3)] by blast
  then show ?thesis using get_absent [of h' dp "m(k := None)" fp' key k] frame_str [OF assms(1) h'(3) assms(4,3)] by auto
qed

end

definition is_dict :: "dheap \<Rightarrow> ptr \<Rightarrow> (string \<rightharpoonup> string option) \<Rightarrow> ptr set \<Rightarrow> bool" where
  "is_dict h dp m fp \<longleftrightarrow>
     (\<exists>d es ss. dict_rep h dp d es ss \<and> m = slots_map ss \<and> fp = footprint dp d es)"

lemma is_dictI: "dict_rep h dp d es ss \<Longrightarrow> is_dict h dp (slots_map ss) (footprint dp d es)"
  by (auto simp: is_dict_def)

lemma step_keeps_strings:
  assumes st: "step_mem fp fp' h h'" and ok: "heap_ok h" and p: "p \<notin> fp"
    and s: "load_str p h = Some s"
  shows "p \<notin> fp' \<and> load_str p h' = Some s"
proof -
  have b: "p \<noteq> NULL \<and> blocks h p = Some (Str s)" using s by (simp add: load_Some)
  have lt: "p < brk h" by (rule heap_live_lt_brk [OF ok conjunct2 [OF b]])
  have "p \<notin> fp'"
  proof
    assume "p \<in> fp'"
    then have "brk h \<le> p" using st p by (simp add: step_mem_def)
    then show False using lt by simp
  qed
  moreover from this have "blocks h' p = blocks h p" using st p by (simp add: step_mem_def)
  ultimately show ?thesis using b by (simp add: load_Some)
qed

text \<open>Up to \<open>2 ^ 59\<close> keys the array can grow.\<close>

lemma few_keys_grow:
  assumes "dict_rep h dp d es ss" and "card (dom (slots_map ss)) < 2 ^ 59"
  shows "can_grow ss"
proof (cases "free_index ss")
  case None
  then have "length ss < 2 ^ 59"
    using assms card_slots_map [of ss] by (simp add: free_index_None dict_rep_def dict_wf_def)
  then show ?thesis by (simp add: can_grow_def)
qed (simp add: can_grow_def)

lemma add_is_dict:
  assumes i: "is_dict h dp m fp" and mem: "no_oom h" and k: "load_str key h = Some k"
    and v: "load_str val h = Some w" and sep: "val \<notin> fp" and few: "card (dom m) < 2 ^ 59"
  shows "\<exists>h' fp'. dictionary_add dp key val h = Some (0, h') \<and>
    is_dict h' dp (m(k \<mapsto> Some w)) fp' \<and> no_oom h' \<and> step_mem fp fp' h h'"
proof -
  obtain d es ss where r: "dict_rep h dp d es ss" "m = slots_map ss" "fp = footprint dp d es"
    using i by (auto simp: is_dict_def)
  have "val_is h val (Some w)" "val \<noteq> NULL" using v by (auto simp: val_is_def load_Some)
  then obtain h' d' es' where "dictionary_add dp key val h = Some (0, h')"
    "dict_rep h' dp d' es' (slots_add k (Some w) ss)" "no_oom h'"
    "step_mem (footprint dp d es) (footprint dp d' es') h h'"
    using add_rep [OF r(1) k _ _ _ mem, of val "Some w"] few_keys_grow [OF r(1)] few r(2,3) sep by auto
  moreover have "slots_map (slots_add k (Some w) ss) = m(k \<mapsto> Some w)"
    using slots_add_map r(1,2) by (simp add: dict_rep_def dict_wf_def)
  ultimately show ?thesis using is_dictI r(3) by metis
qed

lemma del_is_dict:
  assumes i: "is_dict h dp m fp" and k: "load_str key h = Some k"
  shows "\<exists>h' fp'. dictionary_del dp key h = Some h' \<and> is_dict h' dp (m(k := None)) fp' \<and>
    plan h' = plan h \<and> step_mem fp fp' h h'"
proof -
  obtain d es ss where r: "dict_rep h dp d es ss" "m = slots_map ss" "fp = footprint dp d es"
    using i by (auto simp: is_dict_def)
  show ?thesis
  proof (cases "key_index k ss")
    case None
    have "dictionary_del dp key h = Some h" by (rule del_absent [OF rep_wf [OF r(1)] k None])
    moreover have "m(k := None) = m" using None r(2) slots_map_None [of ss k] by auto
    ultimately show ?thesis using i by auto
  next
    case (Some j)
    then obtain us v ts where s: "ss = us @ Some (k, v) # ts" "length us = j"
      using key_index_Some by blast
    have "slots_map (us @ None # ts) = m(k := None)"
      using slots_map_at(3) [of us k v ts] r(1,2) s by (simp add: dict_rep_def dict_wf_def)
    then show ?thesis
      using del_rep [OF r(1) k s(1)] Some s(2) r(3) is_dictI by metis
  qed
qed

interpretation dict: string_dict is_dict no_oom load_str dictionary_get dictionary_add dictionary_del "2 ^ 59" step_mem
proof
  fix h dp m fp key k dflt
  assume i: "is_dict h dp m fp" and k: "load_str key h = Some k"
  then obtain d es ss where r: "dict_rep h dp d es ss" "m = slots_map ss" by (auto simp: is_dict_def)
  show "m k = None \<Longrightarrow> dictionary_get dp key dflt h = Some (dflt, Some ENOENT)"
    and "m k = Some None \<Longrightarrow> dictionary_get dp key dflt h = Some (NULL, None)"
    using get_rep [OF r(1) k, of dflt] r(2) by (simp_all add: val_is_def)
  show "\<exists>p. dictionary_get dp key dflt h = Some (p, None) \<and> load_str p h = Some w"
    if "m k = Some (Some w)" for w
    using get_rep [OF r(1) k, of dflt] r(2) that by (auto simp: val_is_def)
  show "\<exists>h' fp'. dictionary_del dp key h = Some h' \<and> is_dict h' dp (m(k := None)) fp' \<and> no_oom h' \<and> step_mem fp fp' h h'"
    if "no_oom h"
    using del_is_dict [OF i k] that unfolding no_oom_def by metis
  show "\<exists>h' fp'. dictionary_add dp key val h = Some (0, h') \<and>
      is_dict h' dp (m(k \<mapsto> Some w)) fp' \<and> no_oom h' \<and> step_mem fp fp' h h'"
    if "no_oom h" "load_str val h = Some w" "val \<notin> fp" "card (dom m) < 2 ^ 59" for val w
    using add_is_dict [OF i that(1) k that(2-4)] .
next
  show "load_str NULL h = None" for h by (simp add: load_str_def heap_load_def)
  show "step_mem fp fp h h" for fp h by simp
next
  fix h dp m A
  assume "is_dict h dp m A"
  then obtain d es ss where r: "dict_rep h dp d es ss" "m = slots_map ss" "A = footprint dp d es" by (auto simp: is_dict_def)
  then show "finite (dom m)" by (simp add: slots_map_dom)
  show "step_mem A C h h2" if "step_mem A B h h1" "step_mem B C h1 h2" for B C h1 h2
    using step_mem_trans [OF that] heap_ok_above rep_blocks(7) [OF r(1)] footprint_lt_brk [OF r(1)] r(3) by blast
  show "p \<notin> fp' \<and> load_str p h' = Some s" if "step_mem A fp' h h'" "p \<notin> A" "load_str p h = Some s" for fp' h' p s
    using step_keeps_strings [OF that(1) rep_blocks(7) [OF r(1)] that(2,3)] .
qed

end
