(* ===== verification/Dictionary_Properties.thy ===== *)
theory Dictionary_Properties
  imports Dictionary_Spec
begin

text \<open>The properties of \<open>lib/dictionary.c\<close>, over the map a dictionary stands for.\<close>

subsection \<open>A small dictionary\<close>

text \<open>Block 1 is a dictionary of two slots holding \<open>k \<mapsto> v\<close>; the blocks 5, 6 and 7 are strings
  of the client.\<close>

definition sample_dict :: "answer list \<Rightarrow> dheap" where
  "sample_dict pl = \<lparr>blocks = [1 \<mapsto> Dict \<lparr>d_count = 1, d_size = 2, d_entries = 2\<rparr>,
     2 \<mapsto> Entries [\<lparr>e_hash = hash_string ''k'', e_key = 3, e_val = 4\<rparr>, zero_entry],
     3 \<mapsto> Str ''k'', 4 \<mapsto> Str ''v'', 5 \<mapsto> Str ''k'', 6 \<mapsto> Str ''l'', 7 \<mapsto> Str ''w''],
     brk = 8, plan = pl\<rparr>"

lemma sample_dict_rep:
  "dict_rep (sample_dict pl) 1 \<lparr>d_count = 1, d_size = 2, d_entries = 2\<rparr>
    [\<lparr>e_hash = hash_string ''k'', e_key = 3, e_val = 4\<rparr>, zero_entry] [Some (''k'', Some ''v''), None]"
  by (auto simp: dict_rep_def dict_wf_def dict_exact_def sample_dict_def heap_ok_def load_Some entry_is_def val_is_def zero_entry_def
      own_def)

lemma sample_own [simp]: "own \<lparr>e_hash = hash_string ''k'', e_key = 3, e_val = 4\<rparr> = [3, 4]"
  by (simp add: own_def)

lemma sample_is_dict: "is_dict (sample_dict pl) 1 [''k'' \<mapsto> Some ''v''] {1, 2, 3, 4}"
  using is_dictI [OF sample_dict_rep [of pl]]
  by (simp add: slots_map_def footprint_def insert_commute)

lemma sample_strings:
  "load_str 5 (sample_dict pl) = Some ''k''" "load_str 6 (sample_dict pl) = Some ''l''"
  "load_str 7 (sample_dict pl) = Some ''w''"
  by (simp_all add: sample_dict_def load_Some)

subsection \<open>Refinement of a finite map\<close>

text \<open>C1: \<open>dictionary_add\<close> updates the map: a key that is present gets the new value, one that is absent
  is added, whether or not the array has to grow. The dictionary frees what it gives up,
  allocates only new blocks and touches nothing else. This holds when no allocation fails and
  the value is not a string of the dictionary itself.\<close>

theorem dictionary_add_refines:
  assumes "is_dict h dp m fp" and "no_oom h" and "load_str key h = Some k"
    and "load_str val h = Some w" and "val \<notin> fp" and "card (dom m) < 2 ^ 59"
  shows "\<exists>h' fp'. dictionary_add dp key val h = Some (0, h') \<and>
    is_dict h' dp (m(k \<mapsto> Some w)) fp' \<and> step_mem fp fp' h h'"
  using add_is_dict [OF assms] by blast

theorem dictionary_add_refines_witness:
  "\<exists>h' fp'. dictionary_add 1 6 7 (sample_dict []) = Some (0, h') \<and>
     is_dict h' 1 [''k'' \<mapsto> Some ''v'', ''l'' \<mapsto> Some ''w''] fp' \<and>
     step_mem {1, 2, 3, 4} fp' (sample_dict []) h'"
  using dictionary_add_refines [OF sample_is_dict [of "[]"] _ sample_strings(2,3)]
  by (simp add: no_oom_def sample_dict_def)

text \<open>C6: \<open>dictionary_get\<close> on every branch: \<open>EINVAL\<close> and the default for null arguments, \<open>ENOENT\<close> and
  the default for a key the map does not have, else a pointer to the value, or \<open>NULL\<close> for a
  key without value.\<close>

theorem dictionary_get_refines:
  assumes "is_dict h dp m fp" and "load_str key h = Some k"
  shows "dictionary_get NULL key dflt h = Some (dflt, Some EINVAL) \<and>
    dictionary_get dp NULL dflt h = Some (dflt, Some EINVAL) \<and>
    (case m k of
       None \<Rightarrow> dictionary_get dp key dflt h = Some (dflt, Some ENOENT)
     | Some None \<Rightarrow> dictionary_get dp key dflt h = Some (NULL, None)
     | Some (Some w) \<Rightarrow> \<exists>p. dictionary_get dp key dflt h = Some (p, None) \<and> load_str p h = Some w)"
proof -
  obtain d es ss where r: "dict_rep h dp d es ss" "m = slots_map ss"
    using assms(1) by (auto simp: is_dict_def)
  have "dictionary_get NULL key dflt h = Some (dflt, Some EINVAL)"
    "dictionary_get dp NULL dflt h = Some (dflt, Some EINVAL)"
    by (simp_all add: dictionary_get_def)
  then show ?thesis
    using get_rep [OF r(1) assms(2), of dflt] r(2) by (auto simp: val_is_def split: option.splits)
qed

theorem dictionary_get_refines_witness:
  "\<exists>p. dictionary_get 1 5 NULL (sample_dict []) = Some (p, None) \<and>
     load_str p (sample_dict []) = Some ''v''"
  using dictionary_get_refines [OF sample_is_dict [of "[]"] sample_strings(1), of NULL] by simp

text \<open>C7: \<open>dictionary_del\<close> removes the key from the map, and frees its two strings and nothing else; a
  key that is absent leaves the dictionary alone.\<close>

theorem dictionary_del_refines:
  assumes "is_dict h dp m fp" and "load_str key h = Some k"
  shows "\<exists>h' fp'. dictionary_del dp key h = Some h' \<and> is_dict h' dp (m(k := None)) fp' \<and>
    step_mem fp fp' h h' \<and> (m k = None \<longrightarrow> h' = h)"
proof -
  obtain d es ss where r: "dict_rep h dp d es ss" "m = slots_map ss"
    using assms(1) by (auto simp: is_dict_def)
  have "dictionary_del dp key h = Some h" if "m k = None"
    using del_absent [OF rep_wf [OF r(1)] assms(2)] that r(2) slots_map_None [of ss k] by simp
  then show ?thesis using del_is_dict [OF assms] by fastforce
qed

theorem dictionary_del_refines_witness:
  "\<exists>h' fp'. dictionary_del 1 5 (sample_dict []) = Some h' \<and> is_dict h' 1 Map.empty fp' \<and>
     step_mem {1, 2, 3, 4} fp' (sample_dict []) h'"
  using dictionary_del_refines [OF sample_is_dict [of "[]"] sample_strings(1)] by auto

subsection \<open>Creation and destruction\<close>

text \<open>\<open>dictionary_create\<close> gives an empty dictionary, or \<open>NULL\<close> without a leak when one of its two
  allocations fails. Up to \<open>2 ^ 32 - 128\<close> its capacity is the least multiple of 128 that is at
  least 128 and the requested size.\<close>

theorem dictionary_create_empty:
  assumes "heap_ok h"
  shows "if Fail \<in> set (take 2 (plan h))
    then \<exists>h'. dictionary_create sz h = Some (NULL, h') \<and> blocks h' = blocks h
    else \<exists>dp d es h'. dictionary_create sz h = Some (dp, h') \<and>
      is_dict h' dp Map.empty (footprint dp d es) \<and> step_mem {} (footprint dp d es) h h' \<and>
      load_dict dp h' = Some d \<and>
      (unat sz \<le> 2 ^ 32 - 128 \<longrightarrow>
         unat sz \<le> unat (d_size d) \<and> 128 \<le> unat (d_size d) \<and> 128 dvd unat (d_size d) \<and>
         unat (d_size d) < max 128 (unat sz) + 128)"
proof (cases "Fail \<in> set (take 2 (plan h))")
  case False
  obtain dp d es h' where c: "dictionary_create sz h = Some (dp, h')"
    "dict_rep h' dp d es (replicate (capacity sz) None)" "step_mem {} (footprint dp d es) h h'"
    using create_rep [OF assms False] by blast
  have "is_dict h' dp Map.empty (footprint dp d es)"
    using is_dictI [OF c(2)] by (simp add: slots_map_def)
  moreover have "load_dict dp h' = Some d" using c(2) by (simp add: dict_rep_def dict_wf_def)
  moreover have "unat sz \<le> capacity sz \<and> 128 \<le> capacity sz \<and> 128 dvd capacity sz \<and>
      capacity sz < max 128 (unat sz) + 128" if "unat sz \<le> 2 ^ 32 - 128"
  proof -
    have "(max 128 (unat sz) + 127) mod 2 ^ 32 = max 128 (unat sz) + 128 - 1"
      using that by simp
    then show ?thesis
      using round_up_bounds [of 128 "max 128 (unat sz)"] by (simp add: capacity_def)
  qed
  ultimately show ?thesis using False c(1,3) rep_length [OF c(2)] by auto
qed (use create_fails [OF assms] in simp)

theorem dictionary_create_empty_witness:
  "\<exists>dp d es h'. dictionary_create 129 (heap_empty []) = Some (dp, h') \<and>
     is_dict h' dp Map.empty (footprint dp d es) \<and> unat (d_size d) = 256"
proof -
  have d: "x = 256" if "128 dvd x" "129 \<le> x" "x < 257" for x :: nat using that by presburger
  show ?thesis
    using dictionary_create_empty [OF heap_ok_empty [of "[]"], of 129] d
    by fastforce
qed

text \<open>A size of \<open>2 ^ 32\<close> or more is truncated: the mask of \<open>ALIGN\<close> is complemented as a 32-bit
  number, which clears the upper half of the size, and the dictionary gets less room than asked
  for, none at all for \<open>2 ^ 32\<close> itself.\<close>

theorem dictionary_create_truncates:
  assumes "2 ^ 32 \<le> unat sz" and "heap_ok h" and "Fail \<notin> set (take 2 (plan h))"
  shows "\<exists>dp d h'. dictionary_create sz h = Some (dp, h') \<and> load_dict dp h' = Some d \<and>
    unat (d_size d) < unat sz \<and> (sz = 2 ^ 32 \<longrightarrow> d_size d = 0)"
proof -
  obtain dp d es h' where c: "dictionary_create sz h = Some (dp, h')"
    "dict_rep h' dp d es (replicate (capacity sz) None)"
    using create_rep [OF assms(2,3)] by blast
  have "unat (d_size d) = capacity sz" using rep_length [OF c(2)] by simp
  moreover have "capacity sz < unat sz" using capacity_small(2) [of sz] assms(1) by simp
  moreover have "capacity (2 ^ 32) = 0" by (simp add: capacity_def)
  ultimately show ?thesis using c by (auto simp: dict_rep_def dict_wf_def unat_eq_0)
qed

theorem dictionary_create_truncates_witness:
  "\<exists>dp d h'. dictionary_create (2 ^ 32) (heap_empty []) = Some (dp, h') \<and>
     load_dict dp h' = Some d \<and> d_size d = 0"
  using dictionary_create_truncates [OF _ heap_ok_empty, of "2 ^ 32" "[]"] by auto

text \<open>\<open>dictionary_destroy\<close> frees each string once and the dictionary, and leaves its array of entries
  allocated: nothing else of the heap changes, and the array is lost.\<close>

theorem dictionary_destroy_leaks_array:
  assumes "dict_rep h dp d es ss"
  shows "\<exists>h'. dictionary_destroy dp h = Some h' \<and>
    blocks h' = (\<lambda>q. if q = dp \<or> q \<in> set (owned es) then None else blocks h q) \<and>
    blocks h' (d_entries d) = Some (Entries es)"
  using destroy_rep [OF assms] rep_blocks [OF assms]
  by (auto simp: drop_blocks_def)

theorem dictionary_destroy_leaks_array_witness:
  "\<exists>h'. dictionary_destroy 1 (sample_dict []) = Some h' \<and>
     blocks h' = (\<lambda>q. if q = 1 \<or> q \<in> {3, 4} then None else blocks (sample_dict []) q) \<and> blocks h' 2 \<noteq> None"
  using dictionary_destroy_leaks_array [OF sample_dict_rep [of "[]"]] by auto

subsection \<open>The life of a dictionary\<close>

text \<open>C9: a client that creates a dictionary, calls \<open>dictionary_add\<close>, \<open>dictionary_del\<close> and \<open>dictionary_get\<close> in any order on its
  own strings, and destroys the dictionary, observes the lookups of a finite map that starts
  empty. In the end its memory is what it was, but for one block, the array of entries that
  \<open>dictionary_destroy\<close> leaks.
\<close>

theorem dictionary_life:
  assumes "heap_ok h" and "no_oom h" and "length cs \<le> 2 ^ 59" and "own_strings load_str {} h cs ss"
  shows "\<exists>dp h1 h2 h3 arr es. dictionary_create sz h = Some (dp, h1) \<and>
    run_calls load_str dictionary_get dictionary_add dictionary_del dp cs h1 =
      Some (fst (spec_calls ss Map.empty), h2) \<and>
    dictionary_destroy dp h2 = Some h3 \<and> blocks h arr = None \<and> blocks h3 = (blocks h)(arr \<mapsto> Entries es)"
proof -
  have "Fail \<notin> set (take 2 (plan h))" using assms(2) by (auto simp: no_oom_def dest: in_set_takeD)
  then obtain dp d es h1 where c: "dictionary_create sz h = Some (dp, h1)"
    "dict_rep h1 dp d es (replicate (capacity sz) None)" "plan h1 = tl (tl (plan h))"
    "step_mem {} (footprint dp d es) h h1"
    using create_rep [OF assms(1)] by blast
  have i1: "is_dict h1 dp Map.empty (footprint dp d es)" using is_dictI [OF c(2)] by (simp add: slots_map_def)
  have oom: "no_oom h1" using assms(2) c(3) by (auto simp: no_oom_def dest!: in_set_tlD)
  have keep: "p \<notin> footprint dp d es \<and> load_str p h1 = Some s" if "load_str p h = Some s" for p s
    using step_keeps_strings [OF c(4) assms(1) _ that] by simp
  have own: "own_strings load_str (footprint dp d es) h1 cs ss"
    using assms(4) by (rule list_all2_mono) (auto elim!: dict_call.rel_mono_strong dest: keep)
  obtain h2 fp2 where r: "run_calls load_str dictionary_get dictionary_add dictionary_del dp cs h1 =
      Some (fst (spec_calls ss Map.empty), h2)" "is_dict h2 dp (snd (spec_calls ss Map.empty)) fp2"
      "step_mem (footprint dp d es) fp2 h1 h2"
    using dict.run_calls_spec [OF i1 oom _ own] assms(3) by auto
  obtain d2 es2 ss2 where r2: "dict_rep h2 dp d2 es2 ss2" "fp2 = footprint dp d2 es2"
    using r(2) by (auto simp: is_dict_def)
  have mem: "step_mem {} fp2 h h2"
    using step_mem_trans [OF c(4) r(3)] heap_ok_above [OF assms(1)] by simp
  define h3 where "h3 = drop_blocks (insert dp (set (owned es2))) h2"
  have new: "blocks h q = None" if "q \<in> fp2" for q
    using mem that heap_ok_above [OF assms(1)] by (auto simp: step_mem_def)
  have arr: "d_entries d2 \<notin> insert dp (set (owned es2))" "blocks h2 (d_entries d2) = Some (Entries es2)"
    using rep_blocks [OF r2(1)] by auto
  have "blocks h3 q = ((blocks h)(d_entries d2 \<mapsto> Entries es2)) q" for q
    using arr new [of q] mem r2(2) by (auto simp: h3_def footprint_def step_mem_def)
  then have "blocks h3 = (blocks h)(d_entries d2 \<mapsto> Entries es2)" by blast
  moreover have "blocks h (d_entries d2) = None" using new r2(2) by (simp add: footprint_def)
  moreover have "dictionary_destroy dp h2 = Some h3" unfolding h3_def by (rule destroy_rep [OF r2(1)])
  ultimately show ?thesis using c(1) r(1) by blast
qed

theorem dictionary_life_witness:
  "\<exists>dp h1 h2 h3. dictionary_create 0 (sample_dict []) = Some (dp, h1) \<and>
    run_calls load_str dictionary_get dictionary_add dictionary_del dp [Add 6 7, Get 6, Del 5, Get 5, Add 6 5, Get 6] h1 =
      Some ([Some (Some ''w''), None, Some (Some ''k'')], h2) \<and> dictionary_destroy dp h2 = Some h3"
proof -
  have "heap_ok (sample_dict [])" "no_oom (sample_dict [])" by (auto simp: sample_dict_def heap_ok_def no_oom_def)
  from dictionary_life [OF this, of "[Add 6 7, Get 6, Del 5, Get 5, Add 6 5, Get 6]"
      "[Add ''l'' ''w'', Get ''l'', Del ''k'', Get ''k'', Add ''l'' ''k'', Get ''l'']" 0]
  show ?thesis by (simp add: sample_strings) blast
qed

subsection \<open>Errors of dictionary_add\<close>

text \<open>\<open>dictionary_add\<close> under allocation failures, by branch. When a full array cannot grow the call
  fails and nothing changes. When the copy of a new value for a key in use fails the call fails
  too, but the key has lost its old value.\<close>

theorem dictionary_add_failures:
  assumes r: "dict_rep h dp d es ss" and k: "load_str key h = Some k" and w: "load_str val h = Some w"
    and sep: "val \<notin> footprint dp d es" and ans: "next_answer h = Fail"
  shows "(slots_map ss k = None \<and> free_index ss = None \<longrightarrow>
      (\<exists>h'. dictionary_add dp key val h = Some (- 1, h') \<and> blocks h' = blocks h)) \<and>
    (slots_map ss k \<noteq> None \<longrightarrow>
      (\<exists>h' fp'. dictionary_add dp key val h = Some (- 1, h') \<and>
        is_dict h' dp ((slots_map ss)(k \<mapsto> None)) fp' \<and> step_mem (footprint dp d es) fp' h h'))"
proof (intro conjI impI)
  have nz: "dictionary_hash key h = Some (hash_string k)" "key \<noteq> NULL" "val \<noteq> NULL"
    using k w by (auto simp: dictionary_hash_def load_Some)
  assume a: "slots_map ss k = None \<and> free_index ss = None"
  obtain h' where "dictionary_resize dp h = Some (- 1, h')" "blocks h' = blocks h"
    using resize_wf_fail [OF rep_wf [OF r]] a ans rep_full [OF r] by (auto simp: grow_fails_def)
  then show "\<exists>h'. dictionary_add dp key val h = Some (- 1, h') \<and> blocks h' = blocks h"
    using nz find_key_rep [OF r k] a rep_blocks(4) [OF r]
    by (auto simp: dictionary_add_def slots_map_None)
next
  assume "slots_map ss k \<noteq> None"
  then obtain i where i: "key_index k ss = Some i" using slots_map_None [of ss k] by auto
  then obtain us v ts where s: "ss = us @ Some (k, v) # ts" "length us = i"
    using key_index_Some by blast
  obtain h' es' where "dictionary_add dp key val h = Some (- 1, h')"
    "dict_rep h' dp d es' (ss[i := Some (k, None)])"
    "step_mem (footprint dp d es) (footprint dp d es') h h'"
    using refresh_rep [OF r k w i sep] ans by auto
  moreover have "ss[i := Some (k, None)] = us @ Some (k, None) # ts" using s by auto
  then have "slots_map (ss[i := Some (k, None)]) = (slots_map ss)(k \<mapsto> None)"
    using slots_map_at(2) [of us k v ts None] r s(1) by (simp add: dict_rep_def dict_wf_def)
  ultimately show "\<exists>h' fp'. dictionary_add dp key val h = Some (- 1, h') \<and>
      is_dict h' dp ((slots_map ss)(k \<mapsto> None)) fp' \<and> step_mem (footprint dp d es) fp' h h'"
    using is_dictI by metis
qed

theorem dictionary_add_failures_witness:
  "\<exists>h' fp'. dictionary_add 1 5 7 (sample_dict [Fail]) = Some (- 1, h') \<and>
     is_dict h' 1 [''k'' \<mapsto> None] fp'"
  using dictionary_add_failures [OF sample_dict_rep [of "[Fail]"] sample_strings(1,3)]
  by (auto simp: footprint_def slots_map_def next_answer_def sample_dict_def)

text \<open>When the copy of a new key fails, \<open>dictionary_add\<close> still reports success and counts an entry
  that does not exist: the key is not found afterwards.\<close>

theorem dictionary_add_loses_key:
  "\<exists>h'. dictionary_add 1 6 7 (sample_dict [Fail]) = Some (0, h') \<and>
     map_option d_count (load_dict 1 h') = Some 2 \<and>
     dictionary_get 1 6 NULL h' = Some (NULL, Some ENOENT)"
  by (simp add: sample_dict_def dictionary_add_def dictionary_hash_def load_str_def heap_load_def
      dictionary_find_idx_by_key_def load_dict_def find_key_loop.simps load_entry_def load_entries_def
      zero_entry_def dictionary_resize_def dictionary_find_idx_by_empty_def find_empty_loop.simps
      c_strdup_def heap_alloc_def next_answer_def store_entry_def heap_store_def dictionary_get_def)

text \<open>Refreshing a key is undefined when the new value is \<open>NULL\<close> (\<open>strdup(NULL)\<close>) and when it is the
  very string the dictionary holds for the key, which is freed before it is copied.\<close>

theorem dictionary_add_undefined:
  assumes r: "dict_rep h dp d es ss" and k: "load_str key h = Some k"
    and i: "key_index k ss = Some i" and v: "val = NULL \<or> val = e_val (es ! i)"
  shows "dictionary_add dp key val h = None"
proof -
  obtain us v ts where s: "ss = us @ Some (k, v) # ts" "length us = i"
    using key_index_Some [OF i] by blast
  note e = rep_key_entry [OF r s(1), unfolded s(2)]
  have nz: "dictionary_hash key h = Some (hash_string k)" "key \<noteq> NULL"
    using k by (auto simp: dictionary_hash_def load_Some)
  let ?h1 = "h\<lparr>blocks := (blocks h)(e_val (es ! i) := None)\<rparr>"
  have "load_str val ?h1 = None" using v by (auto simp: load_str_def heap_load_def)
  then show ?thesis
    using nz find_key_rep [OF r k] i rep_blocks(4) [OF r] e(1) r free_opt [OF rep_blocks(7) [OF r] e(10)]
    by (simp add: dictionary_add_def dict_rep_def dict_wf_def c_strdup_def)
qed

theorem dictionary_add_undefined_witness:
  "dictionary_add 1 5 4 (sample_dict []) = None"
  using dictionary_add_undefined [OF sample_dict_rep [of "[]"] sample_strings(1), of 0 4] by simp

subsection \<open>Output\<close>

text \<open>\<open>dictionary_dump\<close> writes one line per key in the order of the slots, with the hash of the key
  and the value or the word \<open>undefined\<close>.\<close>

lemma dictionary_dump_lines:
  assumes "dict_rep h dp d es ss"
  shows "dictionary_dump dp True h =
    Some (concat (map (\<lambda>(k, v). dump_line (hash_string k) k v) (filled ss)))"
  by (rule dump_rep [OF assms])

theorem dictionary_dump_lines_witness:
  "dictionary_dump 1 True (sample_dict []) = Some (dump_line (hash_string ''k'') ''k'' (Some ''v''))"
  using dictionary_dump_lines [OF sample_dict_rep [of "[]"]] by simp

end
