(* ===== verification/Dictionary_Safety.thy ===== *)
theory Dictionary_Safety
  imports Dictionary_Properties
begin

text \<open>
  \<open>lib/dictionary.c\<close> when the allocator fails at will. Well-formed dictionaries (\<open>dict_wf\<close>) are closed
  under every operation whatever \<open>malloc\<close>, \<open>calloc\<close> and \<open>strdup\<close> answer; each failure costs at most one leaked
  string, and what a client observes is a map that loses entries but never invents one.
\<close>

subsection \<open>What an insertion may do\<close>

text \<open>
  The effect of \<open>dictionary_add\<close> on the map with the value it returns: the pair is stored; the
  copy of the value failed, which is reported only for a key that was present; the copy of a new
  key failed, which is not reported; or there was no room.
\<close>

inductive add_outcome ::
  "string \<Rightarrow> string \<Rightarrow> (string \<rightharpoonup> string option) \<Rightarrow> int \<Rightarrow> (string \<rightharpoonup> string option) \<Rightarrow> bool"
  for k w m where
  stored: "add_outcome k w m 0 (m(k \<mapsto> Some w))"
| value_lost: "add_outcome k w m (if m k = None then 0 else - 1) (m(k \<mapsto> None))"
| key_lost: "m k = None \<Longrightarrow> add_outcome k w m 0 m"
| no_room: "m k = None \<Longrightarrow> add_outcome k w m (- 1) m"

inductive_cases add_outcomeE: "add_outcome k w m rc m'"

text \<open>The dictionary at \<open>dp\<close> holds the map \<open>m\<close>; of the blocks \<open>fp\<close> it has allocated, \<open>n\<close> strings are leaked
  or orphans.\<close>

definition is_lossy :: "dheap \<Rightarrow> ptr \<Rightarrow> (string \<rightharpoonup> string option) \<Rightarrow> ptr set \<Rightarrow> nat \<Rightarrow> bool" where
  "is_lossy h dp m fp n \<longleftrightarrow> (\<exists>d es ss L. dict_wf h dp d es ss \<and> m = slots_map ss \<and>
     fp = footprint dp d es \<union> L \<and> finite L \<and> (\<forall>p \<in> L. p < brk h) \<and> length (orphans es) + card L = n)"

lemma is_lossyI:
  "\<lbrakk>dict_wf h dp d es ss; finite L; \<forall>p \<in> L. p < brk h\<rbrakk> \<Longrightarrow>
   is_lossy h dp (slots_map ss) (footprint dp d es \<union> L) (length (orphans es) + card L)"
  unfolding is_lossy_def by blast

lemma is_lossy_ok:
  assumes "is_lossy h dp m fp n"
  shows "heap_ok h" and "p \<in> fp \<Longrightarrow> p < brk h"
proof -
  obtain d es ss L where r: "dict_wf h dp d es ss" "fp = footprint dp d es \<union> L" "\<forall>p \<in> L. p < brk h"
    using assms by (auto simp: is_lossy_def)
  show "heap_ok h" by (rule wf_blocks(7) [OF r(1)])
  show "p < brk h" if "p \<in> fp" using that r(2,3) wf_lt_brk [OF r(1)] by blast
qed

lemma step_mem_more: "step_mem A B h h' \<Longrightarrow> step_mem (A \<union> L) (B \<union> L) h h'"
  unfolding step_mem_def by blast

lemma lossy_trans:
  "\<lbrakk>is_lossy h dp m A n; step_mem A B h h1; step_mem B C h1 h2\<rbrakk> \<Longrightarrow> step_mem A C h h2"
  using step_mem_trans heap_ok_above is_lossy_ok by meson

lemma wf_same_blocks:
  assumes "dict_wf h dp d es ss" and "blocks h' = blocks h" and "brk h' = brk h"
  shows "dict_wf h' dp d es ss"
  using assms entries_frame [of h es ss h'] by (simp add: dict_wf_def load_Some heap_ok_def)

subsection \<open>The operations\<close>

text \<open>A step on well-formed dictionaries, with the strings \<open>L\<close> it leaks.\<close>

definition lossy_step ::
  "dheap \<Rightarrow> ptr \<Rightarrow> dict \<Rightarrow> dict_entry list \<Rightarrow> dheap \<Rightarrow> dict \<Rightarrow> dict_entry list \<Rightarrow> slot list \<Rightarrow> ptr set \<Rightarrow> bool" where
  "lossy_step h dp d es h' d' es' ss' L \<longleftrightarrow> dict_wf h' dp d' es' ss' \<and> finite L \<and> L \<subseteq> set (owned es) \<and>
     step_mem (footprint dp d es) (footprint dp d' es' \<union> L) h h' \<and>
     length (orphans es') + card L + fails h' \<le> length (orphans es) + fails h"

lemma lossy_step_map:
  assumes i: "is_lossy h dp m fp n" and r: "dict_wf h dp d es ss" "m = slots_map ss"
      "fp = footprint dp d es \<union> K" "finite K" "\<forall>p \<in> K. p < brk h" "length (orphans es) + card K = n"
    and st: "lossy_step h dp d es h' d' es' ss' L"
  shows "\<exists>fp' n'. is_lossy h' dp (slots_map ss') fp' n' \<and> step_mem fp fp' h h' \<and> n' + fails h' \<le> n + fails h"
proof (intro exI conjI)
  have L: "dict_wf h' dp d' es' ss'" "finite L" "L \<subseteq> set (owned es)"
    "step_mem (footprint dp d es) (footprint dp d' es' \<union> L) h h'"
    "length (orphans es') + card L + fails h' \<le> length (orphans es) + fails h"
    using st by (auto simp: lossy_step_def)
  have "p < brk h'" if "p \<in> L \<union> K" for p
  proof -
    have "p \<in> fp" using that L(3) r(3) by (auto simp: footprint_def)
    then have "p < brk h" by (rule is_lossy_ok(2) [OF i])
    then show ?thesis using L(4) by (simp add: step_mem_def)
  qed
  then show "is_lossy h' dp (slots_map ss') (footprint dp d' es' \<union> (L \<union> K)) (length (orphans es') + card (L \<union> K))"
    using L(1,2) r(4) by (intro is_lossyI) auto
  show "step_mem fp (footprint dp d' es' \<union> (L \<union> K)) h h'"
    using step_mem_more [OF L(4), of K] by (simp add: r(3) Un_assoc)
  show "length (orphans es') + card (L \<union> K) + fails h' \<le> n + fails h"
    using L(5) r(6) card_Un_le [of L K] by simp
qed

lemma insert_lossy:
  assumes r: "dict_wf h dp d es ss" and k: "load_str key h = Some k" and w: "load_str val h = Some w"
    and abs: "key_index k ss = None"
  shows "\<exists>rc h' d' es' ss' L. insert_free dp key val (hash_string k) h = Some (rc, h') \<and>
    lossy_step h dp d es h' d' es' ss' L \<and> add_outcome k w (slots_map ss) rc (slots_map ss')"
proof (cases "free_index ss")
  case None
  have "lossy_step h dp d es h d es ss {}" using r by (simp add: lossy_step_def)
  moreover have "add_outcome k w (slots_map ss) (- 1) (slots_map ss)"
    using abs slots_map_None by (intro no_room) simp
  ultimately show ?thesis using insert_full [OF r None] by blast
next
  case (Some i)
  obtain us ts where s: "ss = us @ None # ts" "length us = i" using free_index_Some [OF Some] by blast
  have v: "val_is h val (Some w)" using w by (simp add: val_is_def)
  obtain h' es' kq vq where h': "insert_free dp key val (hash_string k) h = Some (0, h')"
    "dict_wf h' dp (d\<lparr>d_count := d_count d + 1\<rparr>) es' (us @ new_slot k (Some w) kq vq # ts)"
    "step_mem (footprint dp d es) (footprint dp d es' \<union> set (orphans [es ! i])) h h'"
    "length (orphans es') + length (orphans [es ! i]) =
      length (orphans es) + (if kq = NULL \<and> vq \<noteq> NULL then 1 else 0)"
    "fails h = fails h' + (if kq = NULL then 1 else 0) + (if vq = NULL then 1 else 0)"
    using insert_room [OF r k v abs s(1)] Some s(2) by auto
  have i: "i < length es" using wf_length [OF r] s by simp
  have "entry_is h (es ! i) None" using wf_entry(2) [OF r, of i] s by auto
  then have "set (orphans [es ! i]) = set (own (es ! i))"
    using own_free by (simp add: entry_is_def del: orphans_simps)
  then have "set (orphans [es ! i]) \<subseteq> set (owned es)" using i by (force simp: owned_def)
  then have "lossy_step h dp d es h' (d\<lparr>d_count := d_count d + 1\<rparr>) es'
      (us @ new_slot k (Some w) kq vq # ts) (set (orphans [es ! i]))"
    using h'(2-5) card_length [of "orphans [es ! i]"]
    by (auto simp: lossy_step_def footprint_def simp del: orphans_simps split: if_splits)
  moreover have "add_outcome k w (slots_map ss) 0 (slots_map (us @ new_slot k (Some w) kq vq # ts))"
    using abs slots_map_new [of k us ts] slots_map_None [of ss k] stored [of k w "slots_map ss"]
      value_lost [of k w "slots_map ss"] key_lost [of "slots_map ss" k w]
    by (auto simp: new_slot_def s(1))
  ultimately show ?thesis using h'(1) by blast
qed

lemma absent_lossy:
  assumes r: "dict_wf h dp d es ss" and k: "load_str key h = Some k" and w: "load_str val h = Some w"
    and abs: "key_index k ss = None"
  shows "\<exists>rc h' d' es' ss' L. dictionary_add dp key val h = Some (rc, h') \<and>
    lossy_step h dp d es h' d' es' ss' L \<and> add_outcome k w (slots_map ss) rc (slots_map ss')"
proof -
  note add = add_absent [OF r k abs, of _ _ val]
  consider (room) "d_count d < d_size d" | (fail) "\<not> d_count d < d_size d" "grow_fails ss h"
    | (grow) "\<not> d_count d < d_size d" "\<not> grow_fails ss h" by blast
  then show ?thesis
  proof cases
    case room
    then show ?thesis using add [OF resize_wf_room [OF r]] insert_lossy [OF r k w abs] by simp
  next
    case fail
    obtain h' where h': "dictionary_resize dp h = Some (- 1, h')" "blocks h' = blocks h" "brk h' = brk h"
      "fails h' \<le> fails h"
      using resize_wf_fail [OF r fail] by blast
    have "lossy_step h dp d es h' d es ss {}"
      using wf_same_blocks [OF r h'(2,3)] h'(2-4) by (simp add: lossy_step_def step_mem_def)
    moreover have "add_outcome k w (slots_map ss) (- 1) (slots_map ss)"
      using abs slots_map_None by (intro no_room) simp
    ultimately show ?thesis using add [OF h'(1)] by (simp del: slots_map_None) blast
  next
    case grow
    obtain d1 es1 h1 where g: "grown dp d es h = (d1, es1, h1)" by (metis surj_pair)
    have size: "(length ss + 128) * 24 < 2 ^ 64" "next_answer h \<noteq> Fail"
      using grow(2) by (simp_all add: grow_fails_def)
    note g1 = grown_wf [OF r size(1) g]
    have owned: "owned es1 = owned es" and fl: "fails h1 = fails h"
      using g fails_step [of h] size(2) by (auto simp: grown_def Let_def)
    have k1: "load_str key h1 = Some k" "load_str val h1 = Some w"
      using k w g1(2) by (simp_all add: load_Some)
    have abs1: "key_index k (ss @ replicate 128 None) = None" using abs by (simp add: key_index_None)
    obtain rc h2 d2 es2 ss2 L where i: "insert_free dp key val (hash_string k) h1 = Some (rc, h2)"
      "lossy_step h1 dp d1 es1 h2 d2 es2 ss2 L" "add_outcome k w (slots_map ss) rc (slots_map ss2)"
      using insert_lossy [OF g1(1) k1 abs1] by auto
    have "step_mem (footprint dp d es) (footprint dp d2 es2 \<union> L) h h2"
      using step_mem_trans [OF g1(3)] i(2) heap_ok_above [OF wf_blocks(7) [OF r]] wf_lt_brk [OF r]
      by (simp add: lossy_step_def)
    then have "lossy_step h dp d es h2 d2 es2 ss2 L"
      using i(2) g1(5) owned fl by (simp add: lossy_step_def)
    moreover have "dictionary_add dp key val h = Some (rc, h2)"
      using add [OF resize_wf_grown [OF r grow]] i(1) g by simp
    ultimately show ?thesis using i(3) by blast
  qed
qed

lemma present_lossy:
  assumes r: "dict_wf h dp d es ss" and k: "load_str key h = Some k" and w: "load_str val h = Some w"
    and i: "key_index k ss = Some i" and sep: "val \<notin> footprint dp d es"
  shows "\<exists>rc h' d' es' ss' L. dictionary_add dp key val h = Some (rc, h') \<and>
    lossy_step h dp d es h' d' es' ss' L \<and> add_outcome k w (slots_map ss) rc (slots_map ss')"
proof -
  obtain us v ts where s: "ss = us @ Some (k, v) # ts" "length us = i" using key_index_Some [OF i] by blast
  define w' where "w' = (if next_answer h = Fail then None else Some w)"
  obtain h' es' where h': "dictionary_add dp key val h = Some (if w' = None then - 1 else 0, h')"
    "dict_wf h' dp d es' (us @ Some (k, w') # ts)" "orphans es' = orphans es"
    "fails h = fails h' + (if w' = None then 1 else 0)"
    "step_mem (footprint dp d es) (footprint dp d es') h h'"
    using refresh_wf [OF r k w s(1) _ own_outside [OF r w sep, of "length us"]] i s unfolding w'_def by auto
  have "lossy_step h dp d es h' d es' (us @ Some (k, w') # ts) {}"
    using h'(2-5) by (simp add: lossy_step_def)
  moreover have ds: "distinct (map fst (filled (us @ Some (k, v) # ts)))"
    using r unfolding dict_wf_def s(1) by blast
  have "slots_map (us @ Some (k, w') # ts) = (slots_map ss)(k \<mapsto> w')" "slots_map ss k \<noteq> None"
    unfolding s(1) by (rule slots_map_at(2) [OF ds]) (simp add: slots_map_at(1) [OF ds])
  then have "add_outcome k w (slots_map ss) (if w' = None then - 1 else 0) (slots_map (us @ Some (k, w') # ts))"
    using stored [of k w "slots_map ss"] value_lost [of k w "slots_map ss"] by (auto simp: w'_def)
  ultimately show ?thesis using h'(1) by blast
qed

lemma add_lossy:
  assumes i: "is_lossy h dp m fp n" and k: "load_str key h = Some k" and w: "load_str val h = Some w"
    and sep: "val \<notin> fp"
  shows "\<exists>rc h' m' fp' n'. dictionary_add dp key val h = Some (rc, h') \<and> add_outcome k w m rc m' \<and>
    is_lossy h' dp m' fp' n' \<and> step_mem fp fp' h h' \<and> n' + fails h' \<le> n + fails h"
proof -
  obtain d es ss K where r: "dict_wf h dp d es ss" "m = slots_map ss" "fp = footprint dp d es \<union> K"
    "finite K" "\<forall>p \<in> K. p < brk h" "length (orphans es) + card K = n"
    using i by (auto simp: is_lossy_def)
  obtain rc h' d' es' ss' L where a: "dictionary_add dp key val h = Some (rc, h')"
    "lossy_step h dp d es h' d' es' ss' L" "add_outcome k w (slots_map ss) rc (slots_map ss')"
    using absent_lossy [OF r(1) k w] present_lossy [OF r(1) k w] sep r(3)
    by (cases "key_index k ss") blast+
  show ?thesis using lossy_step_map [OF i r a(2)] a(1,3) r(2) by blast
qed

lemma del_lossy:
  assumes i: "is_lossy h dp m fp n" and k: "load_str key h = Some k"
  shows "\<exists>h' fp' n'. dictionary_del dp key h = Some h' \<and> is_lossy h' dp (m(k := None)) fp' n' \<and>
    step_mem fp fp' h h' \<and> n' + fails h' \<le> n + fails h"
proof -
  obtain d es ss K where r: "dict_wf h dp d es ss" "m = slots_map ss" "fp = footprint dp d es \<union> K"
    "finite K" "\<forall>p \<in> K. p < brk h" "length (orphans es) + card K = n"
    using i by (auto simp: is_lossy_def)
  show ?thesis
  proof (cases "key_index k ss")
    case None
    have "m(k := None) = m" using None r(2) slots_map_None [of ss k] by auto
    then show ?thesis using del_absent [OF r(1) k None] i step_mem_refl order_refl by metis
  next
    case (Some j)
    obtain us v ts where s: "ss = us @ Some (k, v) # ts" "length us = j" using key_index_Some [OF Some] by blast
    obtain h' d' es' where h': "dictionary_del dp key h = Some h'" "plan h' = plan h"
      "dict_wf h' dp d' es' (us @ None # ts)" "orphans es' = orphans es"
      "step_mem (footprint dp d es) (footprint dp d' es') h h'"
      using del_wf [OF r(1) k s(1)] Some s(2) by blast
    then have "lossy_step h dp d es h' d' es' (us @ None # ts) {}" by (simp add: lossy_step_def fails_def)
    moreover have "slots_map (us @ None # ts) = m(k := None)"
      using slots_map_at(3) [of us k v ts] r(1,2) s(1) by (simp add: dict_wf_def)
    ultimately show ?thesis using lossy_step_map [OF i r] h'(1) by metis
  qed
qed

lemma get_lossy:
  assumes "is_lossy h dp m fp n" and "load_str key h = Some k"
  shows "\<exists>p er. dictionary_get dp key NULL h = Some (p, er) \<and>
    (if er = Some ENOENT then None else Some (load_str p h)) = m k"
proof -
  obtain d es ss where r: "dict_wf h dp d es ss" "m = slots_map ss"
    using assms(1) by (auto simp: is_lossy_def)
  have "load_str NULL h = None" by (simp add: load_str_def heap_load_def)
  then show ?thesis
    using get_wf [OF r(1) assms(2), of NULL] r(2)
    by (cases "slots_map ss k") (fastforce simp: val_is_def split: option.splits)+
qed

subsection \<open>The contract under failures\<close>

text \<open>
  A client that goes on after a failed \<open>dictionary_add\<close>, with what each call tells it, and what the
  lossy map allows it to see.
\<close>

datatype reply = Added int | Deleted | Found "string option option"

fun client_run ::
  "(ptr \<Rightarrow> 'h \<Rightarrow> string option) \<Rightarrow> (ptr \<Rightarrow> ptr \<Rightarrow> ptr \<Rightarrow> 'h \<Rightarrow> (ptr \<times> errno option) option) \<Rightarrow>
    (ptr \<Rightarrow> ptr \<Rightarrow> ptr \<Rightarrow> 'h \<Rightarrow> (int \<times> 'h) option) \<Rightarrow> (ptr \<Rightarrow> ptr \<Rightarrow> 'h \<Rightarrow> 'h option) \<Rightarrow>
    ptr \<Rightarrow> ptr dict_call list \<Rightarrow> 'h \<Rightarrow> (reply list \<times> 'h) option" where
  "client_run str get add del dp [] h = Some ([], h)"
| "client_run str get add del dp (Add key val # cs) h = do {
     (rc, h) \<leftarrow> add dp key val h;
     (rs, h) \<leftarrow> client_run str get add del dp cs h;
     Some (Added rc # rs, h) }"
| "client_run str get add del dp (Del key # cs) h = do {
     h \<leftarrow> del dp key h;
     (rs, h) \<leftarrow> client_run str get add del dp cs h;
     Some (Deleted # rs, h) }"
| "client_run str get add del dp (Get key # cs) h = do {
     (p, er) \<leftarrow> get dp key NULL h;
     (rs, h') \<leftarrow> client_run str get add del dp cs h;
     Some (Found (if er = Some ENOENT then None else Some (str p h)) # rs, h') }"

inductive lossy_run ::
  "string dict_call list \<Rightarrow> (string \<rightharpoonup> string option) \<Rightarrow> reply list \<Rightarrow> bool" where
  lossy_Nil: "lossy_run [] m []"
| lossy_Add: "\<lbrakk>add_outcome k w m rc m'; lossy_run cs m' rs\<rbrakk> \<Longrightarrow> lossy_run (Add k w # cs) m (Added rc # rs)"
| lossy_Del: "lossy_run cs (m(k := None)) rs \<Longrightarrow> lossy_run (Del k # cs) m (Deleted # rs)"
| lossy_Get: "lossy_run cs m rs \<Longrightarrow> lossy_run (Get k # cs) m (Found (m k) # rs)"

inductive_cases lossy_AddE: "lossy_run (Add k w # cs) m rs"
inductive_cases lossy_GetE: "lossy_run (Get k # cs) m rs"

text \<open>
  \<open>holds h dp m fp n\<close>: the dictionary at \<open>dp\<close> holds the map \<open>m\<close> and has allocated the blocks \<open>fp\<close>, of which
  \<open>n\<close> are lost; \<open>left h\<close> counts the failures to come.
\<close>

locale lossy_dict =
  fixes holds :: "'h \<Rightarrow> ptr \<Rightarrow> (string \<rightharpoonup> string option) \<Rightarrow> ptr set \<Rightarrow> nat \<Rightarrow> bool"
    and str :: "ptr \<Rightarrow> 'h \<Rightarrow> string option" and left :: "'h \<Rightarrow> nat"
    and get :: "ptr \<Rightarrow> ptr \<Rightarrow> ptr \<Rightarrow> 'h \<Rightarrow> (ptr \<times> errno option) option"
    and add :: "ptr \<Rightarrow> ptr \<Rightarrow> ptr \<Rightarrow> 'h \<Rightarrow> (int \<times> 'h) option"
    and del :: "ptr \<Rightarrow> ptr \<Rightarrow> 'h \<Rightarrow> 'h option"
    and frame :: "ptr set \<Rightarrow> ptr set \<Rightarrow> 'h \<Rightarrow> 'h \<Rightarrow> bool"
  assumes get_any: "\<lbrakk>holds h dp m fp n; str key h = Some k\<rbrakk> \<Longrightarrow>
      \<exists>p er. get dp key NULL h = Some (p, er) \<and> (if er = Some ENOENT then None else Some (str p h)) = m k"
    and add_any: "\<lbrakk>holds h dp m fp n; str key h = Some k; str val h = Some w; val \<notin> fp\<rbrakk> \<Longrightarrow>
      \<exists>rc h' m' fp' n'. add dp key val h = Some (rc, h') \<and> add_outcome k w m rc m' \<and>
        holds h' dp m' fp' n' \<and> frame fp fp' h h' \<and> n' + left h' \<le> n + left h"
    and del_any: "\<lbrakk>holds h dp m fp n; str key h = Some k\<rbrakk> \<Longrightarrow>
      \<exists>h' fp' n'. del dp key h = Some h' \<and> holds h' dp (m(k := None)) fp' n' \<and> frame fp fp' h h' \<and>
        n' + left h' \<le> n + left h"
    and frame_none: "frame fp fp h h"
    and frame_then: "\<lbrakk>holds h dp m A n; frame A B h h1; frame B C h1 h2\<rbrakk> \<Longrightarrow> frame A C h h2"
    and frame_keeps: "\<lbrakk>holds h dp m fp n; frame fp fp' h h'; p \<notin> fp; str p h = Some s\<rbrakk> \<Longrightarrow>
      p \<notin> fp' \<and> str p h' = Some s"

context lossy_dict begin

lemma own_strings_keep:
  assumes "holds h dp m fp n" and "frame fp fp' h h'" and "own_strings str fp h cs ss"
  shows "own_strings str fp' h' cs ss"
  using assms(3)
  by (rule list_all2_mono) (auto elim!: dict_call.rel_mono_strong dest: frame_keeps [OF assms(1,2)])

lemma client_run_lossy:
  "\<lbrakk>holds h dp m fp n; own_strings str fp h cs ss\<rbrakk> \<Longrightarrow>
   \<exists>rs h' m' fp' n'. client_run str get add del dp cs h = Some (rs, h') \<and> lossy_run ss m rs \<and>
     holds h' dp m' fp' n' \<and> frame fp fp' h h' \<and> n' + left h' \<le> n + left h"
proof (induction cs arbitrary: h m fp n ss)
  case Nil
  then have "ss = []" by simp
  then show ?case using Nil(1) frame_none lossy_Nil by (simp, metis order_refl)
next
  case (Cons c cs)
  then obtain s ss' where ss: "ss = s # ss'" "rel_dict_call (\<lambda>p s. p \<notin> fp \<and> str p h = Some s) c s"
      "own_strings str fp h cs ss'"
    by (auto simp: list_all2_Cons1)
  have later: "\<exists>rs h' m' fp' n'. client_run str get add del dp cs h1 = Some (rs, h') \<and> lossy_run ss' m1 rs \<and>
      holds h' dp m' fp' n' \<and> frame fp fp' h h' \<and> n' + left h' \<le> n + left h"
    if h1: "holds h1 dp m1 fp1 n1" "frame fp fp1 h h1" "n1 + left h1 \<le> n + left h" for h1 m1 fp1 n1
    using Cons.IH [OF h1(1) own_strings_keep [OF Cons.prems(1) h1(2) ss(3)]]
      frame_then [OF Cons.prems(1) h1(2)] h1(3) le_trans by meson
  show ?case
  proof (cases c)
    case (Add key val)
    then obtain k w where s: "s = Add k w" "str key h = Some k" "str val h = Some w" "val \<notin> fp"
      using ss(2) by (cases s) auto
    obtain rc h1 m1 fp1 n1 where a: "add dp key val h = Some (rc, h1)" "add_outcome k w m rc m1"
      "holds h1 dp m1 fp1 n1" "frame fp fp1 h h1" "n1 + left h1 \<le> n + left h"
      using add_any [OF Cons.prems(1) s(2-4)] by blast
    show ?thesis using later [OF a(3-5)] lossy_Add [OF a(2)] a(1) Add s(1) ss(1) by fastforce
  next
    case (Del key)
    then obtain k where s: "s = Del k" "str key h = Some k" using ss(2) by (cases s) auto
    obtain h1 fp1 n1 where a: "del dp key h = Some h1" "holds h1 dp (m(k := None)) fp1 n1"
      "frame fp fp1 h h1" "n1 + left h1 \<le> n + left h"
      using del_any [OF Cons.prems(1) s(2)] by blast
    show ?thesis using later [OF a(2-4)] lossy_Del a(1) Del s(1) ss(1) by fastforce
  next
    case (Get key)
    then obtain k where s: "s = Get k" "str key h = Some k" using ss(2) by (cases s) auto
    obtain p er where g: "get dp key NULL h = Some (p, er)"
      "(if er = Some ENOENT then None else Some (str p h)) = m k"
      using get_any [OF Cons.prems(1) s(2)] by blast
    show ?thesis
      using later [OF Cons.prems(1) frame_none order_refl] lossy_Get [of ss' m _ k] g Get s(1) ss(1)
      by fastforce
  qed
qed

end

interpretation lossy: lossy_dict is_lossy load_str fails dictionary_get dictionary_add dictionary_del step_mem
  using get_lossy add_lossy del_lossy lossy_trans step_keeps_strings is_lossy_ok(1)
  by unfold_locales (blast | simp)+

subsection \<open>A life with failures\<close>

lemma create_lossy:
  assumes ok: "heap_ok h"
  shows "\<exists>dp h'. dictionary_create sz h = Some (dp, h') \<and>
    (if dp = NULL then blocks h' = blocks h
     else \<exists>fp. is_lossy h' dp Map.empty fp 0 \<and> step_mem {} fp h h' \<and> fails h' = fails h)"
proof (cases "Fail \<in> set (take 2 (plan h))")
  case True
  then show ?thesis using create_fails [OF ok True, of sz] by (metis (full_types))
next
  case False
  obtain dp d es h' where c: "dictionary_create sz h = Some (dp, h')"
    "dict_rep h' dp d es (replicate (capacity sz) None)" "plan h' = tl (tl (plan h))"
    "step_mem {} (footprint dp d es) h h'"
    using create_rep [OF ok False] by blast
  have "is_lossy h' dp (slots_map (replicate (capacity sz) None)) (footprint dp d es \<union> {})
      (length (orphans es) + card ({} :: ptr set))"
    by (rule is_lossyI [OF rep_wf [OF c(2)]]) simp_all
  moreover have "orphans es = []" using rep_exact [OF c(2)] by (simp add: dict_exact_def)
  moreover have "fails h' = fails h"
    using False c(3) by (cases "plan h"; cases "tl (plan h)") (auto simp: fails_def)
  ultimately show ?thesis using c(1,4) rep_blocks(4) [OF c(2)] by (auto simp: slots_map_def)
qed

lemma destroy_lossy:
  assumes i: "is_lossy h dp m fp n"
  shows "\<exists>h' R. dictionary_destroy dp h = Some h' \<and> R \<subseteq> fp \<and> finite R \<and> card R \<le> 1 + n \<and>
    fails h' = fails h \<and> blocks h' = (\<lambda>q. if q \<in> fp - R then None else blocks h q)"
proof -
  obtain d es ss L where r: "dict_wf h dp d es ss" "fp = footprint dp d es \<union> L" "finite L"
    "length (orphans es) + card L = n"
    using i by (auto simp: is_lossy_def)
  define A where "A = insert dp (set (owned es))"
  define R where "R = fp - A"
  have "R \<subseteq> insert (d_entries d) L" unfolding R_def A_def r(2) footprint_def by blast
  then have "finite R" "card R \<le> card (insert (d_entries d) L)"
    using r(3) by (auto intro: finite_subset card_mono)
  moreover have "card (insert (d_entries d) L) \<le> 1 + n" using r(3,4) by (simp add: card_insert_if)
  moreover have "A = fp - R" unfolding R_def A_def r(2) footprint_def by blast
  then have "blocks (drop_blocks A h) = (\<lambda>q. if q \<in> fp - R then None else blocks h q)"
    by (simp add: drop_blocks_def)
  moreover have "fails (drop_blocks A h) = fails h" by (simp add: drop_blocks_def)
  moreover have "dictionary_destroy dp h = Some (drop_blocks A h)" unfolding A_def by (rule destroy_wf [OF r(1)])
  moreover have "R \<subseteq> fp" by (simp add: R_def)
  ultimately show ?thesis by (meson le_trans)
qed

lemma survives_failures:
  assumes ok: "heap_ok h" and own: "own_strings load_str {} h cs ss"
    and c: "dictionary_create sz h = Some (dp, h1)" "dp \<noteq> NULL"
  shows "\<exists>rs h2 h3. client_run load_str dictionary_get dictionary_add dictionary_del dp cs h1 = Some (rs, h2) \<and>
    lossy_run ss Map.empty rs \<and> dictionary_destroy dp h2 = Some h3 \<and> blocks h \<subseteq>\<^sub>m blocks h3 \<and>
    finite (dom (blocks h3) - dom (blocks h)) \<and>
    card (dom (blocks h3) - dom (blocks h)) + fails h3 \<le> 1 + fails h"
proof -
  obtain fp where i: "is_lossy h1 dp Map.empty fp 0" "step_mem {} fp h h1" "fails h1 = fails h"
    using create_lossy [OF ok, of sz] c by auto
  have keep: "p \<notin> fp \<and> load_str p h1 = Some s" if "load_str p h = Some s" for p s
    using step_keeps_strings [OF i(2) ok _ that] by simp
  have "own_strings load_str fp h1 cs ss"
    using own by (rule list_all2_mono) (auto elim!: dict_call.rel_mono_strong dest: keep)
  from lossy.client_run_lossy [OF i(1) this] obtain rs h2 m2 fp2 n2 where
    r: "client_run load_str dictionary_get dictionary_add dictionary_del dp cs h1 = Some (rs, h2)"
      "lossy_run ss Map.empty rs" "is_lossy h2 dp m2 fp2 n2" "step_mem fp fp2 h1 h2" "n2 + fails h2 \<le> fails h1"
    by auto
  have mem: "step_mem {} fp2 h h2" using step_mem_trans [OF i(2) r(4)] heap_ok_above [OF ok] by simp
  have new: "blocks h q = None" if "q \<in> fp2" for q
    using mem that heap_ok_above [OF ok] by (auto simp: step_mem_def)
  obtain h3 R where d: "dictionary_destroy dp h2 = Some h3" "R \<subseteq> fp2" "finite R" "card R \<le> 1 + n2"
    "fails h3 = fails h2" "blocks h3 = (\<lambda>q. if q \<in> fp2 - R then None else blocks h2 q)"
    using destroy_lossy [OF r(3)] by blast
  have out: "blocks h2 q = blocks h q" if "q \<notin> fp2" for q using mem that by (simp add: step_mem_def)
  have "blocks h3 q = blocks h q" if "q \<in> dom (blocks h)" for q
  proof -
    have "q \<notin> fp2" using that new by auto
    then show ?thesis using out d(6) by simp
  qed
  then have "blocks h \<subseteq>\<^sub>m blocks h3" by (simp add: map_le_def)
  moreover have "dom (blocks h3) - dom (blocks h) \<subseteq> R" using out d(6) by (fastforce split: if_splits)
  then have "finite (dom (blocks h3) - dom (blocks h))" "card (dom (blocks h3) - dom (blocks h)) \<le> card R"
    using d(3) by (auto intro: finite_subset card_mono)
  ultimately show ?thesis using r(1,2,5) d(1,4,5) i(3) by fastforce
qed

text \<open>C2: Whatever the allocator answers, a client that uses its own strings never meets undefined behaviour: no
  use after free, no double free, no access outside the array, in any sequence of \<open>dictionary_add\<close>,
  \<open>dictionary_del\<close> and \<open>dictionary_get\<close> between \<open>dictionary_create\<close> and \<open>dictionary_destroy\<close>. It observes a map that may
  lose entries when an allocation fails but never shows a value that was not the last one stored
  for the key. Its own memory is untouched, and what remains allocated in the end is the array and at
  most one string for each allocation that failed.\<close>

theorem dictionary_survives_failures:
  assumes "heap_ok h" and "own_strings load_str {} h cs ss"
  shows "\<exists>dp h1. dictionary_create sz h = Some (dp, h1) \<and>
    (if dp = NULL then blocks h1 = blocks h
     else \<exists>rs h2 h3. client_run load_str dictionary_get dictionary_add dictionary_del dp cs h1 = Some (rs, h2) \<and>
       lossy_run ss Map.empty rs \<and> dictionary_destroy dp h2 = Some h3 \<and> blocks h \<subseteq>\<^sub>m blocks h3 \<and>
       finite (dom (blocks h3) - dom (blocks h)) \<and>
       card (dom (blocks h3) - dom (blocks h)) + fails h3 \<le> 1 + fails h)"
  using create_lossy [OF assms(1), of sz] survives_failures [OF assms] by (metis (lifting))

theorem dictionary_survives_failures_witness:
  "\<exists>dp h1 rs h2 h3. dictionary_create 0 (sample_dict [Fresh, Fresh, Fail]) = Some (dp, h1) \<and> (dp \<noteq> NULL \<longrightarrow>
     client_run load_str dictionary_get dictionary_add dictionary_del dp [Add 6 7, Get 6, Add 5 7, Del 5] h1 = Some (rs, h2) \<and>
     lossy_run [Add ''l'' ''w'', Get ''l'', Add ''k'' ''w'', Del ''k''] Map.empty rs \<and>
     dictionary_destroy dp h2 = Some h3 \<and>
     card (dom (blocks h3) - dom (blocks (sample_dict [Fresh, Fresh, Fail]))) \<le> 2)"
proof -
  let ?h = "sample_dict [Fresh, Fresh, Fail]"
  have "heap_ok ?h" "fails ?h = 1" by (auto simp: sample_dict_def heap_ok_def fails_def)
  from dictionary_survives_failures [OF this(1), of "[Add 6 7, Get 6, Add 5 7, Del 5]"
      "[Add ''l'' ''w'', Get ''l'', Add ''k'' ''w'', Del ''k'']" 0] this(2)
  show ?thesis by (simp add: sample_strings split: if_splits) fastforce
qed

text \<open>The bound is reached: when the copy of a new key has failed, the next key takes over the slot
  and overwrites the pointer to the value left there, which nobody can free any more.\<close>

definition roomy_dict :: dheap where
  "roomy_dict = \<lparr>blocks = [1 \<mapsto> Dict \<lparr>d_count = 0, d_size = 2, d_entries = 2\<rparr>,
     2 \<mapsto> Entries [zero_entry, zero_entry], 3 \<mapsto> Str ''k'', 4 \<mapsto> Str ''v''], brk = 5, plan = [Fail]\<rparr>"

theorem dictionary_add_leaks_value:
  "\<exists>h1 h2 h3. dictionary_add 1 3 4 roomy_dict = Some (0, h1) \<and>
     dictionary_add 1 3 4 h1 = Some (0, h2) \<and> dictionary_destroy 1 h2 = Some h3 \<and>
     dom (blocks h3) = {2, 3, 4, 5} \<and> blocks h3 5 = Some (Str ''v'')"
  by (auto simp: roomy_dict_def dictionary_add_def dictionary_hash_def load_str_def heap_load_def
      dictionary_find_idx_by_key_def load_dict_def find_key_loop.simps load_entry_def load_entries_def
      zero_entry_def dictionary_resize_def dictionary_find_idx_by_empty_def find_empty_loop.simps
      c_strdup_def heap_alloc_def next_answer_def store_entry_def heap_store_def
      dictionary_destroy_def destroy_loop.simps heap_free_def split: if_splits)

end
