(* ===== verification/Dictionary_Example.thy ===== *)
theory Dictionary_Example
  imports Dictionary_Spec
begin

text \<open>
  \<open>examples/dictionary/dict.c\<close>: \<open>main\<close> fills a dictionary with 4096 generated pairs, writes it to a
  file and destroys it. The two buffers \<open>key\<close> and \<open>val\<close> of \<open>main\<close> are the blocks 1 and 2; whether
  \<open>fopen\<close> succeeds is a parameter. Messages on \<open>stderr\<close> are not modelled.
\<close>

definition key_buf :: ptr where "key_buf = 1"
definition val_buf :: ptr where "val_buf = 2"

definition main_heap :: "answer list \<Rightarrow> dheap" where
  "main_heap pl = \<lparr>blocks = [key_buf \<mapsto> Str [], val_buf \<mapsto> Str []], brk = 3, plan = pl\<rparr>"

definition dict_key :: "nat \<Rightarrow> string" where
  "dict_key i = ''my_key;'' @ dec_nat i"

definition dict_val :: "nat \<Rightarrow> string" where
  "dict_val i = ''my_val'' @ dec_nat i @ '' '' @ [CHR 0x22] @ dec_nat (i * i) @ [CHR 0x22]"

function store_pairs :: "nat \<Rightarrow> ptr \<Rightarrow> dheap \<Rightarrow> dheap option" where
  "store_pairs i dp h =
     (if i < 4096 then do {
        h \<leftarrow> heap_store key_buf (Str (c_snprintf 128 (dict_key i))) h;
        h \<leftarrow> heap_store val_buf (Str (c_snprintf 1024 (dict_val i))) h;
        (rc, h) \<leftarrow> dictionary_add dp key_buf val_buf h;
        store_pairs (Suc i) dp h }
      else Some h)"
  by pat_completeness auto
termination by (relation "measure (\<lambda>(i, dp, h). 4096 - i)") auto

declare store_pairs.simps [simp del]

text \<open>The contents of the file, if it could be opened.\<close>

definition dictionary_store :: "bool \<Rightarrow> ptr \<Rightarrow> dheap \<Rightarrow> string option option" where
  "dictionary_store fopen_ok dp h =
     (if fopen_ok then map_option Some (dictionary_dump dp True h) else Some None)"

definition dict_main :: "answer list \<Rightarrow> bool \<Rightarrow> (string option \<times> dheap) option" where
  "dict_main pl fopen_ok = do {
     (dp, h) \<leftarrow> dictionary_create 0 (main_heap pl);
     h \<leftarrow> store_pairs 0 dp h;
     file \<leftarrow> dictionary_store fopen_ok dp h;
     h \<leftarrow> dictionary_destroy dp h;
     Some (file, h) }"

subsection \<open>The pairs\<close>

lemma dict_pair_fits:
  assumes "i < 4096"
  shows "c_snprintf 128 (dict_key i) = dict_key i" and "c_snprintf 1024 (dict_val i) = dict_val i"
proof -
  have "length (dec_nat i) \<le> 4" by (rule length_dec_nat) (use assms in simp_all)
  moreover have "i * i < 10 ^ 8"
    using mult_strict_mono [of i 4096 i 4096] assms by simp
  then have "length (dec_nat (i * i)) \<le> 8" by (intro length_dec_nat) simp_all
  ultimately show "c_snprintf 128 (dict_key i) = dict_key i" "c_snprintf 1024 (dict_val i) = dict_val i"
    by (simp_all add: c_snprintf_def dict_key_def dict_val_def)
qed

definition pair_slot :: "nat \<Rightarrow> slot" where
  "pair_slot i = Some (dict_key i, Some (dict_val i))"

text \<open>The slots after \<open>n\<close> insertions, \<open>m\<close> of them free.\<close>

definition pair_slots :: "nat \<Rightarrow> nat \<Rightarrow> slot list" where
  "pair_slots n m = map pair_slot [0..<n] @ replicate m None"

lemma filled_pairs: "filled (map pair_slot is) = map (\<lambda>i. (dict_key i, Some (dict_val i))) is"
  by (induction "is") (auto simp: pair_slot_def)

lemma free_index_pairs: "free_index (map pair_slot is @ ss) = map_option (\<lambda>j. length is + j) (free_index ss)"
  by (induction "is") (auto simp: pair_slot_def option.map_comp comp_def option.map_ident)

lemma dict_key_inject: "dict_key i = dict_key j \<longleftrightarrow> i = j"
  by (simp add: dict_key_def)

lemma slots_add_pair: "\<exists>m'. slots_add (dict_key n) (Some (dict_val n)) (pair_slots n m) = pair_slots (Suc n) m'"
proof -
  have "key_index (dict_key n) (pair_slots n m) = None"
    by (auto simp: key_index_None pair_slots_def filled_pairs dict_key_inject)
  then have "slots_add (dict_key n) (Some (dict_val n)) (pair_slots n m) =
      pair_slots (Suc n) (if m = 0 then 127 else m - 1)"
    using free_index_pairs [of "[0..<n]" "[]"]
    by (cases m) (auto simp: slots_add_def pair_slots_def free_index_pairs list_update_append
        pair_slot_def simp flip: numeral_eq_Suc)
  then show ?thesis by blast
qed

subsection \<open>The loop\<close>

text \<open>The live blocks are the two buffers and those of the dictionary.\<close>

definition main_state :: "dheap \<Rightarrow> ptr \<Rightarrow> nat \<Rightarrow> bool" where
  "main_state h dp n \<longleftrightarrow> no_oom h \<and> (\<exists>d es m. dict_rep h dp d es (pair_slots n m) \<and>
     key_buf \<notin> footprint dp d es \<and> val_buf \<notin> footprint dp d es \<and>
     dom (blocks h) = {key_buf, val_buf} \<union> footprint dp d es)"

lemma dict_rep_frame:
  assumes "dict_rep h dp d es ss" and "heap_ok h'"
    and "\<forall>p \<in> footprint dp d es. blocks h' p = blocks h p"
  shows "dict_rep h' dp d es ss"
proof -
  have "list_all2 (entry_is h') es ss"
    using assms entries_frame [of h es ss h'] by (simp add: dict_rep_def dict_wf_def footprint_def)
  then show ?thesis using assms unfolding dict_rep_def dict_wf_def load_Some footprint_def by simp
qed

lemma footprint_live:
  assumes "dict_rep h dp d es ss" and "p \<in> footprint dp d es"
  shows "\<exists>b. blocks h p = Some b"
proof -
  note b = rep_blocks [OF assms(1)]
  consider "p = dp" | "p = d_entries d" | "p \<in> set (owned es)"
    using assms(2) by (auto simp: footprint_def)
  then show ?thesis using b(1,2) b(3) [of p] by cases auto
qed

lemma step_mem_dom:
  assumes "step_mem fp fp' h h'" and "dom (blocks h) = A \<union> fp" and "A \<inter> fp = {}"
    and "\<forall>p \<in> fp'. blocks h' p \<noteq> None" and "\<forall>a \<in> A. a < brk h"
  shows "dom (blocks h') = A \<union> fp' \<and> A \<inter> fp' = {}"
proof -
  have d: "A \<inter> fp' = {}"
  proof (rule ccontr)
    assume "A \<inter> fp' \<noteq> {}"
    then obtain a where a: "a \<in> A" "a \<in> fp'" by blast
    then have "a \<in> fp' - fp" using assms(3) by blast
    then have "brk h \<le> a" using assms(1) by (simp add: step_mem_def)
    then show False using assms(5) a(1) by (simp add: linorder_not_less [symmetric])
  qed
  have "p \<in> dom (blocks h') \<longleftrightarrow> p \<in> A \<union> fp'" for p
  proof (cases "p \<in> fp'")
    case True
    then show ?thesis using assms(4) by (auto simp: domIff)
  next
    case False
    show ?thesis
    proof (cases "p \<in> fp")
      case True
      then show ?thesis using False assms(1,3) by (auto simp: step_mem_def domIff)
    next
      case out: False
      then have "blocks h' p = blocks h p" using False assms(1) by (simp add: step_mem_def)
      moreover have "p \<in> dom (blocks h) \<longleftrightarrow> p \<in> A" using assms(2) out by simp
      ultimately show ?thesis using False by (simp add: domIff)
    qed
  qed
  then show ?thesis using d by blast
qed

lemma store_pair:
  assumes s: "main_state h dp i" and i: "i < 4096"
  shows "\<exists>h'. store_pairs i dp h = store_pairs (Suc i) dp h' \<and> main_state h' dp (Suc i)"
proof -
  obtain d es m where r: "dict_rep h dp d es (pair_slots i m)" and mem: "no_oom h"
    and bufs: "key_buf \<notin> footprint dp d es" "val_buf \<notin> footprint dp d es"
    and dom: "dom (blocks h) = {key_buf, val_buf} \<union> footprint dp d es"
    using s by (auto simp: main_state_def)
  have nz: "key_buf \<noteq> NULL" "val_buf \<noteq> NULL" "key_buf \<noteq> val_buf" by (simp_all add: key_buf_def val_buf_def)
  define h1 where "h1 = h\<lparr>blocks := (blocks h)(key_buf \<mapsto> Str (dict_key i), val_buf \<mapsto> Str (dict_val i))\<rparr>"
  have live: "blocks h key_buf \<noteq> None" "blocks h val_buf \<noteq> None" using dom by (auto simp: domIff set_eq_iff)
  have ok: "heap_ok h" by (rule rep_blocks(7) [OF r])
  then have ok1: "heap_ok h1" using live unfolding heap_ok_def h1_def by (auto simp: domIff)
  have lt: "\<forall>a \<in> {key_buf, val_buf}. a < brk h1"
    using ok live by (auto simp: heap_ok_def h1_def domIff)
  have r1: "dict_rep h1 dp d es (pair_slots i m)"
    using bufs by (intro dict_rep_frame [OF r ok1]) (auto simp: h1_def)
  have "load_str key_buf h1 = Some (dict_key i)" "val_is h1 val_buf (Some (dict_val i))"
    using nz by (auto simp: load_Some val_is_def h1_def)
  moreover have "no_oom h1" using mem by (simp add: no_oom_def h1_def)
  moreover have "card (dom (slots_map (pair_slots i m))) < 2 ^ 59"
    using r card_slots_map [of "pair_slots i m"] i
    by (simp add: dict_rep_def dict_wf_def pair_slots_def filled_pairs)
  then have "can_grow (pair_slots i m)" by (rule few_keys_grow [OF r])
  ultimately obtain h2 d2 es2 where h2: "dictionary_add dp key_buf val_buf h1 = Some (0, h2)"
    "dict_rep h2 dp d2 es2 (slots_add (dict_key i) (Some (dict_val i)) (pair_slots i m))"
    "no_oom h2" "step_mem (footprint dp d es) (footprint dp d2 es2) h1 h2"
    using add_rep [OF r1] nz(2) bufs(2) by blast
  have "dom (blocks h1) = {key_buf, val_buf} \<union> footprint dp d es"
    using dom by (auto simp: h1_def)
  then have "dom (blocks h2) = {key_buf, val_buf} \<union> footprint dp d2 es2 \<and>
      {key_buf, val_buf} \<inter> footprint dp d2 es2 = {}"
    using bufs footprint_live [OF h2(2)] lt by (intro step_mem_dom [OF h2(4)]) auto
  moreover obtain m' where "slots_add (dict_key i) (Some (dict_val i)) (pair_slots i m) =
      pair_slots (Suc i) m'"
    using slots_add_pair by blast
  ultimately have "main_state h2 dp (Suc i)" using h2(2,3) by (auto simp: main_state_def)
  moreover have "store_pairs i dp h = store_pairs (Suc i) dp h2"
    using i live nz h2(1) dict_pair_fits [OF i]
    by (subst store_pairs.simps) (auto simp: heap_store_def h1_def)
  ultimately show ?thesis by blast
qed

lemma store_pairs_result:
  "i \<le> 4096 \<Longrightarrow> main_state h dp i \<Longrightarrow> \<exists>h'. store_pairs i dp h = Some h' \<and> main_state h' dp 4096"
proof (induction "4096 - i" arbitrary: i h)
  case 0
  then show ?case by (subst store_pairs.simps) simp
next
  case (Suc n)
  then show ?case using store_pair [OF Suc.prems(2)] Suc.hyps(1) [of "Suc i"] by fastforce
qed

text \<open>C18: the program of \<open>examples/dictionary\<close>, when memory suffices: it is memory safe and ends, the
  file lists all 4096 pairs in the order of their insertion with their hashes, and at its end
  exactly one block is still allocated besides the buffers of \<open>main\<close>: the array of entries,
  which \<open>dictionary_destroy\<close> does not free.\<close>

theorem dict_main_output:
  assumes "Fail \<notin> set pl"
  shows "\<exists>h ep es. dict_main pl fopen_ok = Some
      (if fopen_ok then Some (concat (map (\<lambda>i. dump_line (hash_string (dict_key i)) (dict_key i)
         (Some (dict_val i))) [0..<4096])) else None, h) \<and>
    dom (blocks h) = {key_buf, val_buf, ep} \<and> blocks h ep = Some (Entries es)"
proof -
  let ?h0 = "main_heap pl"
  have ok: "heap_ok ?h0" by (auto simp: heap_ok_def main_heap_def key_buf_def val_buf_def)
  have "Fail \<notin> set (take 2 (plan ?h0))" using assms by (auto simp: main_heap_def dest: in_set_takeD)
  then obtain dp d es h1 where c: "dictionary_create 0 ?h0 = Some (dp, h1)"
    "dict_rep h1 dp d es (replicate (capacity 0) None)" "plan h1 = tl (tl (plan ?h0))"
    "step_mem {} (footprint dp d es) ?h0 h1"
    using create_rep [OF ok] by blast
  have "dom (blocks h1) = {key_buf, val_buf} \<union> footprint dp d es \<and>
      {key_buf, val_buf} \<inter> footprint dp d es = {}"
    using footprint_live [OF c(2)]
    by (intro step_mem_dom [OF c(4)]) (auto simp: main_heap_def key_buf_def val_buf_def)
  moreover have "no_oom h1"
    using c(3) assms by (auto simp: no_oom_def main_heap_def dest!: in_set_tlD)
  ultimately have "main_state h1 dp 0" using c(2) by (auto simp: main_state_def pair_slots_def)
  then obtain h2 where h2: "store_pairs 0 dp h1 = Some h2" "main_state h2 dp 4096"
    using store_pairs_result [of 0 h1 dp] by auto
  then obtain d2 es2 m where r: "dict_rep h2 dp d2 es2 (pair_slots 4096 m)"
    "key_buf \<notin> footprint dp d2 es2" "val_buf \<notin> footprint dp d2 es2"
    "dom (blocks h2) = {key_buf, val_buf} \<union> footprint dp d2 es2"
    by (auto simp: main_state_def)
  note b = rep_blocks [OF r(1)]
  define h3 where "h3 = drop_blocks (insert dp (set (owned es2))) h2"
  have "dictionary_destroy dp h2 = Some h3" using destroy_rep [OF r(1)] by (simp add: h3_def)
  moreover have "dictionary_dump dp True h2 = Some (concat (map (\<lambda>i. dump_line (hash_string (dict_key i))
      (dict_key i) (Some (dict_val i))) [0..<4096]))"
    using dump_rep [OF r(1)] by (simp add: pair_slots_def filled_pairs comp_def)
  moreover have "p \<in> dom (blocks h3) \<longleftrightarrow> p \<in> {key_buf, val_buf, d_entries d2}" for p
  proof -
    have "p \<in> dom (blocks h2) \<longleftrightarrow> p \<in> {key_buf, val_buf} \<union> footprint dp d2 es2" using r(4) by simp
    then show ?thesis using r(2,3) b(6,8,9) by (auto simp: h3_def domIff footprint_def)
  qed
  then have "dom (blocks h3) = {key_buf, val_buf, d_entries d2}" by blast
  moreover have "blocks h3 (d_entries d2) = Some (Entries es2)"
    using b(2,6,9) by (simp add: h3_def)
  ultimately show ?thesis
    using c(1) h2(1) by (auto simp: dict_main_def dictionary_store_def)
qed

theorem dict_main_output_witness:
  "\<exists>h ep es. dict_main [InPlace, Fresh] True = Some (Some (concat (map (\<lambda>i. dump_line (hash_string (dict_key i)) (dict_key i)
       (Some (dict_val i))) [0..<4096])), h) \<and>
     dom (blocks h) = {key_buf, val_buf, ep} \<and> blocks h ep = Some (Entries es)"
  using dict_main_output [of "[InPlace, Fresh]" True] by simp

end
