(* ===== verification/Dictionary_Failures.thy ===== *)
theory Dictionary_Failures
  imports Dictionary_Safety Dictionary_Example
begin

text \<open>
  \<open>examples/dictionary/dict.c\<close> when the allocator fails at will. The program checks neither the result of
  \<open>dictionary_create\<close> nor those of \<open>dictionary_add\<close>; with the contract \<open>lossy_dict\<close> of the module its \<open>main\<close> is defined and
  ends all the same.
\<close>

subsection \<open>The program's buffers and the dictionary\<close>

lemma lossy_store:
  assumes "is_lossy h dp m fp n" and "p \<notin> fp" and "blocks h p = Some y"
  shows "is_lossy (h\<lparr>blocks := (blocks h)(p \<mapsto> x)\<rparr>) dp m fp n"
proof -
  let ?h = "h\<lparr>blocks := (blocks h)(p \<mapsto> x)\<rparr>"
  obtain d es ss L where r: "dict_wf h dp d es ss" "m = slots_map ss" "fp = footprint dp d es \<union> L" "finite L"
    "\<forall>p \<in> L. p < brk h" "length (orphans es) + card L = n"
    using assms(1) by (auto simp: is_lossy_def)
  have "\<forall>q \<in> footprint dp d es. blocks ?h q = blocks h q" using assms(2) r(3) by auto
  then have "dict_wf ?h dp d es ss"
    using r(1) entries_frame [of h es ss ?h] heap_ok_upd [OF wf_blocks(7) [OF r(1)] assms(3), of x]
    unfolding dict_wf_def load_Some footprint_def by simp
  then show ?thesis using is_lossyI [of ?h dp d es ss L] r(2-6) by simp
qed

lemma dump_lossy:
  assumes "is_lossy h dp m fp n"
  shows "\<exists>kvs. dictionary_dump dp True h = Some (concat (map (\<lambda>(k, v). dump_line (hash_string k) k v) kvs)) \<and>
    distinct (map fst kvs) \<and> map_of kvs \<subseteq>\<^sub>m m"
proof -
  obtain d es ss where r: "dict_wf h dp d es ss" "m = slots_map ss"
    using assms by (auto simp: is_lossy_def)
  show ?thesis
  proof (cases "d_count d = 0")
    case True
    then show ?thesis using dump_wf [OF r(1)] by (intro exI [of _ "[]"]) simp
  next
    case False
    then show ?thesis
      using dump_wf [OF r(1)] r by (intro exI [of _ "filled ss"]) (simp add: slots_map_def dict_wf_def)
  qed
qed

text \<open>The pairs the program has asked for so far, each possibly without its value.\<close>

definition pairs_below :: "nat \<Rightarrow> (string \<times> string option) set" where
  "pairs_below i = (\<Union>j < i. {(dict_key j, None), (dict_key j, Some (dict_val j))})"

definition some_pairs :: "nat \<Rightarrow> (string \<rightharpoonup> string option) \<Rightarrow> bool" where
  "some_pairs i m \<longleftrightarrow> (\<forall>k v. m k = Some v \<longrightarrow> (k, v) \<in> pairs_below i)"

lemma some_pairs_add:
  assumes "add_outcome (dict_key i) (dict_val i) m rc m'" and "some_pairs i m"
  shows "some_pairs (Suc i) m'"
  using assms by cases (auto simp: some_pairs_def pairs_below_def lessThan_Suc)

text \<open>The live blocks are the two buffers and some of those the dictionary has allocated; \<open>f\<close> failures were to come
  when the program began.\<close>

definition lossy_state :: "nat \<Rightarrow> dheap \<Rightarrow> ptr \<Rightarrow> nat \<Rightarrow> bool" where
  "lossy_state f h dp i \<longleftrightarrow> (\<exists>m fp n. is_lossy h dp m fp n \<and> some_pairs i m \<and> n + fails h \<le> f \<and>
     (\<exists>s. key_buf \<notin> fp \<and> load_str key_buf h = Some s) \<and> (\<exists>s. val_buf \<notin> fp \<and> load_str val_buf h = Some s) \<and>
     dom (blocks h) \<subseteq> {key_buf, val_buf} \<union> fp)"

lemma step_dom: "\<lbrakk>step_mem fp fp' h h'; dom (blocks h) \<subseteq> A \<union> fp\<rbrakk> \<Longrightarrow> dom (blocks h') \<subseteq> A \<union> fp'"
  unfolding step_mem_def by (rule subsetI) (metis UnCI UnE domIff subsetD DiffI)

lemma store_pair_lossy:
  assumes s: "lossy_state f h dp i" and i: "i < 4096"
  shows "\<exists>h'. store_pairs i dp h = store_pairs (Suc i) dp h' \<and> lossy_state f h' dp (Suc i)"
proof -
  obtain m fp n ks vs where l: "is_lossy h dp m fp n" "some_pairs i m" "n + fails h \<le> f"
    "key_buf \<notin> fp" "load_str key_buf h = Some ks" "val_buf \<notin> fp" "load_str val_buf h = Some vs"
    "dom (blocks h) \<subseteq> {key_buf, val_buf} \<union> fp"
    using s by (auto simp: lossy_state_def)
  have nz: "key_buf \<noteq> NULL" "val_buf \<noteq> NULL" "key_buf \<noteq> val_buf" by (simp_all add: key_buf_def val_buf_def)
  define h0 where "h0 = h\<lparr>blocks := (blocks h)(key_buf \<mapsto> Str (dict_key i))\<rparr>"
  define h1 where "h1 = h0\<lparr>blocks := (blocks h0)(val_buf \<mapsto> Str (dict_val i))\<rparr>"
  have live: "blocks h key_buf = Some (Str ks)" "blocks h0 val_buf = Some (Str vs)"
    using l(5,7) nz by (simp_all add: load_Some h0_def)
  have l0: "is_lossy h0 dp m fp n" unfolding h0_def by (rule lossy_store [OF l(1,4) live(1)])
  have l1: "is_lossy h1 dp m fp n" unfolding h1_def by (rule lossy_store [OF l0 l(6) live(2)])
  have strs: "load_str key_buf h1 = Some (dict_key i)" "load_str val_buf h1 = Some (dict_val i)"
    using nz by (simp_all add: load_Some h1_def h0_def)
  from lossy.add_any [OF l1 strs l(6)] obtain rc h' m' fp' n' where a:
    "dictionary_add dp key_buf val_buf h1 = Some (rc, h')" "add_outcome (dict_key i) (dict_val i) m rc m'"
    "is_lossy h' dp m' fp' n'" "step_mem fp fp' h1 h'" "n' + fails h' \<le> n + fails h1"
    by blast
  have "store_pairs i dp h = store_pairs (Suc i) dp h'"
    using i live nz a(1) by (subst store_pairs.simps) (simp add: dict_pair_fits heap_store_def h1_def h0_def)
  moreover have "dom (blocks h1) \<subseteq> {key_buf, val_buf} \<union> fp" using l(8) by (auto simp: h1_def h0_def)
  then have "dom (blocks h') \<subseteq> {key_buf, val_buf} \<union> fp'" by (rule step_dom [OF a(4)])
  moreover have "fails h1 = fails h" by (simp add: fails_def h1_def h0_def)
  ultimately show ?thesis
    using some_pairs_add [OF a(2) l(2)] a(3,5) l(3) lossy.frame_keeps [OF l1 a(4) l(4) strs(1)]
      lossy.frame_keeps [OF l1 a(4) l(6) strs(2)]
    unfolding lossy_state_def by (metis le_trans)
qed

lemma store_pairs_lossy:
  "i \<le> 4096 \<Longrightarrow> lossy_state f h dp i \<Longrightarrow> \<exists>h'. store_pairs i dp h = Some h' \<and> lossy_state f h' dp 4096"
proof (induction "4096 - i" arbitrary: i h)
  case 0
  then show ?case by (subst store_pairs.simps) simp
next
  case (Suc n)
  then show ?case using store_pair_lossy [OF Suc.prems(2)] Suc.hyps(1) [of "Suc i"] by fastforce
qed

text \<open>Without a dictionary nothing is stored.\<close>

lemma store_pairs_NULL:
  "\<lbrakk>i \<le> 4096; {key_buf, val_buf} \<subseteq> dom (blocks h)\<rbrakk> \<Longrightarrow>
   \<exists>h'. store_pairs i NULL h = Some h' \<and> dom (blocks h') = dom (blocks h)"
proof (induction "4096 - i" arbitrary: i h)
  case 0
  then show ?case by (subst store_pairs.simps) simp
next
  case (Suc n)
  define h1 where "h1 = h\<lparr>blocks := (blocks h)(key_buf \<mapsto> Str (dict_key i), val_buf \<mapsto> Str (dict_val i))\<rparr>"
  have i: "i < 4096" using Suc.hyps(2) by simp
  have "key_buf \<noteq> NULL" "val_buf \<noteq> NULL" by (simp_all add: key_buf_def val_buf_def)
  then have "store_pairs i NULL h = store_pairs (Suc i) NULL h1"
    using Suc.prems(2) i
    by (subst store_pairs.simps) (auto simp: dict_pair_fits heap_store_def h1_def dictionary_add_def)
  moreover have "dom (blocks h1) = dom (blocks h)" using Suc.prems(2) by (auto simp: h1_def)
  ultimately show ?case using Suc.hyps(1) [of "Suc i" h1] Suc.hyps(2) Suc.prems(2) i by simp
qed

text \<open>The end of the program, from a dictionary.\<close>

lemma lossy_end:
  assumes "lossy_state f h dp 4096"
  shows "\<exists>kvs h'. dictionary_store fopen_ok dp h =
      Some (if fopen_ok then Some (concat (map (\<lambda>(k, v). dump_line (hash_string k) k v) kvs)) else None) \<and>
    distinct (map fst kvs) \<and> set kvs \<subseteq> pairs_below 4096 \<and>
    dictionary_destroy dp h = Some h' \<and> card (dom (blocks h')) \<le> 3 + f"
proof -
  obtain m fp n where l: "is_lossy h dp m fp n" "some_pairs 4096 m" "n + fails h \<le> f"
    "dom (blocks h) \<subseteq> {key_buf, val_buf} \<union> fp"
    using assms by (auto simp: lossy_state_def)
  obtain kvs where kvs: "dictionary_dump dp True h = Some (concat (map (\<lambda>(k, v). dump_line (hash_string k) k v) kvs))"
    "distinct (map fst kvs)" "map_of kvs \<subseteq>\<^sub>m m"
    using dump_lossy [OF l(1)] by blast
  have "(k, v) \<in> pairs_below 4096" if "(k, v) \<in> set kvs" for k v
    using that kvs(2,3) l(2) by (auto simp: some_pairs_def map_le_def dom_def)
  then have stored: "set kvs \<subseteq> pairs_below 4096" by auto
  obtain h' R where d: "dictionary_destroy dp h = Some h'" "finite R" "card R \<le> 1 + n"
    "blocks h' = (\<lambda>q. if q \<in> fp - R then None else blocks h q)"
    using destroy_lossy [OF l(1)] by blast
  have "dom (blocks h') \<subseteq> {key_buf, val_buf} \<union> R" 
    by (auto simp: d(4) split: if_splits dest!: subsetD [OF l(4), OF domI])
  then have "card (dom (blocks h')) \<le> card ({key_buf, val_buf} \<union> R)" using d(2) by (intro card_mono) auto
  also have "\<dots> \<le> card {key_buf, val_buf} + card R" by (rule card_Un_le)
  also have "\<dots> \<le> 3 + f" using d(3) l(3) by (simp add: card_insert_if key_buf_def val_buf_def)
  finally show ?thesis using stored kvs(1,2) d(1) by (intro exI [of _ kvs] exI [of _ h']) (simp add: dictionary_store_def)
qed

text \<open>C17: the dictionary example with any allocator. It is defined and ends even when the dictionary cannot be created,
  which it does not treat as an error; the file has at most one line for each key, each for a pair that the program
  stores or for its key without the value; and besides its two buffers at most the array of entries and one block
  per failed allocation are left.
\<close>

theorem dict_main_any_allocator:
  "\<exists>kvs h. dict_main pl fopen_ok =
      Some (if fopen_ok then Some (concat (map (\<lambda>(k, v). dump_line (hash_string k) k v) kvs)) else None, h) \<and>
    distinct (map fst kvs) \<and> set kvs \<subseteq> pairs_below 4096 \<and> card (dom (blocks h)) \<le> 3 + count_list pl Fail"
proof -
  let ?h0 = "main_heap pl"
  have ok: "heap_ok ?h0" by (auto simp: heap_ok_def main_heap_def key_buf_def val_buf_def)
  obtain dp h1 where c: "dictionary_create 0 ?h0 = Some (dp, h1)"
    "if dp = NULL then blocks h1 = blocks ?h0
     else \<exists>fp. is_lossy h1 dp Map.empty fp 0 \<and> step_mem {} fp ?h0 h1 \<and> fails h1 = fails ?h0"
    using create_lossy [OF ok, of 0] by blast
  show ?thesis
  proof (cases "dp = NULL")
    case True
    have dom: "dom (blocks h1) = {key_buf, val_buf}" using c(2) True by (auto simp: main_heap_def)
    then obtain h2 where h2: "store_pairs 0 dp h1 = Some h2" "dom (blocks h2) = {key_buf, val_buf}"
      using store_pairs_NULL [of 0 h1] True by auto
    then have "dict_main pl fopen_ok = Some (if fopen_ok then Some [] else None, h2)"
      using c(1) True by (simp add: dict_main_def dictionary_store_def dictionary_dump_def dictionary_destroy_def)
    moreover have "card (dom (blocks h2)) \<le> 3" unfolding h2(2) by (simp add: card_insert_if)
    ultimately show ?thesis by (intro exI [of _ "[]"] exI [of _ h2]) simp
  next
    case False
    then obtain fp where fp: "is_lossy h1 dp Map.empty fp 0" "step_mem {} fp ?h0 h1" "fails h1 = fails ?h0"
      using c(2) by auto
    have strs: "load_str key_buf ?h0 = Some []" "load_str val_buf ?h0 = Some []"
      by (simp_all add: load_Some main_heap_def key_buf_def val_buf_def)
    have "dom (blocks h1) \<subseteq> {key_buf, val_buf} \<union> fp" by (rule step_dom [OF fp(2)]) (auto simp: main_heap_def)
    then have "lossy_state (count_list pl Fail) h1 dp 0"
      using fp(1,3) step_keeps_strings [OF fp(2) ok _ strs(1)] step_keeps_strings [OF fp(2) ok _ strs(2)]
      by (auto simp: lossy_state_def some_pairs_def fails_def main_heap_def)
    then obtain h2 where h2: "store_pairs 0 dp h1 = Some h2" "lossy_state (count_list pl Fail) h2 dp 4096"
      using store_pairs_lossy by blast
    then show ?thesis using c(1) lossy_end [OF h2(2), of fopen_ok] by (auto simp: dict_main_def)
  qed
qed

end
