(* ===== verification/C_Timer.thy ===== *)
theory C_Timer
  imports Prelude
begin

text \<open>
  The system interfaces that \<open>lib/timestamp.c\<close>, its example, \<open>posix/timer\<close> and the deadlines of \<open>lib/queue.c\<close>
  use: times, POSIX timers, and the terminal settings. \<open>time_t\<close> and \<open>long\<close> are integers in their
  64-bit range; a timer is kept in nanoseconds.
\<close>

subsection \<open>Times\<close>

record timespec =
  tv_sec :: int
  tv_nsec :: int

text \<open>Times are ordered as the system compares them: by the seconds, then by the nanoseconds.\<close>

instantiation timespec_ext :: (linorder) linorder
begin

definition less_eq_timespec_ext :: "'a timespec_ext \<Rightarrow> 'a timespec_ext \<Rightarrow> bool" where
  "a \<le> b \<longleftrightarrow> tv_sec a < tv_sec b \<or> tv_sec a = tv_sec b \<and>
     (tv_nsec a < tv_nsec b \<or> tv_nsec a = tv_nsec b \<and> timespec.more a \<le> timespec.more b)"

definition less_timespec_ext :: "'a timespec_ext \<Rightarrow> 'a timespec_ext \<Rightarrow> bool" where
  "a < b \<longleftrightarrow> a \<le> b \<and> \<not> b \<le> (a :: 'a timespec_ext)"

instance
proof
  fix a b :: "'a timespec_ext"
  assume "a \<le> b" and "b \<le> a"
  then have "tv_sec a = tv_sec b" "tv_nsec a = tv_nsec b" "timespec.more a = timespec.more b"
    by (auto simp: less_eq_timespec_ext_def)
  then show "a = b" by (simp add: timespec.equality)
qed (auto simp: less_eq_timespec_ext_def less_timespec_ext_def)

end

record itimerspec =
  it_interval :: timespec
  it_value :: timespec

definition ts_nanos :: "timespec \<Rightarrow> int" where
  "ts_nanos ts = tv_sec ts * 1000000000 + tv_nsec ts"

definition ts_of :: "int \<Rightarrow> timespec" where
  "ts_of n = \<lparr>tv_sec = n div 1000000000, tv_nsec = n mod 1000000000\<rparr>"

definition ts_valid :: "timespec \<Rightarrow> bool" where
  "ts_valid ts \<longleftrightarrow> 0 \<le> tv_sec ts \<and> 0 \<le> tv_nsec ts \<and> tv_nsec ts < 1000000000"

lemma ts_nanos_of [simp]: "ts_nanos (ts_of n) = n"
  by (simp add: ts_nanos_def ts_of_def)

lemma ts_of_nanos: "ts_valid ts \<Longrightarrow> ts_of (ts_nanos ts) = ts"
  by (simp add: ts_nanos_def ts_of_def ts_valid_def)

lemma ts_valid_of [simp]: "ts_valid (ts_of n) \<longleftrightarrow> 0 \<le> n"
  by (auto simp: ts_valid_def ts_of_def pos_imp_zdiv_nonneg_iff)

lemma ts_nanos_nonneg: "ts_valid ts \<Longrightarrow> 0 \<le> ts_nanos ts"
  by (simp add: ts_valid_def ts_nanos_def)

text \<open>For valid times the order is that of the nanoseconds they stand for.\<close>

lemma ts_le_iff: "\<lbrakk>ts_valid a; ts_valid b\<rbrakk> \<Longrightarrow> a \<le> b \<longleftrightarrow> ts_nanos a \<le> ts_nanos b"
  by (auto simp: less_eq_timespec_ext_def ts_valid_def ts_nanos_def)

text \<open>C's \<open>/\<close> and \<open>%\<close> truncate towards zero.\<close>

definition c_div :: "int \<Rightarrow> int \<Rightarrow> int" where
  "c_div a b = (if (a < 0) = (b < 0) then \<bar>a\<bar> div \<bar>b\<bar> else - (\<bar>a\<bar> div \<bar>b\<bar>))"

definition c_mod :: "int \<Rightarrow> int \<Rightarrow> int" where
  "c_mod a b = a - c_div a b * b"

lemma c_div_pos: "0 \<le> a \<Longrightarrow> 0 < b \<Longrightarrow> c_div a b = a div b"
  by (simp add: c_div_def)

lemma c_mod_pos: "0 \<le> a \<Longrightarrow> 0 < b \<Longrightarrow> c_mod a b = a mod b"
  by (simp add: c_mod_def c_div_pos minus_div_mult_eq_mod)

subsection \<open>POSIX timers\<close>

text \<open>
  A timer that has not been set, or was set to zero, is disarmed. Otherwise it expires at a moment
  of the clock, and again after every period when it has one.
\<close>

record ptimer =
  period :: int
  expiry :: "int option"

type_synonym timers = "nat \<rightharpoonup> ptimer"

definition remaining :: "int \<Rightarrow> ptimer \<Rightarrow> int" where
  "remaining now t = (case expiry t of None \<Rightarrow> 0
     | Some e \<Rightarrow> if now < e then e - now else if period t = 0 then 0 else period t - (now - e) mod period t)"

text \<open>A new timer, or \<^term>\<open>None\<close> when the system has none; \<open>granted\<close> is the system's answer.\<close>

definition timer_create :: "nat option \<Rightarrow> timers \<Rightarrow> int \<times> timers" where
  "timer_create granted T = (case granted of None \<Rightarrow> (- 1, T) | Some tid \<Rightarrow> (0, T(tid \<mapsto> \<lparr>period = 0, expiry = None\<rparr>)))"

definition timer_delete :: "nat \<Rightarrow> timers \<Rightarrow> timers" where
  "timer_delete tid T = T(tid := None)"

definition timer_spec :: "int \<Rightarrow> ptimer \<Rightarrow> itimerspec" where
  "timer_spec now t = \<lparr>it_interval = ts_of (period t), it_value = ts_of (remaining now t)\<rparr>"

text \<open>\<open>timer_gettime(tid, p)\<close>: the return value and the structure written.\<close>

definition timer_gettime :: "int \<Rightarrow> nat \<Rightarrow> timers \<Rightarrow> int \<times> itimerspec option" where
  "timer_gettime now tid T = (case T tid of None \<Rightarrow> (- 1, None) | Some t \<Rightarrow> (0, Some (timer_spec now t)))"

text \<open>\<open>timer_settime(tid, 0, v, old)\<close>: the return value, the structure written to \<open>old\<close>, the timers.\<close>

definition timer_settime :: "int \<Rightarrow> nat \<Rightarrow> itimerspec \<Rightarrow> timers \<Rightarrow> int \<times> itimerspec option \<times> timers" where
  "timer_settime now tid v T = (case T tid of None \<Rightarrow> (- 1, None, T)
     | Some t \<Rightarrow>
         if \<not> ts_valid (it_value v) \<or> \<not> ts_valid (it_interval v) then (- 1, None, T)
         else if ts_nanos (it_value v) = 0
         then (0, Some (timer_spec now t), T(tid \<mapsto> \<lparr>period = 0, expiry = None\<rparr>))
         else (0, Some (timer_spec now t),
               T(tid \<mapsto> \<lparr>period = ts_nanos (it_interval v), expiry = Some (now + ts_nanos (it_value v))\<rparr>)))"

definition timers_ok :: "timers \<Rightarrow> bool" where
  "timers_ok T \<longleftrightarrow> (\<forall>t \<in> ran T. 0 \<le> period t)"

lemma remaining_nonneg: "0 \<le> period t \<Longrightarrow> 0 \<le> remaining now t"
  using pos_mod_bound [of "period t"] by (auto simp: remaining_def less_imp_le split: option.splits)

text \<open>A periodic timer set to its period runs down from it over and over.\<close>

lemma remaining_periodic:
  assumes "0 < p" and "t0 \<le> now"
  shows "remaining now \<lparr>period = p, expiry = Some (t0 + p)\<rparr> = p - (now - t0) mod p"
proof (cases "now < t0 + p")
  case True
  then show ?thesis using assms by (simp add: remaining_def mod_pos_pos_trivial)
next
  case False
  have "(now - (t0 + p)) mod p = (now - t0) mod p"
    by (metis diff_diff_add minus_mod_self2)
  then show ?thesis using False assms by (simp add: remaining_def)
qed

subsection \<open>The terminal\<close>

record termios =
  icanon :: bool
  echo :: bool
  vmin :: nat

text \<open>\<open>%<w>lu\<close> of a \<open>long\<close>.\<close>

definition lu :: "nat \<Rightarrow> int \<Rightarrow> string" where
  "lu w x = pad_left (CHR '' '') w (dec_nat (nat (x mod 2 ^ 64)))"

text \<open>A key press: the value of \<open>fgetc\<close> and the clock at the two system calls its handling can make.\<close>

type_synonym key = "int \<times> int \<times> int"

abbreviation ord_of :: "char \<Rightarrow> int" where
  "ord_of c \<equiv> of_char c"

text \<open>The clock does not run backwards.\<close>

fun clock_ok :: "int \<Rightarrow> key list \<Rightarrow> bool" where
  "clock_ok now [] \<longleftrightarrow> True"
| "clock_ok now ((c, t, t') # ks) \<longleftrightarrow> now \<le> t \<and> t \<le> t' \<and> clock_ok t' ks"

lemma clock_ok_mono: "clock_ok t ks \<Longrightarrow> s \<le> t \<Longrightarrow> clock_ok s ks"
  by (induction ks) auto

end
