(* ===== verification/Queue.thy ===== *)
theory Queue
  imports C_Heap C_Timer
begin

text \<open>
  \<open>lib/queue.c\<close>: a bounded queue of fixed-size messages in a ring of bytes. The heap holds the
  byte buffers, the queues, and blocks of the client. The pointers \<open>p_tail\<close>, \<open>p_write\<close> and
  \<open>p_read\<close> all point into the buffer at \<open>p_head\<close> and are kept as byte offsets from it. Counts and
  sizes are words of their C widths.

  Locking is modelled by the state of the mutex: locking a locked mutex does not return, and
  unlocking or waiting without holding it is undefined; both are \<^term>\<open>None\<close>. While a thread waits
  on a condition variable the mutex is free and other threads run: a \<^term>\<open>wake\<close> is one return of
  \<open>pthread_cond_timedwait\<close>, with its time and with what the other threads did meanwhile.
  Cancellation and the broadcasts, which only cause wakes, have no state of their own.
\<close>

record queue =
  q_lock :: bool
  q_static :: bool
  q_nmemb :: size_t
  q_size :: size_t
  q_avail :: size_t
  q_head :: ptr
  q_tail :: nat
  q_write :: nat
  q_read :: nat

datatype 'o qblock = Bytes "u8 list" | Queue queue | Item 'o

type_synonym 'o qheap = "'o qblock heap"

type_synonym 'o wake = "timespec \<times> ('o qheap \<Rightarrow> 'o qheap)"

subsection \<open>Memory\<close>

definition load_queue :: "ptr \<Rightarrow> 'o qheap \<Rightarrow> queue option" where
  "load_queue p h = (case heap_load p h of Some (Queue q) \<Rightarrow> Some q | _ \<Rightarrow> None)"

definition store_queue :: "ptr \<Rightarrow> queue \<Rightarrow> 'o qheap \<Rightarrow> 'o qheap option" where
  "store_queue p q h = heap_store p (Queue q) h"

definition load_bytes :: "ptr \<Rightarrow> 'o qheap \<Rightarrow> u8 list option" where
  "load_bytes p h = (case heap_load p h of Some (Bytes bs) \<Rightarrow> Some bs | _ \<Rightarrow> None)"

text \<open>\<open>memcpy\<close> into and out of a block, inside its bounds.\<close>

definition write_bytes :: "ptr \<Rightarrow> nat \<Rightarrow> u8 list \<Rightarrow> 'o qheap \<Rightarrow> 'o qheap option" where
  "write_bytes p off xs h = do {
     bs \<leftarrow> load_bytes p h;
     if off + length xs \<le> length bs
     then heap_store p (Bytes (take off bs @ xs @ drop (off + length xs) bs)) h else None }"

definition read_bytes :: "ptr \<Rightarrow> nat \<Rightarrow> nat \<Rightarrow> 'o qheap \<Rightarrow> u8 list option" where
  "read_bytes p off n h = do {
     bs \<leftarrow> load_bytes p h;
     if off + n \<le> length bs then Some (take n (drop off bs)) else None }"

definition mutex_lock :: "ptr \<Rightarrow> 'o qheap \<Rightarrow> 'o qheap option" where
  "mutex_lock qp h = do {
     q \<leftarrow> load_queue qp h;
     if q_lock q then None else store_queue qp (q\<lparr>q_lock := True\<rparr>) h }"

definition mutex_unlock :: "ptr \<Rightarrow> 'o qheap \<Rightarrow> 'o qheap option" where
  "mutex_unlock qp h = do {
     q \<leftarrow> load_queue qp h;
     if q_lock q then store_queue qp (q\<lparr>q_lock := False\<rparr>) h else None }"

subsection \<open>Creation and destruction\<close>

definition queue_zero :: queue where
  "queue_zero = \<lparr>q_lock = False, q_static = False, q_nmemb = 0, q_size = 0, q_avail = 0,
     q_head = NULL, q_tail = 0, q_write = 0, q_read = 0\<rparr>"

text \<open>The parameters of \<open>queue_setup\<close> are 32-bit: so is the product in \<open>p_tail\<close>.\<close>

definition queue_setup :: "ptr \<Rightarrow> u32 \<Rightarrow> u32 \<Rightarrow> 'o qheap \<Rightarrow> (ptr \<times> 'o qheap) option" where
  "queue_setup p nmemb sz h =
     (let (qp, h) = heap_alloc (Queue queue_zero) h
      in if qp = NULL then Some (NULL, h)
         else do {
           h \<leftarrow> store_queue qp (queue_zero\<lparr>q_head := p, q_write := 0, q_read := 0,
                  q_tail := unat ((nmemb - 1) * sz), q_nmemb := ucast nmemb, q_size := ucast sz\<rparr>) h;
           Some (qp, h) })"

definition queue_create_static ::
  "ptr \<Rightarrow> size_t \<Rightarrow> size_t \<Rightarrow> size_t \<Rightarrow> 'o qheap \<Rightarrow> (ptr \<times> errno option \<times> 'o qheap) option" where
  "queue_create_static p count nmemb sz h =
     (if nmemb = 0 \<or> sz = 0 \<or> nmemb * sz < count then Some (NULL, Some EINVAL, h)
      else do {
        (qp, h) \<leftarrow> queue_setup p (ucast nmemb) (ucast sz) h;
        if qp = NULL then Some (NULL, Some ENOMEM, h)
        else do {
          q \<leftarrow> load_queue qp h;
          h \<leftarrow> store_queue qp (q\<lparr>q_static := True\<rparr>) h;
          Some (qp, None, h) } })"

definition queue_create ::
  "size_t \<Rightarrow> size_t \<Rightarrow> 'o qheap \<Rightarrow> (ptr \<times> errno option \<times> 'o qheap) option" where
  "queue_create nmemb sz h =
     (if nmemb = 0 \<or> sz = 0 then Some (NULL, Some EINVAL, h)
      else
        let (p, h) = heap_alloc (Bytes (replicate (unat (nmemb * sz)) 0)) h
        in if p = NULL then Some (NULL, Some ENOMEM, h)
           else do {
             (qp, h) \<leftarrow> queue_setup p (ucast nmemb) (ucast sz) h;
             if qp = NULL then do { h \<leftarrow> heap_free p h; Some (NULL, Some ENOMEM, h) }
             else Some (qp, None, h) })"

definition queue_destroy :: "ptr \<Rightarrow> 'o qheap \<Rightarrow> 'o qheap option" where
  "queue_destroy qp h =
     (if qp = NULL then Some h
      else do {
        q \<leftarrow> load_queue qp h;
        h \<leftarrow> (if q_static q then Some h else heap_free (q_head q) h);
        heap_free qp h })"

subsection \<open>State queries\<close>

definition of_bool_int :: "bool \<Rightarrow> int" where
  "of_bool_int b = (if b then 1 else 0)"

definition queue_is_empty_locked :: "queue \<Rightarrow> int" where
  "queue_is_empty_locked q = of_bool_int (q_avail q = 0)"

definition queue_is_full_locked :: "queue \<Rightarrow> int" where
  "queue_is_full_locked q = of_bool_int (q_nmemb q = q_avail q)"

text \<open>The difference is converted to \<open>int\<close>.\<close>

definition queue_space_available_locked :: "queue \<Rightarrow> int" where
  "queue_space_available_locked q = sint (ucast (q_nmemb q - q_avail q) :: u32)"

definition locked_query :: "(queue \<Rightarrow> int) \<Rightarrow> ptr \<Rightarrow> 'o qheap \<Rightarrow> (int \<times> errno option \<times> 'o qheap) option" where
  "locked_query f qp h =
     (if qp = NULL then Some (- 1, Some EINVAL, h)
      else do {
        h \<leftarrow> mutex_lock qp h;
        q \<leftarrow> load_queue qp h;
        h \<leftarrow> mutex_unlock qp h;
        Some (f q, None, h) })"

definition queue_is_empty :: "ptr \<Rightarrow> 'o qheap \<Rightarrow> (int \<times> errno option \<times> 'o qheap) option" where
  "queue_is_empty = locked_query queue_is_empty_locked"

definition queue_is_full :: "ptr \<Rightarrow> 'o qheap \<Rightarrow> (int \<times> errno option \<times> 'o qheap) option" where
  "queue_is_full = locked_query queue_is_full_locked"

definition queue_space_available :: "ptr \<Rightarrow> 'o qheap \<Rightarrow> (int \<times> errno option \<times> 'o qheap) option" where
  "queue_space_available = locked_query queue_space_available_locked"

subsection \<open>Deadlines\<close>

definition queue_ts_add :: "timespec \<Rightarrow> int \<Rightarrow> timespec" where
  "queue_ts_add ts timeout =
     (let ts = ts\<lparr>tv_nsec := tv_nsec ts + c_mod timeout 1000 * 1000000\<rparr>
      in if tv_nsec ts > 999999999
         then ts\<lparr>tv_nsec := tv_nsec ts - 999999999, tv_sec := tv_sec ts + (c_div timeout 1000 + 1)\<rparr>
         else ts\<lparr>tv_sec := tv_sec ts + c_div timeout 1000\<rparr>)"

definition deadline :: "timespec \<Rightarrow> int \<Rightarrow> timespec" where
  "deadline now timeout = (if timeout \<noteq> 0 then queue_ts_add now timeout else now)"

text \<open>
  \<open>pthread_cond_timedwait\<close>: the result and the wakes still to come. The mutex is released, the
  other threads run, the mutex is taken again. A wake at or after the deadline is a timeout; with
  no more wakes the deadline passes.
\<close>

definition cond_timedwait ::
  "ptr \<Rightarrow> timespec \<Rightarrow> 'o wake list \<Rightarrow> 'o qheap \<Rightarrow> (errno option \<times> 'o wake list \<times> 'o qheap) option" where
  "cond_timedwait qp ts ws h = do {
     h \<leftarrow> mutex_unlock qp h;
     case ws of
       [] \<Rightarrow> do { h \<leftarrow> mutex_lock qp h; Some (Some ETIMEDOUT, [], h) }
     | (t, f) # ws \<Rightarrow> do {
         h \<leftarrow> mutex_lock qp (f h);
         Some (if ts \<le> t then Some ETIMEDOUT else None, ws, h) } }"

text \<open>
  The loop \<open>while(blocked(q) && ret == 0) ret = pthread_cond_timedwait(...)\<close> of the three waiting
  functions. The first turn is entered with \<open>ret = 0\<close>.
\<close>

fun wait_loop ::
  "(queue \<Rightarrow> bool) \<Rightarrow> ptr \<Rightarrow> timespec \<Rightarrow> 'o wake list \<Rightarrow> 'o qheap \<Rightarrow> ('o wake list \<times> 'o qheap) option" where
  "wait_loop blocked qp ts [] h = do {
     q \<leftarrow> load_queue qp h;
     if blocked q then do { (_, ws, h) \<leftarrow> cond_timedwait qp ts [] h; Some (ws, h) }
     else Some ([], h) }"
| "wait_loop blocked qp ts (w # ws) h = do {
     q \<leftarrow> load_queue qp h;
     if blocked q
     then do {
       (ret, _, h) \<leftarrow> cond_timedwait qp ts (w # ws) h;
       if ret = None then wait_loop blocked qp ts ws h else Some (ws, h) }
     else Some (w # ws, h) }"

subsection \<open>Sending and receiving\<close>

definition queue_send_wait ::
  "ptr \<Rightarrow> int \<Rightarrow> timespec \<Rightarrow> 'o wake list \<Rightarrow> 'o qheap \<Rightarrow> (int \<times> 'o wake list \<times> 'o qheap) option" where
  "queue_send_wait qp timeout now ws h = do {
     (ws, h) \<leftarrow> wait_loop (\<lambda>q. queue_is_full_locked q \<noteq> 0) qp (deadline now timeout) ws h;
     q \<leftarrow> load_queue qp h;
     Some (queue_is_full_locked q, ws, h) }"

text \<open>The part of \<open>queue_send\<close> that stores the message at \<open>p\<close> (the bytes \<open>src\<close>) in the ring.\<close>

definition send_commit :: "ptr \<Rightarrow> u8 list \<Rightarrow> 'o qheap \<Rightarrow> 'o qheap option" where
  "send_commit qp src h = do {
     q \<leftarrow> load_queue qp h;
     let n = unat (q_size q);
     if n \<le> length src
     then do {
       h \<leftarrow> write_bytes (q_head q) (q_write q) (take n src) h;
       store_queue qp (q\<lparr>q_write := (if q_write q = q_tail q then 0 else q_write q + n),
         q_avail := q_avail q + 1\<rparr>) h }
     else None }"

definition queue_send ::
  "ptr \<Rightarrow> u8 list \<Rightarrow> int \<Rightarrow> timespec \<Rightarrow> 'o wake list \<Rightarrow> 'o qheap \<Rightarrow>
     (int \<times> errno option \<times> 'o wake list \<times> 'o qheap) option" where
  "queue_send qp src timeout now ws h =
     (if qp = NULL then Some (- 1, Some EINVAL, ws, h)
      else do {
        h \<leftarrow> mutex_lock qp h;
        q \<leftarrow> load_queue qp h;
        (full, ws, h) \<leftarrow>
          (if queue_is_full_locked q \<noteq> 0 then queue_send_wait qp timeout now ws h
           else Some (0, ws, h));
        if full \<noteq> 0
        then do { h \<leftarrow> mutex_unlock qp h; Some (- 1, Some ENOSPC, ws, h) }
        else do {
          h \<leftarrow> send_commit qp src h;
          h \<leftarrow> mutex_unlock qp h;
          Some (0, None, ws, h) } })"

definition queue_recv_wait ::
  "ptr \<Rightarrow> int \<Rightarrow> timespec \<Rightarrow> 'o wake list \<Rightarrow> 'o qheap \<Rightarrow> (int \<times> 'o wake list \<times> 'o qheap) option" where
  "queue_recv_wait qp timeout now ws h = do {
     (ws, h) \<leftarrow> wait_loop (\<lambda>q. queue_is_empty_locked q \<noteq> 0) qp (deadline now timeout) ws h;
     q \<leftarrow> load_queue qp h;
     Some (queue_is_empty_locked q, ws, h) }"

text \<open>The part of \<open>queue_recv\<close> that takes a message out of the ring: the bytes written to \<open>p\<close>.\<close>

definition recv_commit :: "ptr \<Rightarrow> 'o qheap \<Rightarrow> (u8 list \<times> 'o qheap) option" where
  "recv_commit qp h = do {
     q \<leftarrow> load_queue qp h;
     let n = unat (q_size q);
     msg \<leftarrow> read_bytes (q_head q) (q_read q) n h;
     h \<leftarrow> store_queue qp (q\<lparr>q_read := (if q_read q = q_tail q then 0 else q_read q + n),
       q_avail := q_avail q - 1\<rparr>) h;
     Some (msg, h) }"

text \<open>The message is \<^term>\<open>None\<close> when the call failed; the buffer at \<open>p\<close> is then not written.\<close>

definition queue_recv ::
  "ptr \<Rightarrow> int \<Rightarrow> timespec \<Rightarrow> 'o wake list \<Rightarrow> 'o qheap \<Rightarrow>
     (int \<times> errno option \<times> u8 list option \<times> 'o wake list \<times> 'o qheap) option" where
  "queue_recv qp timeout now ws h =
     (if qp = NULL then Some (- 1, Some EINVAL, None, ws, h)
      else do {
        h \<leftarrow> mutex_lock qp h;
        q \<leftarrow> load_queue qp h;
        (empty, ws, h) \<leftarrow>
          (if queue_is_empty_locked q \<noteq> 0 then queue_recv_wait qp timeout now ws h
           else Some (0, ws, h));
        if empty \<noteq> 0
        then do { h \<leftarrow> mutex_unlock qp h; Some (- 1, Some EAGAIN, None, ws, h) }
        else do {
          (msg, h) \<leftarrow> recv_commit qp h;
          h \<leftarrow> mutex_unlock qp h;
          Some (0, None, Some msg, ws, h) } })"

text \<open>\<open>queue_empty_wait\<close> waits on the queue without locking its mutex first.\<close>

definition queue_empty_wait ::
  "ptr \<Rightarrow> int \<Rightarrow> timespec \<Rightarrow> 'o wake list \<Rightarrow> 'o qheap \<Rightarrow>
     (int \<times> errno option \<times> 'o wake list \<times> 'o qheap) option" where
  "queue_empty_wait qp timeout now ws h =
     (if qp = NULL then Some (- 1, Some EINVAL, ws, h)
      else do {
        (ws, h) \<leftarrow> wait_loop (\<lambda>q. queue_is_empty_locked q = 0) qp (deadline now timeout) ws h;
        h \<leftarrow> mutex_unlock qp h;
        q \<leftarrow> load_queue qp h;
        Some (of_bool_int (queue_is_empty_locked q = 0), None, ws, h) })"

lemma load_queue_Some: "load_queue p h = Some q \<longleftrightarrow> p \<noteq> NULL \<and> blocks h p = Some (Queue q)"
  by (auto simp: load_queue_def heap_load_def split: option.splits qblock.splits)

lemma load_bytes_Some: "load_bytes p h = Some bs \<longleftrightarrow> p \<noteq> NULL \<and> blocks h p = Some (Bytes bs)"
  by (auto simp: load_bytes_def heap_load_def split: option.splits qblock.splits)

end
