(* ===== verification/Queue_Ring.thy ===== *)
theory Queue_Ring
  imports Queue
begin

text \<open>
  The ring of \<open>lib/queue.c\<close> as a list of messages: the invariant of the pointers, the messages the
  ring holds, and what storing and taking a message do to them.
\<close>

subsection \<open>Cells of the ring\<close>

definition chunk :: "nat \<Rightarrow> 'a list \<Rightarrow> nat \<Rightarrow> 'a list" where
  "chunk s bs i = take s (drop (i * s) bs)"

lemma chunk_write_same:
  "length xs = s \<Longrightarrow> (i + 1) * s \<le> length bs \<Longrightarrow>
   chunk s (take (i * s) bs @ xs @ drop (i * s + s) bs) i = xs"
  by (simp add: chunk_def min_def)

lemma chunk_write_other:
  assumes "length xs = s" and "(i + 1) * s \<le> length bs" and "j \<noteq> i"
  shows "chunk s (take (i * s) bs @ xs @ drop (i * s + s) bs) j = chunk s bs j"
proof (cases "j < i")
  case True
  then have "j * s + s \<le> i * s" using mult_le_mono1 [of "Suc j" i s] by simp
  then have "s \<le> i * s - j * s" "i * s - j * s \<le> length bs - j * s" using assms(2) by simp_all
  then show ?thesis by (simp add: chunk_def drop_take min_def)
next
  case False
  then obtain d where "j = Suc i + d" using assms(3) by (metis less_iff_Suc_add linorder_neqE_nat add_Suc)
  then have "j * s = i * s + s + d * s" by (simp add: add_mult_distrib)
  then show ?thesis using assms(1,2) by (simp add: chunk_def min_def add.commute add.left_commute)
qed

lemma next_offset:
  assumes "i < n" and "0 < s"
  shows "(if i * s = (n - 1) * s then 0 else i * s + s) = (Suc i mod n) * s"
  using assms by (cases "Suc i = n") auto

lemma mod_shift_inject:
  fixes n :: nat
  assumes "a < n" and "b < n" and eq: "(r + a) mod n = (r + b) mod n"
  shows "a = b"
proof (rule ccontr)
  have no: False if "x < y" "y < n" "(r + y) mod n = (r + x) mod n" for x y
  proof -
    have "n dvd y - x" using mod_eq_dvd_iff_nat [of "r + x" "r + y" n] that by simp
    then show False using that(1,2) nat_dvd_not_less [of "y - x" n] by simp
  qed
  assume "a \<noteq> b"
  then show False using no [of a b] no [of b a] assms by (cases "a < b") auto
qed

subsection \<open>The invariant\<close>

definition capacity_of :: "queue \<Rightarrow> nat" where "capacity_of q = unat (q_nmemb q)"
definition msg_size :: "queue \<Rightarrow> nat" where "msg_size q = unat (q_size q)"
definition count_of :: "queue \<Rightarrow> nat" where "count_of q = unat (q_avail q)"

text \<open>
  The pointers stand at cell boundaries, the last cell begins at \<open>p_tail\<close>, and the write pointer
  is \<open>avail\<close> cells after the read pointer, around the ring.
\<close>

definition ring :: "'o qheap \<Rightarrow> ptr \<Rightarrow> queue \<Rightarrow> u8 list \<Rightarrow> nat \<Rightarrow> bool" where
  "ring h qp q bs r \<longleftrightarrow> heap_ok h \<and> load_queue qp h = Some q \<and> load_bytes (q_head q) h = Some bs \<and>
     0 < msg_size q \<and> capacity_of q * msg_size q \<le> length bs \<and>
     q_tail q = (capacity_of q - 1) * msg_size q \<and> count_of q \<le> capacity_of q \<and>
     r < capacity_of q \<and> q_read q = r * msg_size q \<and>
     q_write q = ((r + count_of q) mod capacity_of q) * msg_size q"

definition contents :: "queue \<Rightarrow> u8 list \<Rightarrow> nat \<Rightarrow> u8 list list" where
  "contents q bs r =
     map (\<lambda>k. chunk (msg_size q) bs ((r + k) mod capacity_of q)) [0..<count_of q]"

lemma length_contents [simp]: "length (contents q bs r) = count_of q"
  by (simp add: contents_def)

lemma cell_in_buffer:
  assumes "i < (n :: nat)" and "n * s \<le> m"
  shows "(i + 1) * s \<le> m" and "i * s + s \<le> m"
proof -
  have "(i + 1) * s \<le> n * s" using assms(1) by (intro mult_le_mono1) simp
  then show "(i + 1) * s \<le> m" "i * s + s \<le> m" using assms(2) by simp_all
qed

lemma full_iff: "queue_is_full_locked q \<noteq> 0 \<longleftrightarrow> count_of q = capacity_of q"
  by (auto simp: queue_is_full_locked_def of_bool_int_def count_of_def capacity_of_def word_unat_eq_iff)

lemma empty_iff: "queue_is_empty_locked q \<noteq> 0 \<longleftrightarrow> count_of q = 0"
  by (auto simp: queue_is_empty_locked_def of_bool_int_def count_of_def unat_eq_0)

text \<open>The messages after a write to the cell behind the last one.\<close>

lemma contents_write:
  fixes r :: nat
  assumes room: "count_of q < capacity_of q"
  defines "i \<equiv> (r + count_of q) mod capacity_of q" and "s \<equiv> msg_size q"
  assumes fit: "i * s + s \<le> length bs" "(i + 1) * s \<le> length bs" and len: "length m = s"
    and q': "capacity_of q' = capacity_of q" "msg_size q' = s" "count_of q' = count_of q + 1"
  shows "contents q' (take (i * s) bs @ m @ drop (i * s + s) bs) r = contents q bs r @ [m]"
proof -
  let ?bs = "take (i * s) bs @ m @ drop (i * s + s) bs"
  have "chunk s ?bs ((r + k) mod capacity_of q) = chunk s bs ((r + k) mod capacity_of q)" if "k < count_of q" for k
  proof -
    have "(r + k) mod capacity_of q \<noteq> i"
      using mod_shift_inject [of k "capacity_of q" "count_of q" r] that room by (auto simp: i_def)
    then show ?thesis using chunk_write_other [OF len fit(2)] by simp
  qed
  moreover have "chunk s ?bs i = m" using chunk_write_same [OF len fit(2)] by simp
  ultimately show ?thesis unfolding contents_def q' s_def [symmetric] by (simp add: i_def)
qed

text \<open>Storing a message appends it; taking one removes the first.\<close>

lemma ring_blocks:
  assumes "ring h qp q bs r"
  shows "qp \<noteq> NULL" and "q_head q \<noteq> NULL" and "blocks h qp = Some (Queue q)" and "blocks h (q_head q) = Some (Bytes bs)"
    and "qp \<noteq> q_head q"
  using assms by (auto simp: ring_def load_queue_Some load_bytes_Some)

text \<open>The memory after a message is stored in cell \<open>i\<close>.\<close>

lemma send_commit_run:
  assumes r: "ring h qp q bs r" and src: "msg_size q \<le> length src"
    and i_def: "i = (r + count_of q) mod capacity_of q" and s_def: "s = msg_size q"
  shows "send_commit qp src h = Some (h\<lparr>blocks := (blocks h)(q_head q \<mapsto> Bytes (take (i * s) bs @ take s src @ drop (i * s + s) bs),
      qp \<mapsto> Queue (q\<lparr>q_write := (Suc i mod capacity_of q) * s, q_avail := q_avail q + 1\<rparr>))\<rparr>)"
    and "i < capacity_of q" and "i * s + s \<le> length bs" and "length (take s src) = s"
proof -
  note R = r [unfolded ring_def, folded s_def] and qb = ring_blocks [OF r]
  show i: "i < capacity_of q" using R by (simp add: i_def)
  show fit: "i * s + s \<le> length bs" using cell_in_buffer [OF i] R by blast
  show len: "length (take s src) = s" using src by (simp add: s_def)
  have e: "q_write q = i * s" "q_tail q = (capacity_of q - 1) * s" "0 < s" using R by (simp_all add: i_def)
  have "(if q_write q = q_tail q then 0 else q_write q + s) = (Suc i mod capacity_of q) * s"
    unfolding e(1,2) by (rule next_offset [OF i e(3)])
  moreover have "write_bytes (q_head q) (q_write q) (take s src) h =
      Some (h\<lparr>blocks := (blocks h)(q_head q \<mapsto> Bytes (take (i * s) bs @ take s src @ drop (i * s + s) bs))\<rparr>)"
    using R len fit qb by (simp add: write_bytes_def heap_store_def e(1))
  moreover have "load_queue qp h = Some q" "s \<le> length src" "unat (q_size q) = s"
    using R src by (simp_all add: s_def msg_size_def)
  ultimately show "send_commit qp src h = Some (h\<lparr>blocks := (blocks h)(q_head q \<mapsto> Bytes (take (i * s) bs @ take s src @ drop (i * s + s) bs),
      qp \<mapsto> Queue (q\<lparr>q_write := (Suc i mod capacity_of q) * s, q_avail := q_avail q + 1\<rparr>))\<rparr>)"
    using qb by (simp add: send_commit_def store_queue_def heap_store_def)
qed

lemma send_commit_ring:
  assumes r: "ring h qp q bs r" and room: "count_of q < capacity_of q" and src: "msg_size q \<le> length src"
  shows "\<exists>h' q' bs'. send_commit qp src h = Some h' \<and> ring h' qp q' bs' r \<and>
    contents q' bs' r = contents q bs r @ [take (msg_size q) src] \<and>
    q' = q\<lparr>q_write := q_write q', q_avail := q_avail q'\<rparr> \<and> plan h' = plan h \<and> brk h' = brk h \<and>
    same_except {qp, q_head q} h h'"
proof -
  define n where "n = capacity_of q"
  define s where "s = msg_size q"
  define c where "c = count_of q"
  define i where "i = (r + c) mod n"
  note R = r [unfolded ring_def, folded n_def s_def c_def] and qb = ring_blocks [OF r]
  define bs' where "bs' = take (i * s) bs @ take s src @ drop (i * s + s) bs"
  define q' where "q' = q\<lparr>q_write := (Suc i mod n) * s, q_avail := q_avail q + 1\<rparr>"
  define h' where "h' = h\<lparr>blocks := (blocks h)(q_head q \<mapsto> Bytes bs', qp \<mapsto> Queue q')\<rparr>"
  note run = send_commit_run [OF r src i_def [unfolded c_def n_def] s_def,
    folded n_def bs'_def, folded q'_def, folded h'_def]
  have len: "length bs' = length bs" using run(3,4) by (simp add: bs'_def)
  have "capacity_of q < 2 ^ 64" unfolding capacity_of_def by (rule unat_lt_64)
  then have "c + 1 < 2 ^ 64" using room by (simp add: c_def)
  then have avail: "count_of q' = c + 1"
    by (simp add: q'_def count_of_def c_def unat_word_ariths)
  have q': "capacity_of q' = n" "msg_size q' = s" "q_head q' = q_head q" "q_tail q' = q_tail q"
    "q_read q' = q_read q"
    by (simp_all add: q'_def n_def s_def capacity_of_def msg_size_def)
  have "heap_ok h'" using R qb by (auto simp: heap_ok_def h'_def)
  moreover have "(r + (c + 1)) mod n = Suc i mod n" by (simp add: i_def mod_Suc_eq)
  ultimately have "ring h' qp q' bs' r"
    using R qb room len unfolding ring_def q' avail load_queue_Some load_bytes_Some
    by (simp add: h'_def q'_def c_def n_def)
  moreover have "contents q' bs' r = contents q bs r @ [take s src]"
    using contents_write [OF room _ _ run(4) [unfolded s_def], of r bs q'] run(3) q'(1,2) avail
    by (simp add: s_def bs'_def i_def c_def n_def add.commute)
  ultimately show ?thesis
    using run(1) unfolding s_def by (intro exI [of _ h'] exI [of _ q'] exI [of _ bs'])
      (simp add: q'_def h'_def same_except_def)
qed

lemma recv_commit_ring:
  assumes r: "ring h qp q bs r" and some: "0 < count_of q"
  shows "\<exists>h' q'. recv_commit qp h = Some (hd (contents q bs r), h') \<and>
    ring h' qp q' bs (Suc r mod capacity_of q) \<and>
    contents q' bs (Suc r mod capacity_of q) = tl (contents q bs r) \<and>
    q' = q\<lparr>q_read := q_read q', q_avail := q_avail q'\<rparr> \<and> plan h' = plan h \<and> brk h' = brk h \<and>
    same_except {qp, q_head q} h h'"
proof -
  define n where "n = capacity_of q"
  define s where "s = msg_size q"
  define c where "c = count_of q"
  note R = r [unfolded ring_def, folded n_def s_def c_def] and qb = ring_blocks [OF r]
  obtain d where d: "c = Suc d" using some c_def gr0_implies_Suc by auto
  define q' where "q' = q\<lparr>q_read := (Suc r mod n) * s, q_avail := q_avail q - 1\<rparr>"
  define h' where "h' = h\<lparr>blocks := (blocks h)(qp \<mapsto> Queue q')\<rparr>"
  have "1 \<le> q_avail q" using d by (simp add: c_def count_of_def word_le_nat_alt)
  then have avail: "count_of q' = d"
    using d by (simp add: q'_def count_of_def c_def unat_sub)
  have hd: "hd (contents q bs r) = chunk s bs r"
    using d R unfolding contents_def c_def [symmetric] n_def [symmetric] s_def [symmetric]
    by (simp add: upt_conv_Cons del: upt_Suc)
  have "read_bytes (q_head q) (q_read q) s h = Some (chunk s bs r)"
    using R cell_in_buffer(2) [of r n s "length bs"] by (simp add: read_bytes_def chunk_def)
  moreover have nx: "(if q_read q = q_tail q then 0 else q_read q + s) = (Suc r mod n) * s"
  proof -
    have e: "q_read q = r * s" "q_tail q = (n - 1) * s" "r < n" "0 < s" using R by simp_all
    show ?thesis unfolding e(1,2) by (rule next_offset [OF e(3,4)])
  qed
  moreover have "load_queue qp h = Some q" "unat (q_size q) = s"
    using R by (simp_all add: s_def msg_size_def)
  ultimately have run: "recv_commit qp h = Some (hd (contents q bs r), h')"
    using qb(1,3) by (simp add: recv_commit_def store_queue_def heap_store_def h'_def q'_def hd)
  have q': "capacity_of q' = n" "msg_size q' = s" "q_head q' = q_head q" "q_tail q' = q_tail q"
    "q_write q' = q_write q"
    by (simp_all add: q'_def n_def s_def capacity_of_def msg_size_def)
  have m: "(Suc r mod n + k) mod n = (r + Suc k) mod n" for k
    by (simp add: mod_add_left_eq)
  have "heap_ok h'" using R qb by (auto simp: heap_ok_def h'_def)
  then have "ring h' qp q' bs (Suc r mod n)"
    using R qb d m [of d] unfolding ring_def q' avail load_queue_Some load_bytes_Some
    by (simp add: h'_def q'_def)
  moreover have "contents q' bs (Suc r mod n) = tl (contents q bs r)"
    using d m unfolding contents_def q' avail c_def [symmetric] n_def [symmetric] s_def [symmetric]
    by (simp add: map_tl [symmetric] upt_conv_Cons map_Suc_upt [symmetric] comp_def del: upt_Suc map_Suc_upt)
  ultimately show ?thesis
    using run unfolding n_def by (intro exI [of _ h'] exI [of _ q'])
      (simp add: q'_def h'_def same_except_def)
qed

end
