(* ===== verification/Queue_Spec.thy ===== *)
theory Queue_Spec
  imports Queue_Ring
begin

text \<open>
  The queue as a list of messages of bounded length, for one thread and for several. Sequentially
  it satisfies the contract \<open>bounded_queue\<close>; concurrently every call acts, whatever the other
  threads do while it waits, as at most one atomic step of the relation \<open>queue_step\<close>.
\<close>

subsection \<open>The abstract state\<close>

text \<open>\<open>queue_state l h qp buf n s xs\<close>: the queue \<open>qp\<close> with buffer \<open>buf\<close>, capacity \<open>n\<close> and message size
  \<open>s\<close> holds the messages \<open>xs\<close>; \<open>l\<close> tells whether its mutex is held.\<close>

definition queue_state ::
  "bool \<Rightarrow> 'o qheap \<Rightarrow> ptr \<Rightarrow> ptr \<Rightarrow> nat \<Rightarrow> nat \<Rightarrow> u8 list list \<Rightarrow> bool" where
  "queue_state l h qp buf n s xs \<longleftrightarrow>
     (\<exists>q bs r. ring h qp q bs r \<and> q_lock q = l \<and> q_head q = buf \<and> capacity_of q = n \<and>
        msg_size q = s \<and> contents q bs r = xs)"

lemma queue_stateI:
  "\<lbrakk>ring h qp q bs r; q_lock q = l; q_head q = buf; capacity_of q = n; msg_size q = s;
    contents q bs r = xs\<rbrakk> \<Longrightarrow> queue_state l h qp buf n s xs"
  by (auto simp: queue_state_def)

lemma queue_state_load:
  assumes "queue_state l h qp buf n s xs"
  shows "\<exists>q. load_queue qp h = Some q \<and> q_lock q = l \<and> q_head q = buf \<and> capacity_of q = n \<and>
    msg_size q = s \<and> (queue_is_full_locked q \<noteq> 0 \<longleftrightarrow> length xs = n) \<and>
    (queue_is_empty_locked q \<noteq> 0 \<longleftrightarrow> xs = []) \<and> length xs \<le> n \<and> count_of q = length xs"
proof -
  obtain q bs r where q: "ring h qp q bs r" "q_lock q = l" "q_head q = buf" "capacity_of q = n"
    "msg_size q = s" "contents q bs r = xs"
    using assms by (auto simp: queue_state_def)
  moreover have len: "length xs = count_of q" using q(6) by auto
  moreover have "xs = [] \<longleftrightarrow> count_of q = 0" using len by (metis length_0_conv)
  ultimately show ?thesis by (simp add: full_iff empty_iff ring_def)
qed

lemma queue_state_bound: "queue_state l h qp buf n s xs \<Longrightarrow> length xs \<le> n"
  using queue_state_load by blast

lemma queue_state_heap: "queue_state l h qp buf n s xs \<Longrightarrow> heap_ok h \<and> qp \<noteq> NULL \<and> buf \<noteq> NULL"
  by (auto simp: queue_state_def ring_def load_queue_Some load_bytes_Some)

text \<open>The state depends on two blocks only.\<close>

lemma queue_state_frame:
  assumes "queue_state l h qp buf n s xs" and "heap_ok h'" and "blocks h' qp = blocks h qp"
    and "blocks h' buf = blocks h buf"
  shows "queue_state l h' qp buf n s xs"
proof -
  obtain q bs r where q: "ring h qp q bs r" "q_lock q = l" "q_head q = buf" "capacity_of q = n"
    "msg_size q = s" "contents q bs r = xs"
    using assms(1) by (auto simp: queue_state_def)
  have "ring h' qp q bs r"
    using q(1,3) assms(2-4) by (simp add: ring_def load_queue_Some load_bytes_Some)
  then show ?thesis by (rule queue_stateI) (use q in simp_all)
qed

subsection \<open>The mutex\<close>

lemma ring_lock:
  assumes "ring h qp q bs r"
  shows "ring (h\<lparr>blocks := (blocks h)(qp \<mapsto> Queue (q\<lparr>q_lock := l\<rparr>))\<rparr>) qp (q\<lparr>q_lock := l\<rparr>) bs r"
  using assms by (auto simp: ring_def load_queue_Some load_bytes_Some capacity_of_def msg_size_def
      count_of_def heap_ok_def)

text \<open>The heap with the mutex of a queue taken.\<close>

lemma lock_state:
  assumes "queue_state False h qp buf n s xs"
  shows "\<exists>hl. mutex_lock qp h = Some hl \<and> queue_state True hl qp buf n s xs \<and>
    mutex_unlock qp hl = Some h"
proof -
  obtain q bs r where q: "ring h qp q bs r" "\<not> q_lock q" "q_head q = buf" "capacity_of q = n"
    "msg_size q = s" "contents q bs r = xs"
    using assms by (auto simp: queue_state_def)
  define hl where "hl = h\<lparr>blocks := (blocks h)(qp \<mapsto> Queue (q\<lparr>q_lock := True\<rparr>))\<rparr>"
  have b: "qp \<noteq> NULL" "blocks h qp = Some (Queue q)"
    using q(1) by (auto simp: ring_def load_queue_Some)
  have "mutex_lock qp h = Some hl"
    using b q(2) by (simp add: mutex_lock_def load_queue_def heap_load_def store_queue_def heap_store_def hl_def)
  moreover have "q\<lparr>q_lock := False\<rparr> = q" using q(2) by (cases q) simp
  then have "mutex_unlock qp hl = Some h"
    using b by (simp add: mutex_unlock_def load_queue_def heap_load_def store_queue_def heap_store_def
        hl_def fun_upd_idem)
  moreover have "queue_state True hl qp buf n s xs"
    unfolding hl_def by (rule queue_stateI [OF ring_lock [OF q(1), of True]])
      (use q in \<open>simp_all add: capacity_of_def msg_size_def contents_def count_of_def\<close>)
  ultimately show ?thesis by blast
qed

lemma unlock_state:
  assumes "queue_state True hl qp buf n s xs"
  shows "\<exists>h. mutex_unlock qp hl = Some h \<and> queue_state False h qp buf n s xs \<and> plan h = plan hl \<and>
    brk h = brk hl \<and> same_except {qp} hl h"
proof -
  obtain q bs r where q: "ring hl qp q bs r" "q_lock q" "q_head q = buf" "capacity_of q = n"
    "msg_size q = s" "contents q bs r = xs"
    using assms by (auto simp: queue_state_def)
  define h where "h = hl\<lparr>blocks := (blocks hl)(qp \<mapsto> Queue (q\<lparr>q_lock := False\<rparr>))\<rparr>"
  have b: "qp \<noteq> NULL" "blocks hl qp = Some (Queue q)"
    using q(1) by (auto simp: ring_def load_queue_Some)
  have "mutex_unlock qp hl = Some h"
    using b q(2) by (simp add: mutex_unlock_def load_queue_def heap_load_def store_queue_def heap_store_def h_def)
  moreover have "queue_state False h qp buf n s xs"
    unfolding h_def by (rule queue_stateI [OF ring_lock [OF q(1), of False]])
      (use q in \<open>simp_all add: capacity_of_def msg_size_def contents_def count_of_def\<close>)
  ultimately show ?thesis by (auto simp: h_def same_except_def)
qed

lemma lock_effect:
  "mutex_lock qp h = Some hl \<Longrightarrow> plan hl = plan h \<and> brk hl = brk h \<and> same_except {qp} h hl"
  by (auto simp: mutex_lock_def store_queue_def heap_store_def bind_Some_iff same_except_def
      split: if_splits)

subsection \<open>The critical sections\<close>

lemma send_commit_state:
  assumes "queue_state l h qp buf n s xs" and "length xs < n" and "s \<le> length src"
  shows "\<exists>h'. send_commit qp src h = Some h' \<and> queue_state l h' qp buf n s (xs @ [take s src]) \<and>
    plan h' = plan h \<and> brk h' = brk h \<and> same_except {qp, buf} h h'"
proof -
  obtain q bs r where q: "ring h qp q bs r" "q_lock q = l" "q_head q = buf" "capacity_of q = n"
    "msg_size q = s" "contents q bs r = xs"
    using assms(1) by (auto simp: queue_state_def)
  have "count_of q < capacity_of q" using assms(2) q(4,6) by (metis length_contents)
  then obtain h' q' bs' where c: "send_commit qp src h = Some h'" "ring h' qp q' bs' r"
    "contents q' bs' r = contents q bs r @ [take (msg_size q) src]"
    "q' = q\<lparr>q_write := q_write q', q_avail := q_avail q'\<rparr>" "plan h' = plan h" "brk h' = brk h"
    "same_except {qp, q_head q} h h'"
    using send_commit_ring [OF q(1)] assms(3) q(5) by blast
  have "q_lock q' = l" "q_head q' = buf" "capacity_of q' = n" "msg_size q' = s"
    using q(2-5) by (subst c(4); simp add: capacity_of_def msg_size_def)+
  then have "queue_state l h' qp buf n s (xs @ [take s src])"
    using c(3) q(5,6) by (intro queue_stateI [OF c(2)]) simp_all
  then show ?thesis using c(1,5-7) q(3) by blast
qed

lemma recv_commit_state:
  assumes "queue_state l h qp buf n s (m # xs)"
  shows "\<exists>h'. recv_commit qp h = Some (m, h') \<and> queue_state l h' qp buf n s xs \<and>
    plan h' = plan h \<and> brk h' = brk h \<and> same_except {qp, buf} h h'"
proof -
  obtain q bs r where q: "ring h qp q bs r" "q_lock q = l" "q_head q = buf" "capacity_of q = n"
    "msg_size q = s" "contents q bs r = m # xs"
    using assms(1) by (auto simp: queue_state_def)
  have "0 < count_of q" using q(6) by (metis length_contents length_greater_0_conv list.distinct(1))
  then obtain h' q' r' where c: "recv_commit qp h = Some (hd (contents q bs r), h')"
    "ring h' qp q' bs r'" "contents q' bs r' = tl (contents q bs r)"
    "q' = q\<lparr>q_read := q_read q', q_avail := q_avail q'\<rparr>" "plan h' = plan h" "brk h' = brk h"
    "same_except {qp, q_head q} h h'"
    using recv_commit_ring [OF q(1)] by blast
  have "q_lock q' = l" "q_head q' = buf" "capacity_of q' = n" "msg_size q' = s"
    using q(2-5) by (subst c(4); simp add: capacity_of_def msg_size_def)+
  then have "queue_state l h' qp buf n s xs"
    using c(3) q(6) by (intro queue_stateI [OF c(2)]) simp_all
  moreover have "hd (contents q bs r) = m" using q(6) by simp
  ultimately show ?thesis using c(1,5-7) q(3) by auto
qed

subsection \<open>Atomic steps\<close>

datatype event = Sent "u8 list" | Got "u8 list"

text \<open>
  One critical section that sends or receives. \<open>Other\<close> is anything else the threads do: it leaves
  the queue and its buffer alone.
\<close>

inductive queue_step :: "ptr \<Rightarrow> 'o qheap \<Rightarrow> event list \<Rightarrow> 'o qheap \<Rightarrow> bool" for qp where
  Send: "\<lbrakk>mutex_lock qp h = Some h1; load_queue qp h1 = Some q; queue_is_full_locked q = 0;
    send_commit qp src h1 = Some h2; mutex_unlock qp h2 = Some h'\<rbrakk> \<Longrightarrow>
    queue_step qp h [Sent (take (msg_size q) src)] h'"
| Recv: "\<lbrakk>mutex_lock qp h = Some h1; load_queue qp h1 = Some q; queue_is_empty_locked q = 0;
    recv_commit qp h1 = Some (m, h2); mutex_unlock qp h2 = Some h'\<rbrakk> \<Longrightarrow>
    queue_step qp h [Got m] h'"
| Other: "\<lbrakk>load_queue qp h = Some q; heap_ok h'; blocks h' qp = blocks h qp;
    blocks h' (q_head q) = blocks h (q_head q)\<rbrakk> \<Longrightarrow> queue_step qp h [] h'"

inductive queue_run :: "ptr \<Rightarrow> 'o qheap \<Rightarrow> event list \<Rightarrow> 'o qheap \<Rightarrow> bool" for qp where
  run_refl: "queue_run qp h [] h"
| run_step: "\<lbrakk>queue_run qp h es h1; queue_step qp h1 es' h2\<rbrakk> \<Longrightarrow> queue_run qp h (es @ es') h2"

lemma queue_run_trans:
  "queue_run qp h1 es2 h2 \<Longrightarrow> queue_run qp h es1 h1 \<Longrightarrow> queue_run qp h (es1 @ es2) h2"
proof (induction rule: queue_run.induct)
  case (run_step h es h1 es' h2)
  then show ?case using queue_run.run_step [of qp _ "es1 @ es" h1 es' h2] by simp
qed simp

text \<open>What the events mean for the list of messages.\<close>

fun replay :: "nat \<Rightarrow> u8 list list \<Rightarrow> event list \<Rightarrow> u8 list list option" where
  "replay n xs [] = Some xs"
| "replay n xs (Sent m # es) = (if length xs < n then replay n (xs @ [m]) es else None)"
| "replay n xs (Got m # es) =
     (case xs of [] \<Rightarrow> None | x # xs \<Rightarrow> if x = m then replay n xs es else None)"

lemma replay_append: "replay n xs (es @ es') = Option.bind (replay n xs es) (\<lambda>ys. replay n ys es')"
  by (induction n xs es rule: replay.induct) (auto split: list.splits)

fun sent :: "event list \<Rightarrow> u8 list list" where
  "sent [] = []" | "sent (Sent m # es) = m # sent es" | "sent (Got m # es) = sent es"

fun got :: "event list \<Rightarrow> u8 list list" where
  "got [] = []" | "got (Sent m # es) = got es" | "got (Got m # es) = m # got es"

lemma replay_fifo: "replay n xs es = Some ys \<Longrightarrow> xs @ sent es = got es @ ys"
  by (induction n xs es rule: replay.induct) (auto split: if_splits list.splits)

lemma sent_append [simp]: "sent (es @ es') = sent es @ sent es'"
  by (induction es rule: sent.induct) auto

lemma got_append [simp]: "got (es @ es') = got es @ got es'"
  by (induction es rule: got.induct) auto

text \<open>Every step simulates its events.\<close>

lemma queue_step_sim:
  assumes "queue_step qp h es h'" and st: "queue_state False h qp buf n s xs"
  shows "\<exists>ys. replay n xs es = Some ys \<and> queue_state False h' qp buf n s ys"
  using assms(1)
proof (cases rule: queue_step.cases)
  case (Send h1 q src h2)
  have h1: "queue_state True h1 qp buf n s xs" using lock_state [OF st] Send(2) by auto
  obtain q' where q': "load_queue qp h1 = Some q'" "msg_size q' = s" "length xs \<le> n"
    "queue_is_full_locked q' \<noteq> 0 \<longleftrightarrow> length xs = n"
    using queue_state_load [OF h1] by blast
  then have q: "msg_size q = s" and room: "length xs < n" using Send(3,4) by auto
  have "s \<le> length src" using Send(3,5) q
    by (auto simp: send_commit_def bind_Some_iff msg_size_def Let_def split: if_splits)
  then obtain h2' where h2': "send_commit qp src h1 = Some h2'"
    "queue_state True h2' qp buf n s (xs @ [take s src])"
    using send_commit_state [OF h1 room] by blast
  moreover have "h2' = h2" using h2'(1) Send(5) by simp
  ultimately have "queue_state False h' qp buf n s (xs @ [take s src])"
    using unlock_state [of h2] Send(6) by fastforce
  then show ?thesis using room q Send(1) by simp
next
  case (Recv h1 q m h2)
  have h1: "queue_state True h1 qp buf n s xs" using lock_state [OF st] Recv(2) by auto
  obtain q' where "load_queue qp h1 = Some q'" "queue_is_empty_locked q' \<noteq> 0 \<longleftrightarrow> xs = []"
    using queue_state_load [OF h1] by blast
  then have "xs \<noteq> []" using Recv(3,4) by auto
  then obtain x ys where xs: "xs = x # ys" by (cases xs) auto
  obtain h2' where "recv_commit qp h1 = Some (x, h2')" "queue_state True h2' qp buf n s ys"
    using recv_commit_state h1 xs by blast
  then have "m = x" "queue_state True h2 qp buf n s ys" using Recv(5) by auto
  then have "queue_state False h' qp buf n s ys" using unlock_state [of h2] Recv(6) by fastforce
  then show ?thesis using xs \<open>m = x\<close> Recv(1) by simp
next
  case (Other q)
  have "q_head q = buf" using queue_state_load [OF st] Other(2) by auto
  then have "queue_state False h' qp buf n s xs" using queue_state_frame [OF st] Other by simp
  then show ?thesis using Other(1) by simp
qed

lemma queue_run_sim:
  assumes "queue_run qp h es h'" and "queue_state False h qp buf n s xs"
  shows "\<exists>ys. replay n xs es = Some ys \<and> queue_state False h' qp buf n s ys"
  using assms
proof (induction rule: queue_run.induct)
  case (run_step h es h1 es' h2)
  then obtain ys where "replay n xs es = Some ys" "queue_state False h1 qp buf n s ys" by blast
  then show ?case using queue_step_sim [OF run_step.hyps(2)] by (auto simp: replay_append)
qed auto

end
