(* ===== verification/Queue_Calls.thy ===== *)
theory Queue_Calls
  imports Queue_Spec
begin

text \<open>
  The calls of \<open>lib/queue.c\<close>: what \<open>queue_send\<close> and \<open>queue_recv\<close> do when other threads run during
  their waits, and what they and the queries do when no other thread runs.
\<close>

subsection \<open>Waiting\<close>

text \<open>The other threads only use the queue through its functions.\<close>

definition fair_wakes :: "'o wake list \<Rightarrow> ptr \<Rightarrow> ptr \<Rightarrow> nat \<Rightarrow> nat \<Rightarrow> bool" where
  "fair_wakes ws qp buf n s \<longleftrightarrow> (\<forall>(t, f) \<in> set ws. \<forall>h xs.
     queue_state False h qp buf n s xs \<longrightarrow> (\<exists>es. queue_run qp h es (f h)))"

lemma fair_wakes_Nil [simp]: "fair_wakes [] qp buf n s"
  by (simp add: fair_wakes_def)

lemma fair_wakes_Cons:
  "fair_wakes ((t, f) # ws) qp buf n s \<longleftrightarrow>
   (\<forall>h xs. queue_state False h qp buf n s xs \<longrightarrow> (\<exists>es. queue_run qp h es (f h))) \<and>
   fair_wakes ws qp buf n s"
  by (auto simp: fair_wakes_def)

text \<open>
  The waiting loop ends, with the mutex held again over a heap that the other threads reached.
  It stops because the queue is not blocked any more, or at the deadline.
\<close>

lemma locked_state:
  assumes "queue_state False h qp buf n s xs" and "mutex_lock qp h = Some hl"
  obtains q where "load_queue qp hl = Some q" "mutex_unlock qp hl = Some h"
  using lock_state [OF assms(1)] queue_state_load assms(2) by fastforce

text \<open>One wake-up of a call that is blocked: the other threads have run, and the call goes on waiting unless its time is up.\<close>

lemma wait_loop_wake:
  assumes "load_queue qp hl = Some q" and "mutex_unlock qp hl = Some h" and "mutex_lock qp (f h) = Some hl1" and "blocked q"
  shows "wait_loop blocked qp ts ((t, f) # ws) hl = (if ts \<le> t then Some (ws, hl1) else wait_loop blocked qp ts ws hl1)"
  using assms by (simp add: cond_timedwait_def)

lemma wait_loop_run:
  assumes "queue_state False h qp buf n s xs" and "mutex_lock qp h = Some hl"
    and "fair_wakes ws qp buf n s"
  shows "\<exists>ws' h' hl' es. wait_loop blocked qp ts ws hl = Some (ws', hl') \<and>
    mutex_lock qp h' = Some hl' \<and> queue_run qp h es h' \<and>
    (\<exists>ys. queue_state False h' qp buf n s ys) \<and> fair_wakes ws' qp buf n s \<and>
    (ws = [] \<longrightarrow> h' = h \<and> ws' = [] \<and> es = [])"
  using assms
proof (induction ws arbitrary: h hl xs)
  case Nil
  obtain q where "load_queue qp hl = Some q" "mutex_unlock qp hl = Some h"
    using locked_state [OF Nil.prems(1,2)] by blast
  then have "wait_loop blocked qp ts [] hl = Some ([], hl)"
    using Nil.prems(2) by (simp add: cond_timedwait_def)
  then show ?case using Nil.prems run_refl by fastforce
next
  case (Cons w ws)
  obtain t f where w: "w = (t, f)" by (cases w) auto
  obtain q where q: "load_queue qp hl = Some q" "mutex_unlock qp hl = Some h"
    using locked_state [OF Cons.prems(1,2)] by blast
  obtain es1 where fair: "fair_wakes ws qp buf n s" and es1: "queue_run qp h es1 (f h)"
    using Cons.prems(1,3) w by (auto simp: fair_wakes_Cons)
  then obtain ys where ys: "queue_state False (f h) qp buf n s ys"
    using queue_run_sim Cons.prems(1) by blast
  then obtain hl1 where hl1: "mutex_lock qp (f h) = Some hl1" using lock_state by blast
  consider "\<not> blocked q" | "blocked q" "ts \<le> t" | "blocked q" "\<not> ts \<le> t" by blast
  then show ?case
  proof cases
    case 1
    then have "wait_loop blocked qp ts (w # ws) hl = Some (w # ws, hl)" using q by simp
    then show ?thesis using Cons.prems run_refl by fastforce
  next
    case 2
    then have "wait_loop blocked qp ts (w # ws) hl = Some (ws, hl1)"
      using wait_loop_wake [of qp hl q h f hl1 blocked ts t ws] q hl1 w by simp
    then show ?thesis using hl1 es1 ys fair by blast
  next
    case 3
    then have "wait_loop blocked qp ts (w # ws) hl = wait_loop blocked qp ts ws hl1"
      using wait_loop_wake [of qp hl q h f hl1 blocked ts t ws] q hl1 w by simp
    moreover obtain ws' h' hl' es where r: "wait_loop blocked qp ts ws hl1 = Some (ws', hl')"
      "mutex_lock qp h' = Some hl'" "queue_run qp (f h) es h'"
      "\<exists>ys. queue_state False h' qp buf n s ys" "fair_wakes ws' qp buf n s"
      using Cons.IH [OF ys hl1 fair] by blast
    moreover have "queue_run qp h (es1 @ es) h'" by (rule queue_run_trans [OF r(3) es1])
    ultimately show ?thesis by (intro exI [of _ ws'] exI [of _ h'] exI [of _ hl'] exI [of _ "es1 @ es"]) simp
  qed
qed

declare wait_loop.simps [simp del]

text \<open>
  When it stops: all wakes it has used but the last came before the deadline, and if the queue is still blocked no
  wakes are left, or the last one came at the deadline or later.
\<close>

definition stopped_at :: "timespec \<Rightarrow> 'o wake list \<Rightarrow> 'o wake list \<Rightarrow> bool" where
  "stopped_at ts ws ws' \<longleftrightarrow> (\<exists>used. ws = used @ ws' \<and> (\<forall>w \<in> set (butlast used). fst w < ts) \<and>
     (ws' = [] \<or> used \<noteq> [] \<and> ts \<le> fst (last used)))"

lemma stopped_at_Nil [simp]: "stopped_at ts [] []"
  by (simp add: stopped_at_def)

lemma stopped_at_here: "ts \<le> fst w \<Longrightarrow> stopped_at ts (w # ws) ws"
  unfolding stopped_at_def by (intro exI [of _ "[w]"]) simp

lemma stopped_at_later:
  assumes "fst w < ts" and "stopped_at ts ws ws'"
  shows "stopped_at ts (w # ws) ws'"
proof -
  obtain used where "ws = used @ ws'" "\<forall>w \<in> set (butlast used). fst w < ts" "ws' = [] \<or> used \<noteq> [] \<and> ts \<le> fst (last used)"
    using assms(2) unfolding stopped_at_def by blast
  then show ?thesis using assms(1) unfolding stopped_at_def by (intro exI [of _ "w # used"]) auto
qed

lemma wait_loop_stops:
  "\<lbrakk>wait_loop blocked qp ts ws h = Some (ws', h'); load_queue qp h' = Some q; blocked q\<rbrakk> \<Longrightarrow> stopped_at ts ws ws'"
proof (induction ws arbitrary: h)
  case Nil
  then show ?case by (auto simp: wait_loop.simps cond_timedwait_def bind_Some_iff split: if_splits)
next
  case (Cons w ws)
  obtain t f where w: "w = (t, f)" by (cases w)
  show ?case
    using Cons.prems Cons.IH stopped_at_here [of ts w] stopped_at_later [of w ts ws ws']
    by (auto simp: w wait_loop.simps cond_timedwait_def bind_Some_iff not_le split: if_splits)
qed

subsection \<open>Waiting\<close>

text \<open>
  What \<open>queue_send\<close> and \<open>queue_recv\<close> do first: with the mutex locked they wait while \<open>blocked\<close> holds, and go on
  with the mutex locked in a state other threads have left.
\<close>

lemma wait_prelude:
  fixes blocked :: "queue \<Rightarrow> int"
  assumes st: "queue_state False h qp buf n s xs" and fair: "fair_wakes ws qp buf n s"
  obtains hl q ws' h1 hl1 es ys q1 where "mutex_lock qp h = Some hl" and "load_queue qp hl = Some q"
    and "(if blocked q \<noteq> 0
       then do {
         (ws, h) \<leftarrow> wait_loop (\<lambda>q. blocked q \<noteq> 0) qp ts ws hl;
         q \<leftarrow> load_queue qp h;
         Some (blocked q, ws, h) }
       else Some (0, ws, hl)) = Some (blocked q1, ws', hl1)"
    and "queue_run qp h es h1" and "replay n xs es = Some ys" and "queue_state False h1 qp buf n s ys"
    and "mutex_lock qp h1 = Some hl1" and "queue_state True hl1 qp buf n s ys"
    and "mutex_unlock qp hl1 = Some h1" and "load_queue qp hl1 = Some q1"
proof -
  obtain hl where hl: "mutex_lock qp h = Some hl" "queue_state True hl qp buf n s xs"
    "mutex_unlock qp hl = Some h"
    using lock_state [OF st] by blast
  obtain q where q: "load_queue qp hl = Some q" using queue_state_load [OF hl(2)] by blast
  show ?thesis
  proof (cases "blocked q \<noteq> 0")
    case False
    then show ?thesis using that [OF hl(1) q, where es = "[]"] hl q st run_refl [of qp h] by simp
  next
    case True
    obtain ws' h1 hl1 es where w: "wait_loop (\<lambda>q. blocked q \<noteq> 0) qp ts ws hl = Some (ws', hl1)"
      "mutex_lock qp h1 = Some hl1" "queue_run qp h es h1"
      using wait_loop_run [OF st hl(1) fair] by blast
    obtain ys where ys: "replay n xs es = Some ys" "queue_state False h1 qp buf n s ys"
      using queue_run_sim [OF w(3) st] by blast
    have h1: "queue_state True hl1 qp buf n s ys" "mutex_unlock qp hl1 = Some h1"
      using lock_state [OF ys(2)] w(2) by auto
    obtain q1 where "load_queue qp hl1 = Some q1" using queue_state_load [OF h1(1)] by blast
    then show ?thesis using that [OF hl(1) q _ w(3) ys w(2) h1] True w(1) by simp
  qed
qed

subsection \<open>Sending\<close>

text \<open>
  Either one atomic send happens after what the other threads did, or the queue is full and
  nothing was sent.
\<close>

lemma queue_send_run:
  assumes st: "queue_state False h qp buf n s xs" and src: "s \<le> length src"
    and fair: "fair_wakes ws qp buf n s"
  shows "\<exists>ws' h' es ys.
    (queue_send qp src timeout now ws h = Some (0, None, ws', h') \<and>
       queue_run qp h (es @ [Sent (take s src)]) h' \<and>
       replay n xs es = Some ys \<and> length ys < n \<and> queue_state False h' qp buf n s (ys @ [take s src])) \<or>
    (queue_send qp src timeout now ws h = Some (- 1, Some ENOSPC, ws', h') \<and>
       queue_run qp h es h' \<and> replay n xs es = Some ys \<and> length ys = n \<and>
       queue_state False h' qp buf n s ys)"
proof -
  have qp: "qp \<noteq> NULL" using queue_state_heap [OF st] by simp
  obtain hl q ws' h1 hl1 es ys q1 where w: "mutex_lock qp h = Some hl" "load_queue qp hl = Some q"
    "(if queue_is_full_locked q \<noteq> 0 then queue_send_wait qp timeout now ws hl else Some (0, ws, hl)) =
       Some (queue_is_full_locked q1, ws', hl1)"
    "queue_run qp h es h1" "replay n xs es = Some ys" "queue_state False h1 qp buf n s ys"
    "mutex_lock qp h1 = Some hl1" "queue_state True hl1 qp buf n s ys"
    "mutex_unlock qp hl1 = Some h1" "load_queue qp hl1 = Some q1"
    unfolding queue_send_wait_def by (rule wait_prelude [OF st fair])
  have q1: "queue_is_full_locked q1 \<noteq> 0 \<longleftrightarrow> length ys = n" "msg_size q1 = s" "length ys \<le> n"
    using queue_state_load [OF w(8)] w(10) by auto
  show ?thesis
  proof (cases "length ys = n")
    case True
    then have "queue_send qp src timeout now ws h = Some (- 1, Some ENOSPC, ws', h1)"
      using qp w(1-3,9) q1(1) by (simp add: queue_send_def)
    then show ?thesis using True w(4-6) by blast
  next
    case False
    then have room: "length ys < n" using q1(3) by simp
    obtain h2 where h2: "send_commit qp src hl1 = Some h2"
      "queue_state True h2 qp buf n s (ys @ [take s src])"
      using send_commit_state [OF w(8) room src] by blast
    obtain h3 where h3: "mutex_unlock qp h2 = Some h3"
      "queue_state False h3 qp buf n s (ys @ [take s src])"
      using unlock_state [OF h2(2)] by blast
    have "queue_step qp h1 [Sent (take (msg_size q1) src)] h3"
      using w(7,10) q1(1) False h2(1) h3(1) by (intro queue_step.Send) auto
    then have "queue_run qp h (es @ [Sent (take s src)]) h3"
      using queue_run.run_step [OF w(4)] q1(2) by simp
    moreover have "queue_send qp src timeout now ws h = Some (0, None, ws', h3)"
      using qp w(1-3) q1(1) False h2(1) h3(1) by (simp add: queue_send_def)
    ultimately show ?thesis using w(5) room h3(2) by blast
  qed
qed

subsection \<open>Receiving\<close>

lemma queue_recv_run:
  assumes st: "queue_state False h qp buf n s xs" and fair: "fair_wakes ws qp buf n s"
  shows "\<exists>ws' h' es m ys.
    (queue_recv qp timeout now ws h = Some (0, None, Some m, ws', h') \<and>
       queue_run qp h (es @ [Got m]) h' \<and> replay n xs es = Some (m # ys) \<and>
       queue_state False h' qp buf n s ys) \<or>
    (queue_recv qp timeout now ws h = Some (- 1, Some EAGAIN, None, ws', h') \<and>
       queue_run qp h es h' \<and> replay n xs es = Some [] \<and> queue_state False h' qp buf n s [])"
proof -
  have qp: "qp \<noteq> NULL" using queue_state_heap [OF st] by simp
  obtain hl q ws' h1 hl1 es ys q1 where w: "mutex_lock qp h = Some hl" "load_queue qp hl = Some q"
    "(if queue_is_empty_locked q \<noteq> 0 then queue_recv_wait qp timeout now ws hl else Some (0, ws, hl)) =
       Some (queue_is_empty_locked q1, ws', hl1)"
    "queue_run qp h es h1" "replay n xs es = Some ys" "queue_state False h1 qp buf n s ys"
    "mutex_lock qp h1 = Some hl1" "queue_state True hl1 qp buf n s ys"
    "mutex_unlock qp hl1 = Some h1" "load_queue qp hl1 = Some q1"
    unfolding queue_recv_wait_def by (rule wait_prelude [OF st fair])
  have q1: "queue_is_empty_locked q1 \<noteq> 0 \<longleftrightarrow> ys = []"
    using queue_state_load [OF w(8)] w(10) by auto
  show ?thesis
  proof (cases ys)
    case Nil
    then have "queue_recv qp timeout now ws h = Some (- 1, Some EAGAIN, None, ws', h1)"
      using qp w(1-3,9) q1 by (simp add: queue_recv_def)
    then show ?thesis using Nil w(4-6) by blast
  next
    case (Cons m zs)
    obtain h2 where h2: "recv_commit qp hl1 = Some (m, h2)" "queue_state True h2 qp buf n s zs"
      using recv_commit_state w(8) Cons by blast
    obtain h3 where h3: "mutex_unlock qp h2 = Some h3" "queue_state False h3 qp buf n s zs"
      using unlock_state [OF h2(2)] by blast
    have "queue_step qp h1 [Got m] h3"
      using w(7,10) q1 Cons h2(1) h3(1) by (intro queue_step.Recv) auto
    then have "queue_run qp h (es @ [Got m]) h3" by (rule queue_run.run_step [OF w(4)])
    moreover have "queue_recv qp timeout now ws h = Some (0, None, Some m, ws', h3)"
      using qp w(1-3) q1 Cons h2(1) h3(1) by (simp add: queue_recv_def)
    ultimately show ?thesis using w(5) Cons h3(2) by blast
  qed
qed

subsection \<open>One thread alone\<close>

text \<open>With no other thread a wait ends at its deadline.\<close>

lemma wait_alone:
  assumes "queue_state False h qp buf n s xs" and "mutex_lock qp h = Some hl"
  shows "wait_loop blocked qp ts [] hl = Some ([], hl)"
  using wait_loop_run [OF assms fair_wakes_Nil] assms(2) by auto

lemma queue_send_alone:
  assumes st: "queue_state False h qp buf n s xs" and src: "s \<le> length src"
  shows "if length xs < n
    then \<exists>h'. queue_send qp src timeout now [] h = Some (0, None, [], h') \<and>
      queue_state False h' qp buf n s (xs @ [take s src]) \<and> plan h' = plan h \<and> brk h' = brk h \<and>
      same_except {qp, buf} h h'
    else queue_send qp src timeout now [] h = Some (- 1, Some ENOSPC, [], h)"
proof -
  have qp: "qp \<noteq> NULL" using queue_state_heap [OF st] by simp
  obtain hl where hl: "mutex_lock qp h = Some hl" "queue_state True hl qp buf n s xs"
    "mutex_unlock qp hl = Some h"
    using lock_state [OF st] by blast
  obtain q where q: "load_queue qp hl = Some q" "queue_is_full_locked q \<noteq> 0 \<longleftrightarrow> length xs = n"
    "length xs \<le> n"
    using queue_state_load [OF hl(2)] by blast
  show ?thesis
  proof (cases "length xs < n")
    case True
    obtain h2 where h2: "send_commit qp src hl = Some h2"
      "queue_state True h2 qp buf n s (xs @ [take s src])" "plan h2 = plan hl" "brk h2 = brk hl"
      "same_except {qp, buf} hl h2"
      using send_commit_state [OF hl(2) True src] by blast
    obtain h3 where h3: "mutex_unlock qp h2 = Some h3"
      "queue_state False h3 qp buf n s (xs @ [take s src])" "plan h3 = plan h2" "brk h3 = brk h2"
      "same_except {qp} h2 h3"
      using unlock_state [OF h2(2)] by blast
    have "same_except {qp, buf} h h3"
      using lock_effect [OF hl(1)] h2(5) h3(5) by (auto simp: same_except_def)
    then show ?thesis
      using True qp hl(1) q h2(1,3,4) h3(1-4) lock_effect [OF hl(1)] by (simp add: queue_send_def)
  next
    case False
    then show ?thesis
      using qp hl q wait_alone [OF st hl(1)] by (simp add: queue_send_def queue_send_wait_def)
  qed
qed

lemma queue_recv_alone:
  assumes st: "queue_state False h qp buf n s xs"
  shows "case xs of
      [] \<Rightarrow> queue_recv qp timeout now [] h = Some (- 1, Some EAGAIN, None, [], h)
    | m # ys \<Rightarrow> \<exists>h'. queue_recv qp timeout now [] h = Some (0, None, Some m, [], h') \<and>
        queue_state False h' qp buf n s ys \<and> plan h' = plan h \<and> brk h' = brk h \<and>
        same_except {qp, buf} h h'"
proof -
  have qp: "qp \<noteq> NULL" using queue_state_heap [OF st] by simp
  obtain hl where hl: "mutex_lock qp h = Some hl" "queue_state True hl qp buf n s xs"
    "mutex_unlock qp hl = Some h"
    using lock_state [OF st] by blast
  obtain q where q: "load_queue qp hl = Some q" "queue_is_empty_locked q \<noteq> 0 \<longleftrightarrow> xs = []"
    using queue_state_load [OF hl(2)] by blast
  show ?thesis
  proof (cases xs)
    case Nil
    then show ?thesis
      using qp hl q wait_alone [OF st hl(1)] by (simp add: queue_recv_def queue_recv_wait_def)
  next
    case (Cons m ys)
    obtain h2 where h2: "recv_commit qp hl = Some (m, h2)" "queue_state True h2 qp buf n s ys"
      "plan h2 = plan hl" "brk h2 = brk hl" "same_except {qp, buf} hl h2"
      using recv_commit_state hl(2) Cons by blast
    obtain h3 where h3: "mutex_unlock qp h2 = Some h3" "queue_state False h3 qp buf n s ys"
      "plan h3 = plan h2" "brk h3 = brk h2" "same_except {qp} h2 h3"
      using unlock_state [OF h2(2)] by blast
    have "same_except {qp, buf} h h3"
      using lock_effect [OF hl(1)] h2(5) h3(5) by (auto simp: same_except_def)
    then show ?thesis
      using Cons qp hl(1) q h2(1,3,4) h3(1-4) lock_effect [OF hl(1)] by (simp add: queue_recv_def)
  qed
qed

lemma query_alone:
  assumes st: "queue_state False h qp buf n s xs"
  shows "queue_is_empty qp h = Some (of_bool_int (xs = []), None, h)"
    and "queue_is_full qp h = Some (of_bool_int (length xs = n), None, h)"
    and "n < 2 ^ 31 \<Longrightarrow> queue_space_available qp h = Some (int n - int (length xs), None, h)"
proof -
  have qp: "qp \<noteq> NULL" using queue_state_heap [OF st] by simp
  obtain hl where hl: "mutex_lock qp h = Some hl" "queue_state True hl qp buf n s xs"
    "mutex_unlock qp hl = Some h"
    using lock_state [OF st] by blast
  obtain q where q: "load_queue qp hl = Some q" "queue_is_full_locked q \<noteq> 0 \<longleftrightarrow> length xs = n"
    "queue_is_empty_locked q \<noteq> 0 \<longleftrightarrow> xs = []" "capacity_of q = n" "count_of q = length xs" "length xs \<le> n"
    using queue_state_load [OF hl(2)] by blast
  have query: "locked_query f qp h = Some (f q, None, h)" for f
    using qp hl(1,3) q(1) by (simp add: locked_query_def)
  show "queue_is_empty qp h = Some (of_bool_int (xs = []), None, h)"
    using query q(3) by (auto simp: queue_is_empty_def queue_is_empty_locked_def of_bool_int_def split: if_splits)
  show "queue_is_full qp h = Some (of_bool_int (length xs = n), None, h)"
    using query q(2) by (auto simp: queue_is_full_def queue_is_full_locked_def of_bool_int_def split: if_splits)
  show "queue_space_available qp h = Some (int n - int (length xs), None, h)" if "n < 2 ^ 31"
  proof -
    have "q_avail q \<le> q_nmemb q" using q(4-6) by (simp add: word_le_nat_alt capacity_of_def count_of_def)
    then have "unat (q_nmemb q - q_avail q) = n - length xs"
      using q(4,5) by (simp add: unat_sub capacity_of_def count_of_def)
    then have "uint (q_nmemb q - q_avail q) = int (n - length xs)"
      by (metis uint_nat)
    moreover have "int (n - length xs) < 2 ^ 31" using that by simp
    ultimately have "queue_space_available_locked q = int (n - length xs)"
      unfolding queue_space_available_locked_def
      by (simp add: signed_ucast_eq signed_take_bit_int_eq_self)
    then show ?thesis using query q(6) by (simp add: queue_space_available_def of_nat_diff)
  qed
qed

end
