(* ===== verification/Queue_Properties.thy ===== *)
theory Queue_Properties
  imports Queue_Calls
begin

text \<open>The properties of \<open>lib/queue.c\<close>: contract, creation and destruction, concurrency, deadlines.\<close>

subsection \<open>The contract of a bounded queue\<close>

locale bounded_queue =
  fixes inv :: "'h \<Rightarrow> 'm list \<Rightarrow> bool" and cap :: nat and ok_msg :: "'m \<Rightarrow> bool"
    and send :: "'m \<Rightarrow> 'h \<Rightarrow> (bool \<times> 'h) option" and recv :: "'h \<Rightarrow> ('m option \<times> 'h) option"
  assumes bound: "inv h xs \<Longrightarrow> length xs \<le> cap"
    and send_room: "\<lbrakk>inv h xs; ok_msg m; length xs < cap\<rbrakk> \<Longrightarrow>
      \<exists>h'. send m h = Some (True, h') \<and> inv h' (xs @ [m])"
    and send_full: "\<lbrakk>inv h xs; ok_msg m; length xs = cap\<rbrakk> \<Longrightarrow> send m h = Some (False, h)"
    and recv_some: "inv h (m # xs) \<Longrightarrow> \<exists>h'. recv h = Some (Some m, h') \<and> inv h' xs"
    and recv_empty: "inv h [] \<Longrightarrow> recv h = Some (None, h)"

text \<open>Clients: send until a message is refused, receive until nothing is left.\<close>

fun send_each :: "('m \<Rightarrow> 'h \<Rightarrow> (bool \<times> 'h) option) \<Rightarrow> 'm list \<Rightarrow> 'h \<Rightarrow> (nat \<times> 'h) option" where
  "send_each send [] h = Some (0, h)"
| "send_each send (m # ms) h = do {
     (sent_ok, h) \<leftarrow> send m h;
     if sent_ok then do { (k, h) \<leftarrow> send_each send ms h; Some (Suc k, h) } else Some (0, h) }"

fun recv_each :: "('h \<Rightarrow> ('m option \<times> 'h) option) \<Rightarrow> nat \<Rightarrow> 'h \<Rightarrow> ('m list \<times> 'h) option" where
  "recv_each recv 0 h = Some ([], h)"
| "recv_each recv (Suc k) h = do {
     (m, h) \<leftarrow> recv h;
     case m of None \<Rightarrow> Some ([], h)
     | Some m \<Rightarrow> do { (ms, h) \<leftarrow> recv_each recv k h; Some (m # ms, h) } }"

context bounded_queue begin

lemma send_each_fill:
  "\<lbrakk>inv h xs; \<forall>m \<in> set ms. ok_msg m\<rbrakk> \<Longrightarrow>
   \<exists>h'. send_each send ms h = Some (min (cap - length xs) (length ms), h') \<and>
     inv h' (xs @ take (cap - length xs) ms)"
proof (induction ms arbitrary: h xs)
  case (Cons m ms)
  show ?case
  proof (cases "length xs < cap")
    case True
    then obtain h1 where h1: "send m h = Some (True, h1)" "inv h1 (xs @ [m])"
      using send_room [OF Cons.prems(1)] Cons.prems(2) by auto
    obtain h' where "send_each send ms h1 = Some (min (cap - length (xs @ [m])) (length ms), h')"
      "inv h' ((xs @ [m]) @ take (cap - length (xs @ [m])) ms)"
      using Cons.IH [OF h1(2)] Cons.prems(2) by auto
    moreover have "cap - length xs = Suc (cap - length (xs @ [m]))" using True by simp
    ultimately show ?thesis using h1(1) by simp
  next
    case False
    then have "length xs = cap" using bound [OF Cons.prems(1)] by simp
    then show ?thesis using send_full [OF Cons.prems(1)] Cons.prems by simp
  qed
qed simp

lemma recv_each_drain:
  "inv h xs \<Longrightarrow> length xs < k \<Longrightarrow> \<exists>h'. recv_each recv k h = Some (xs, h') \<and> inv h' []"
proof (induction xs arbitrary: h k)
  case Nil
  then show ?case using recv_empty [of h] by (cases k) auto
next
  case (Cons m xs)
  obtain h1 where "recv h = Some (Some m, h1)" "inv h1 xs" using recv_some [OF Cons.prems(1)] by blast
  moreover obtain j where "k = Suc j" using Cons.prems(2) by (cases k) auto
  ultimately show ?case using Cons.IH [of h1 j] Cons.prems(2) by auto
qed

lemma fill_then_drain:
  assumes "inv h []" and "\<forall>m \<in> set ms. ok_msg m"
  shows "\<exists>h1 h2. send_each send ms h = Some (min cap (length ms), h1) \<and>
    recv_each recv (Suc cap) h1 = Some (take cap ms, h2) \<and> inv h2 []"
proof -
  obtain h1 where "send_each send ms h = Some (min cap (length ms), h1)" "inv h1 (take cap ms)"
    using send_each_fill [OF assms] by auto
  then show ?thesis using recv_each_drain [of h1 "take cap ms" "Suc cap"] by auto
qed

end

text \<open>The calls of one thread with nobody else around.\<close>

definition send_alone :: "ptr \<Rightarrow> int \<Rightarrow> timespec \<Rightarrow> u8 list \<Rightarrow> 'o qheap \<Rightarrow> (bool \<times> 'o qheap) option" where
  "send_alone qp timeout now m h =
     map_option (\<lambda>(rc, _, _, h). (rc = 0, h)) (queue_send qp m timeout now [] h)"

definition recv_alone :: "ptr \<Rightarrow> int \<Rightarrow> timespec \<Rightarrow> 'o qheap \<Rightarrow> (u8 list option \<times> 'o qheap) option" where
  "recv_alone qp timeout now h =
     map_option (\<lambda>(_, _, m, _, h). (m, h)) (queue_recv qp timeout now [] h)"

interpretation rq: bounded_queue "\<lambda>h xs. queue_state False h qp buf n s xs" n "\<lambda>m. length m = s"
    "send_alone qp timeout now" "recv_alone qp timeout now"
  for qp buf n s timeout now
proof
  fix h :: "'o qheap" and xs m
  show "queue_state False h qp buf n s xs \<Longrightarrow> length xs \<le> n" by (rule queue_state_bound)
  show "\<lbrakk>queue_state False h qp buf n s xs; length m = s; length xs < n\<rbrakk> \<Longrightarrow>
      \<exists>h'. send_alone qp timeout now m h = Some (True, h') \<and> queue_state False h' qp buf n s (xs @ [m])"
    using queue_send_alone [of h qp buf n s xs m timeout now] by (auto simp: send_alone_def)
  show "\<lbrakk>queue_state False h qp buf n s xs; length m = s; length xs = n\<rbrakk> \<Longrightarrow>
      send_alone qp timeout now m h = Some (False, h)"
    using queue_send_alone [of h qp buf n s xs m timeout now] by (auto simp: send_alone_def)
  show "queue_state False h qp buf n s (m # xs) \<Longrightarrow>
      \<exists>h'. recv_alone qp timeout now h = Some (Some m, h') \<and> queue_state False h' qp buf n s xs"
    using queue_recv_alone [of h qp buf n s "m # xs" timeout now] by (auto simp: recv_alone_def)
  show "queue_state False h qp buf n s [] \<Longrightarrow> recv_alone qp timeout now h = Some (None, h)"
    using queue_recv_alone [of h qp buf n s "[]" timeout now] by (auto simp: recv_alone_def)
qed

subsection \<open>Creation\<close>

lemma unat_ucast_32: "unat x < 2 ^ 32 \<Longrightarrow> unat (ucast (x :: u64) :: u32) = unat x"
  by (simp add: unsigned_ucast_eq take_bit_nat_eq_self)

lemma ucast_ucast_32: "unat x < 2 ^ 32 \<Longrightarrow> ucast (ucast (x :: u64) :: u32) = x"
  by (simp add: word_unat_eq_iff unsigned_ucast_eq unsigned_take_bit_eq take_bit_nat_eq_self)

lemma setup_result:
  assumes "heap_ok h" and "next_answer h \<noteq> Fail"
  shows "queue_setup p a b h = Some (brk h,
    h\<lparr>blocks := (blocks h)(brk h \<mapsto> Queue (queue_zero\<lparr>q_head := p, q_tail := unat ((a - 1) * b),
        q_nmemb := ucast a, q_size := ucast b\<rparr>)), brk := Suc (brk h), plan := tl (plan h)\<rparr>)"
  using assms heap_ok_brk_pos [OF assms(1)]
  by (simp add: queue_setup_def heap_alloc_def store_queue_def heap_store_def queue_zero_def)

text \<open>The queue just set up over a buffer that is large enough, when the size does not overflow.\<close>

lemma fresh_queue_state:
  fixes nmemb sz :: u64 and h :: "'o qheap"
  assumes ok: "heap_ok h" and q: "blocks h qp = Some (Queue q)" and b: "blocks h p = Some (Bytes bs)"
    and n: "unat nmemb * unat sz < 2 ^ 32" "nmemb \<noteq> 0" "sz \<noteq> 0" "unat nmemb * unat sz \<le> length bs"
    and q': "q = queue_zero\<lparr>q_static := st, q_head := p, q_tail := unat (((ucast nmemb :: u32) - 1) * ucast sz),
      q_nmemb := ucast (ucast nmemb :: u32), q_size := ucast (ucast sz :: u32)\<rparr>"
  shows "queue_state False h qp p (unat nmemb) (unat sz) []"
proof -
  have pos: "0 < unat nmemb" "0 < unat sz" using n(2,3) by (simp_all add: unat_gt_0)
  have "unat nmemb \<le> unat nmemb * unat sz" "unat sz \<le> unat nmemb * unat sz" using pos by simp_all
  then have lt: "unat nmemb < 2 ^ 32" "unat sz < 2 ^ 32" using n(1) by linarith+
  note u = unat_ucast_32 [OF lt(1)] unat_ucast_32 [OF lt(2)]
  have "unat ((ucast nmemb :: u32) - 1) = unat nmemb - 1"
    using pos u(1) by (simp add: unat_sub word_le_nat_alt)
  moreover have "(unat nmemb - 1) * unat sz \<le> unat nmemb * unat sz" by (rule mult_le_mono1) simp
  then have "(unat nmemb - 1) * unat sz < 2 ^ 32" using n(1) by (rule le_less_trans)
  ultimately have "q_tail q = (unat nmemb - 1) * unat sz"
    using u(2) q' by (simp add: unat_word_ariths)
  moreover have "capacity_of q = unat nmemb" "msg_size q = unat sz"
    using ucast_ucast_32 [OF lt(1)] ucast_ucast_32 [OF lt(2)] q'
    by (simp_all add: capacity_of_def msg_size_def)
  moreover have "count_of q = 0" "q_head q = p" "q_lock q = False" "q_read q = 0" "q_write q = 0"
    using q' by (simp_all add: count_of_def queue_zero_def)
  ultimately show ?thesis
    using ok q b n(4) pos heap_live_pos [OF ok q] heap_live_pos [OF ok b]
    by (intro queue_stateI [of h qp q bs 0])
      (simp_all add: ring_def load_queue_Some load_bytes_Some contents_def)
qed

text \<open>The heap \<open>queue_create\<close> leaves when both its allocations succeed.\<close>

definition created :: "u64 \<Rightarrow> u64 \<Rightarrow> 'o qheap \<Rightarrow> queue \<times> 'o qheap" where
  "created nmemb sz h =
     (let q = queue_zero\<lparr>q_head := brk h, q_tail := unat (((ucast nmemb :: u32) - 1) * ucast sz),
            q_nmemb := ucast (ucast nmemb :: u32), q_size := ucast (ucast sz :: u32)\<rparr>
      in (q, h\<lparr>blocks := (blocks h)(brk h \<mapsto> Bytes (replicate (unat (nmemb * sz)) 0), Suc (brk h) \<mapsto> Queue q),
               brk := Suc (Suc (brk h)), plan := tl (tl (plan h))\<rparr>))"

lemma create_result:
  fixes h :: "'o qheap"
  assumes ok: "heap_ok h" and nz: "nmemb \<noteq> 0" "sz \<noteq> 0" and ans: "Fail \<notin> set (take 2 (plan h))"
  shows "queue_create nmemb sz h = Some (Suc (brk h), None, snd (created nmemb sz h))"
    and "heap_ok (snd (created nmemb sz h))"
proof -
  define h1 :: "'o qheap" where
    "h1 = h\<lparr>blocks := (blocks h)(brk h \<mapsto> Bytes (replicate (unat (nmemb * sz)) 0)), brk := Suc (brk h), plan := tl (plan h)\<rparr>"
  have ok1: "heap_ok h1" using ok by (auto simp: heap_ok_def h1_def less_Suc_eq)
  have pos: "brk h \<noteq> NULL" using heap_ok_brk_pos [OF ok] by simp
  have ans: "next_answer h \<noteq> Fail" "next_answer h1 \<noteq> Fail"
    using ans by (auto simp: take_two_answers next_answer_def h1_def)
  have "queue_setup (brk h) (ucast nmemb) (ucast sz) h1 = Some (Suc (brk h), snd (created nmemb sz h))"
    using setup_result [OF ok1 ans(2)] by (simp add: created_def h1_def Let_def)
  then show "queue_create nmemb sz h = Some (Suc (brk h), None, snd (created nmemb sz h))"
    using nz ans(1) pos by (simp add: queue_create_def heap_alloc_def h1_def)
  show "heap_ok (snd (created nmemb sz h))" using ok by (auto simp: heap_ok_def created_def Let_def less_Suc_eq)
qed

lemma queue_create_ok:
  fixes h :: "'o qheap"
  assumes ok: "heap_ok h" and size: "unat nmemb * unat sz < 2 ^ 32" and nz: "nmemb \<noteq> 0" "sz \<noteq> 0"
    and ans: "Fail \<notin> set (take 2 (plan h))"
  shows "\<exists>h'. queue_create nmemb sz h = Some (Suc (brk h), None, h') \<and>
    queue_state False h' (Suc (brk h)) (brk h) (unat nmemb) (unat sz) [] \<and>
    plan h' = tl (tl (plan h)) \<and> brk h' = Suc (Suc (brk h)) \<and> same_except {Suc (brk h), brk h} h h' \<and>
    map_option q_static (load_queue (Suc (brk h)) h') = Some False"
proof -
  obtain q h2 where c: "created nmemb sz h = (q, h2)" by fastforce
  note r = create_result [OF ok nz ans, unfolded c snd_conv]
  have "unat (nmemb * sz) = unat nmemb * unat sz" using size by (simp add: unat_word_ariths)
  then have "queue_state False h2 (Suc (brk h)) (brk h) (unat nmemb) (unat sz) []"
    using c nz size
    by (intro fresh_queue_state [where q = q and bs = "replicate (unat (nmemb * sz)) 0" and st = False, OF r(2)])
      (auto simp: created_def Let_def queue_zero_def)
  then show ?thesis
    using r c by (auto simp: created_def Let_def same_except_def load_queue_def heap_load_def queue_zero_def)
qed

text \<open>\<open>queue_create\<close> gives an empty queue of the given capacity and message size on two new blocks,
  when the buffer is smaller than \<open>2 ^ 32\<close> bytes. Zero arguments are refused with \<open>EINVAL\<close>, and
  when an allocation fails the result is \<open>NULL\<close> and nothing is leaked.\<close>

theorem queue_create_branches:
  fixes h :: "'o qheap"
  assumes ok: "heap_ok h" and size: "unat nmemb * unat sz < 2 ^ 32"
  shows "if nmemb = 0 \<or> sz = 0 then queue_create nmemb sz h = Some (NULL, Some EINVAL, h)
    else if Fail \<in> set (take 2 (plan h))
    then \<exists>h'. queue_create nmemb sz h = Some (NULL, Some ENOMEM, h') \<and> blocks h' = blocks h
    else \<exists>qp buf h'. queue_create nmemb sz h = Some (qp, None, h') \<and>
      queue_state False h' qp buf (unat nmemb) (unat sz) [] \<and>
      blocks h qp = None \<and> blocks h buf = None \<and> same_except {qp, buf} h h'"
proof (cases "nmemb = 0 \<or> sz = 0 \<or> Fail \<notin> set (take 2 (plan h))")
  case True
  have "blocks h (Suc (brk h)) = None" "blocks h (brk h) = None"
    using heap_live_lt_brk [OF ok, of "Suc (brk h)"] heap_ok_brk [OF ok]
    by (cases "blocks h (Suc (brk h))"; auto)+
  then show ?thesis using True queue_create_ok [OF ok size] by (auto simp: queue_create_def)
next
  case False
  define bs :: "u8 list" where "bs = replicate (unat (nmemb * sz)) 0"
  define h1 :: "'o qheap" where "h1 = h\<lparr>blocks := (blocks h)(brk h \<mapsto> Bytes bs), brk := Suc (brk h), plan := tl (plan h)\<rparr>"
  have nz: "brk h \<noteq> NULL" using heap_ok_brk_pos [OF ok] by simp
  have "next_answer (h\<lparr>plan := tl (plan h)\<rparr>) = next_answer h1" by (simp add: next_answer_def h1_def)
  then consider "next_answer h = Fail" | "next_answer h \<noteq> Fail" "next_answer h1 = Fail"
    using False by (auto simp: take_two_answers)
  then show ?thesis
  proof cases
    case 1
    then show ?thesis using False by (auto simp: queue_create_def heap_alloc_def)
  next
    case 2
    then have "queue_setup (brk h) a b h1 = Some (NULL, h1\<lparr>plan := tl (plan h1)\<rparr>)" for a b
      by (simp add: queue_setup_def heap_alloc_def)
    then show ?thesis
      using False 2 nz heap_ok_brk [OF ok]
      by (simp add: queue_create_def heap_alloc_def heap_free_def h1_def [symmetric] bs_def [symmetric])
        (simp add: h1_def fun_upd_idem)
  qed
qed

theorem queue_create_branches_witness:
  "\<exists>qp buf (h' :: int qheap). queue_create 4 8 (heap_empty []) = Some (qp, None, h') \<and>
     queue_state False h' qp buf 4 8 []"
  using queue_create_branches [of "heap_empty []" 4 8] by auto

lemma queue_destroy_state:
  assumes "queue_state l h qp buf n s xs"
  shows "\<exists>q h'. load_queue qp h = Some q \<and> queue_destroy qp h = Some h' \<and>
    blocks h' = (\<lambda>p. if p = qp \<or> (\<not> q_static q \<and> p = buf) then None else blocks h p)"
proof -
  obtain q bs r where q: "ring h qp q bs r" "q_head q = buf" using assms by (auto simp: queue_state_def)
  then have b: "qp \<noteq> NULL" "buf \<noteq> NULL" "blocks h qp = Some (Queue q)" "blocks h buf = Some (Bytes bs)"
    "load_queue qp h = Some q" "qp \<noteq> buf"
    by (auto simp: ring_def load_queue_Some load_bytes_Some)
  then show ?thesis
    by (cases "q_static q") (auto simp: queue_destroy_def heap_free_def q(2) fun_eq_iff)
qed

text \<open>\<open>queue_destroy\<close> frees the queue, and its buffer unless the client provided it.\<close>

lemma queue_destroy_frees:
  assumes "queue_state l h qp buf n s xs"
  shows "\<exists>q h'. load_queue qp h = Some q \<and> queue_destroy qp h = Some h' \<and>
    blocks h' = (\<lambda>p. if p = qp \<or> (\<not> q_static q \<and> p = buf) then None else blocks h p)"
  by (rule queue_destroy_state [OF assms])

text \<open>A queue of two messages of two bytes, as \<open>queue_create\<close> makes it.\<close>

definition sample_queue :: "int qheap" where
  "sample_queue = \<lparr>blocks = [1 \<mapsto> Bytes [0, 0, 0, 0], 2 \<mapsto> Queue \<lparr>q_lock = False, q_static = False,
     q_nmemb = 2, q_size = 2, q_avail = 0, q_head = 1, q_tail = 2, q_write = 0, q_read = 0\<rparr>],
     brk = 3, plan = []\<rparr>"

lemma sample_queue_state: "queue_state False sample_queue 2 1 2 2 []"
proof (rule queue_stateI [where r = 0])
  show "ring sample_queue 2 \<lparr>q_lock = False, q_static = False, q_nmemb = 2, q_size = 2, q_avail = 0,
    q_head = 1, q_tail = 2, q_write = 0, q_read = 0\<rparr> [0, 0, 0, 0] 0"
    by (auto simp: ring_def sample_queue_def heap_ok_def load_queue_Some load_bytes_Some capacity_of_def
        msg_size_def count_of_def)
qed (simp_all add: capacity_of_def msg_size_def contents_def count_of_def)

theorem queue_destroy_frees_witness:
  "\<exists>h'. queue_destroy 2 sample_queue = Some h' \<and>
     blocks h' = (\<lambda>p. if p = 2 \<or> p = 1 then None else blocks sample_queue p)"
  using queue_destroy_frees [OF sample_queue_state] by (auto simp: load_queue_Some sample_queue_def)

text \<open>The size check of \<open>queue_create_static\<close> is the wrong way round: a buffer that cannot even hold
  one message is accepted, and the first \<open>queue_send\<close> writes past its end.\<close>

theorem queue_create_static_overruns:
  fixes h :: "'o qheap"
  assumes ok: "heap_ok h" and a: "next_answer h \<noteq> Fail" and p: "load_bytes p h = Some bs"
    and len: "unat count = length bs" "length bs < unat sz" and n: "nmemb \<noteq> 0" "unat nmemb * unat sz < 2 ^ 32"
  shows "\<exists>qp h'. queue_create_static p count nmemb sz h = Some (qp, None, h') \<and>
    queue_send qp src timeout now ws h' = None"
proof -
  define q where "q = queue_zero\<lparr>q_static := True, q_head := p,
      q_tail := unat (((ucast nmemb :: u32) - 1) * ucast sz), q_nmemb := ucast (ucast nmemb :: u32),
      q_size := ucast (ucast sz :: u32)\<rparr>"
  define h' where "h' = h\<lparr>blocks := (blocks h)(brk h \<mapsto> Queue q), brk := Suc (brk h), plan := tl (plan h)\<rparr>"
  have pos: "0 < unat nmemb" "0 < unat sz" using n(1) len(2) by (auto simp: unat_gt_0)
  have le: "unat nmemb \<le> unat nmemb * unat sz" "unat sz \<le> unat nmemb * unat sz" using pos by simp_all
  then have lt: "unat nmemb < 2 ^ 32" "unat sz < 2 ^ 32" using n(2) by linarith+
  have prod: "unat (nmemb * sz) = unat nmemb * unat sz" using n(2) by (simp add: unat_word_ariths)
  have "\<not> nmemb * sz < count"
  proof -
    have "unat count \<le> unat (nmemb * sz)" unfolding prod len(1) using le(2) len(2) by linarith
    then show ?thesis by (simp add: word_less_nat_alt)
  qed
  moreover have sz: "nmemb \<noteq> 0" "sz \<noteq> 0" using pos by auto
  moreover have nz: "brk h \<noteq> NULL" using heap_ok_brk_pos [OF ok] by simp
  ultimately have "queue_create_static p count nmemb sz h = Some (brk h, None, h')"
    using setup_result [OF ok a] nz
    by (simp add: queue_create_static_def load_queue_def heap_load_def store_queue_def heap_store_def
        h'_def q_def queue_zero_def)
  moreover have "queue_send (brk h) src timeout now ws h' = None"
  proof -
    define ql where "ql = q\<lparr>q_lock := True\<rparr>"
    define hl where "hl = h'\<lparr>blocks := (blocks h')(brk h \<mapsto> Queue ql)\<rparr>"
    have lock: "mutex_lock (brk h) h' = Some hl" "load_queue (brk h) hl = Some ql"
      using nz by (simp_all add: mutex_lock_def load_queue_def heap_load_def store_queue_def
          heap_store_def h'_def hl_def ql_def q_def queue_zero_def)
    have "(ucast (ucast nmemb :: u32) :: u64) \<noteq> 0" using ucast_ucast_32 [OF lt(1)] n(1) by simp
    then have "queue_is_full_locked ql = 0"
      by (simp add: queue_is_full_locked_def of_bool_int_def ql_def q_def queue_zero_def)
    moreover have "p \<noteq> brk h" using p heap_ok_brk [OF ok] by (auto simp: load_bytes_Some)
    then have "load_bytes p hl = Some bs" using p by (simp add: load_bytes_Some hl_def h'_def)
    moreover have "unat (q_size ql) = unat sz" "q_head ql = p" "q_write ql = 0"
      using ucast_ucast_32 [OF lt(2)] by (simp_all add: ql_def q_def queue_zero_def)
    ultimately show ?thesis
      using lock nz len(2) by (simp add: queue_send_def send_commit_def write_bytes_def Let_def)
  qed
  ultimately show ?thesis by blast
qed

theorem queue_create_static_overruns_witness:
  "\<exists>qp h'. queue_create_static 1 4 2 8 (sample_queue :: int qheap) = Some (qp, None, h') \<and>
     queue_send qp [1, 2, 3, 4, 5, 6, 7, 8] 0 \<lparr>tv_sec = 0, tv_nsec = 0\<rparr> [] h' = None"
proof -
  have "heap_ok sample_queue" using queue_state_heap [OF sample_queue_state] by simp
  then show ?thesis
    by (rule queue_create_static_overruns [where bs = "[0, 0, 0, 0]"])
      (simp_all add: next_answer_def sample_queue_def load_bytes_Some)
qed

text \<open>A message sent to a queue whose write offset is that of its last message.\<close>

lemma send_at_tail:
  assumes qp: "blocks h qp = Some (Queue q)" "qp \<noteq> NULL" and q: "q_lock q = False" "q_avail q \<noteq> q_nmemb q"
    "q_write q = q_tail q"
    and buf: "blocks h (q_head q) = Some (Bytes bs)" "q_head q \<noteq> NULL" "q_head q \<noteq> qp"
    and fit: "q_write q + unat (q_size q) \<le> length bs" "unat (q_size q) \<le> length src"
  shows "\<exists>h'. queue_send qp src timeout now [] h = Some (0, None, [], h') \<and>
    load_queue qp h' = Some (q\<lparr>q_write := 0, q_avail := q_avail q + 1\<rparr>)"
proof -
  define ql where "ql = q\<lparr>q_lock := True\<rparr>"
  define hl where "hl = h\<lparr>blocks := (blocks h)(qp \<mapsto> Queue ql)\<rparr>"
  have lock: "mutex_lock qp h = Some hl" "load_queue qp hl = Some ql" "queue_is_full_locked ql = 0"
    using qp q(1,2) by (simp_all add: mutex_lock_def load_queue_def heap_load_def store_queue_def
        heap_store_def hl_def ql_def queue_is_full_locked_def of_bool_int_def)
  obtain hc where hc: "send_commit qp src hl = Some hc"
    "blocks hc qp = Some (Queue (ql\<lparr>q_write := 0, q_avail := q_avail q + 1\<rparr>))"
    using fit qp buf q(3) lock(2)
    by (auto simp: send_commit_def write_bytes_def Let_def load_bytes_def load_queue_def heap_load_def
        store_queue_def heap_store_def hl_def ql_def)
  have "\<exists>h2. mutex_unlock qp hc = Some h2 \<and>
      load_queue qp h2 = Some (ql\<lparr>q_write := 0, q_avail := q_avail q + 1, q_lock := False\<rparr>)"
    using hc(2) qp(2) by (simp add: mutex_unlock_def load_queue_def heap_load_def ql_def store_queue_def
        heap_store_def)
  then show ?thesis using lock hc(1) qp(2) q(1) by (auto simp: queue_send_def ql_def)
qed

text \<open>The offset of the last message is computed in 32 bits. When it is a multiple of \<open>2 ^ 32\<close> it
  wraps to 0, the write pointer never leaves the start of the buffer, and the second message
  overwrites the first although the queue counts both.\<close>

theorem queue_create_tail_wraps:
  fixes h :: "'o qheap"
  assumes ok: "heap_ok h" and a: "Fail \<notin> set (take 2 (plan h))"
    and n: "unat nmemb < 2 ^ 32" "unat sz < 2 ^ 32" "2 \<le> unat nmemb" "0 < unat sz"
    and wrap: "2 ^ 32 dvd (unat nmemb - 1) * unat sz" and fit: "unat nmemb * unat sz < 2 ^ 64"
    and src: "unat sz \<le> length src"
  shows "\<exists>qp h1 h2 q. queue_create nmemb sz h = Some (qp, None, h1) \<and>
    queue_send qp src timeout now [] h1 = Some (0, None, [], h2) \<and>
    load_queue qp h2 = Some q \<and> q_write q = 0 \<and> q_read q = 0 \<and> q_avail q = 1"
proof -
  obtain q h1 where c: "created nmemb sz h = (q, h1)" by fastforce
  have nz: "nmemb \<noteq> 0" "sz \<noteq> 0" using n(3,4) by auto
  note r = create_result [OF ok nz a, unfolded c snd_conv]
  have u: "unat (ucast nmemb :: u32) = unat nmemb" "unat (ucast sz :: u32) = unat sz"
    using unat_ucast_32 n(1,2) by blast+
  have "unat ((ucast nmemb :: u32) - 1) = unat nmemb - 1"
    using n(3) u(1) by (simp add: unat_sub word_le_nat_alt)
  then have "unat (((ucast nmemb :: u32) - 1) * ucast sz) = 0"
    using u(2) wrap by (simp add: unat_word_ariths)
  then have q: "q = queue_zero\<lparr>q_head := brk h, q_tail := 0, q_nmemb := nmemb, q_size := sz\<rparr>"
    using c ucast_ucast_32 [OF n(1)] ucast_ucast_32 [OF n(2)] by (auto simp: created_def Let_def)
  have h1: "blocks h1 = (blocks h)(brk h \<mapsto> Bytes (replicate (unat (nmemb * sz)) 0), Suc (brk h) \<mapsto> Queue q)"
    using c by (auto simp: created_def Let_def)
  have "unat sz \<le> unat (nmemb * sz)" using n(3) fit by (simp add: unat_word_ariths)
  then obtain h2 where "queue_send (Suc (brk h)) src timeout now [] h1 = Some (0, None, [], h2)"
    "load_queue (Suc (brk h)) h2 = Some (q\<lparr>q_write := 0, q_avail := q_avail q + 1\<rparr>)"
    using send_at_tail [of h1 "Suc (brk h)" q "replicate (unat (nmemb * sz)) 0" src timeout now] h1 src nz(1)
      heap_ok_brk_pos [OF ok]
    by (auto simp: q queue_zero_def)
  then show ?thesis using r(1) by (auto simp: q queue_zero_def)
qed

theorem queue_create_tail_wraps_witness:
  "\<exists>qp h1 h2 q. queue_create 0x10001 0x10000 (heap_empty [] :: int qheap) = Some (qp, None, h1) \<and>
     queue_send qp (replicate 0x10000 0) 0 \<lparr>tv_sec = 0, tv_nsec = 0\<rparr> [] h1 = Some (0, None, [], h2) \<and>
     load_queue qp h2 = Some q \<and> q_write q = 0 \<and> q_read q = 0 \<and> q_avail q = 1"
  by (rule queue_create_tail_wraps [OF heap_ok_empty]) simp_all

subsection \<open>One thread\<close>

text \<open>First in, first out, and bounded: from an empty queue, messages are accepted until the capacity
  is reached, the next one is refused, and receiving until the queue is empty gives the accepted
  messages in their order.\<close>

theorem queue_fill_drain:
  assumes "queue_state False h qp buf n s []" and "\<forall>m \<in> set ms. length m = s"
  shows "\<exists>h1 h2. send_each (send_alone qp timeout now) ms h = Some (min n (length ms), h1) \<and>
    recv_each (recv_alone qp timeout now) (Suc n) h1 = Some (take n ms, h2) \<and>
    queue_state False h2 qp buf n s []"
  by (rule rq.fill_then_drain [OF assms])

theorem queue_fill_drain_witness:
  "\<exists>h1 h2. send_each (send_alone 2 0 \<lparr>tv_sec = 0, tv_nsec = 0\<rparr>) [[1, 2], [3, 4], [5, 6]] sample_queue =
       Some (2, h1) \<and>
     recv_each (recv_alone 2 0 \<lparr>tv_sec = 0, tv_nsec = 0\<rparr>) 3 h1 = Some ([[1, 2], [3, 4]], h2)"
  using queue_fill_drain [OF sample_queue_state, of "[[1, 2], [3, 4], [5, 6]]" 0 "\<lparr>tv_sec = 0, tv_nsec = 0\<rparr>"]
  by (auto simp: numeral_2_eq_2 numeral_3_eq_3)

text \<open>the state queries report emptiness, fullness and the free places, and leave the heap as it was,
  the mutex released.\<close>

lemma queue_queries:
  assumes "queue_state False h qp buf n s xs" and "n < 2 ^ 31"
  shows "queue_is_empty qp h = Some (if xs = [] then 1 else 0, None, h) \<and>
    queue_is_full qp h = Some (if length xs = n then 1 else 0, None, h) \<and>
    queue_space_available qp h = Some (int n - int (length xs), None, h)"
  using query_alone [OF assms(1)] assms(2) by (simp add: of_bool_int_def)

theorem queue_queries_witness:
  "queue_is_empty 2 sample_queue = Some (1, None, sample_queue) \<and>
   queue_is_full 2 sample_queue = Some (0, None, sample_queue) \<and>
   queue_space_available 2 sample_queue = Some (2, None, sample_queue)"
  using queue_queries [OF sample_queue_state] by simp

subsection \<open>Several threads\<close>

text \<open>C3: for any interleaving of the critical sections of any number of threads, started on an empty
  queue, the messages sent are the messages received followed by those still in the queue, in
  the same order, and the queue never holds more than its capacity.\<close>

theorem queue_concurrent_fifo:
  assumes "queue_run qp h es h'" and "queue_state False h qp buf n s []"
  shows "\<exists>ys. queue_state False h' qp buf n s ys \<and> sent es = got es @ ys \<and> length ys \<le> n"
proof -
  obtain ys where "replay n [] es = Some ys" "queue_state False h' qp buf n s ys"
    using queue_run_sim [OF assms] by blast
  then show ?thesis using replay_fifo [of n "[]" es ys] queue_state_bound by auto
qed

text \<open>C4: whatever the other threads do while \<open>queue_send\<close> waits, the call returns, and is either one
  atomic send after what they did, at a moment when there was room, or fails with \<open>ENOSPC\<close>,
  having sent nothing, at a moment when the queue was full. The mutex is free afterwards.\<close>

theorem queue_send_atomic:
  assumes "queue_state False h qp buf n s xs" and "s \<le> length src" and "fair_wakes ws qp buf n s"
  shows "\<exists>ws' h' es ys. replay n xs es = Some ys \<and>
    ((queue_send qp src timeout now ws h = Some (0, None, ws', h') \<and> length ys < n \<and>
       queue_run qp h (es @ [Sent (take s src)]) h' \<and>
       queue_state False h' qp buf n s (ys @ [take s src])) \<or>
     (queue_send qp src timeout now ws h = Some (- 1, Some ENOSPC, ws', h') \<and> length ys = n \<and>
       queue_run qp h es h' \<and> queue_state False h' qp buf n s ys))"
  using queue_send_run [OF assms, of timeout now] by blast

text \<open>C5: the same for \<open>queue_recv\<close>: one atomic receive of the oldest message, or \<open>EAGAIN\<close> on an empty
  queue.\<close>

theorem queue_recv_atomic:
  assumes "queue_state False h qp buf n s xs" and "fair_wakes ws qp buf n s"
  shows "\<exists>ws' h' es ys. replay n xs es = Some ys \<and>
    ((\<exists>m zs. ys = m # zs \<and> queue_recv qp timeout now ws h = Some (0, None, Some m, ws', h') \<and>
       queue_run qp h (es @ [Got m]) h' \<and> queue_state False h' qp buf n s zs) \<or>
     (ys = [] \<and> queue_recv qp timeout now ws h = Some (- 1, Some EAGAIN, None, ws', h') \<and>
       queue_run qp h es h' \<and> queue_state False h' qp buf n s []))"
  using queue_recv_run [OF assms, of timeout now] by blast

text \<open>A thread that receives a message while another waits.\<close>

definition other_recv :: "ptr \<Rightarrow> 'o qheap \<Rightarrow> 'o qheap" where
  "other_recv qp h = (case queue_recv qp 0 \<lparr>tv_sec = 0, tv_nsec = 0\<rparr> [] h of
     Some (_, _, _, _, h') \<Rightarrow> h' | None \<Rightarrow> h)"

lemma other_recv_fair: "fair_wakes [(t, other_recv qp)] qp buf n s"
proof -
  have "\<exists>es. queue_run qp h es (other_recv qp h)"
    if st: "queue_state False h qp buf n s xs" for h :: "'o qheap" and xs
    using queue_recv_run [OF st fair_wakes_Nil, of 0 "\<lparr>tv_sec = 0, tv_nsec = 0\<rparr>"]
    by (fastforce simp: other_recv_def)
  then show ?thesis by (simp add: fair_wakes_Cons) blast
qed

lemma sample_run: "\<exists>es h'. Sent [1, 2] \<in> set es \<and> queue_run 2 sample_queue es h'"
proof -
  let ?now = "\<lparr>tv_sec = 0, tv_nsec = 0\<rparr>"
  obtain h' where "queue_send 2 [1, 2] 0 ?now [] sample_queue = Some (0, None, [], h')"
    using queue_send_alone [OF sample_queue_state, of "[1, 2]" 0 ?now] by auto
  then obtain es where "queue_run 2 sample_queue (es @ [Sent [1, 2]]) h'"
    using queue_send_run [OF sample_queue_state, of "[1, 2]" "[]" 0 ?now] by auto
  then show ?thesis by (intro exI [of _ "es @ [Sent [1, 2]]"] exI [of _ h']) simp
qed

theorem queue_concurrent_fifo_witness:
  "\<exists>es h' ys. Sent [1, 2] \<in> set es \<and> queue_run 2 sample_queue es h' \<and>
     queue_state False h' 2 1 2 2 ys \<and> sent es = got es @ ys \<and> length ys \<le> 2"
  using sample_run queue_concurrent_fifo [OF _ sample_queue_state] by blast

theorem queue_send_atomic_witness:
  "\<exists>ws' h' es ys. replay 2 [] es = Some ys \<and>
     ((queue_send 2 [1, 2] 5 \<lparr>tv_sec = 0, tv_nsec = 0\<rparr> [(\<lparr>tv_sec = 0, tv_nsec = 1\<rparr>, other_recv 2)]
         sample_queue = Some (0, None, ws', h') \<and> length ys < 2) \<or>
      (queue_send 2 [1, 2] 5 \<lparr>tv_sec = 0, tv_nsec = 0\<rparr> [(\<lparr>tv_sec = 0, tv_nsec = 1\<rparr>, other_recv 2)]
         sample_queue = Some (- 1, Some ENOSPC, ws', h') \<and> length ys = 2))"
  using queue_send_atomic [OF sample_queue_state _ other_recv_fair, of "[1, 2]" 5
      "\<lparr>tv_sec = 0, tv_nsec = 0\<rparr>" "\<lparr>tv_sec = 0, tv_nsec = 1\<rparr>"]
  by auto

theorem queue_recv_atomic_witness:
  "\<exists>ws' h' es ys. replay 2 [] es = Some ys \<and>
     ((\<exists>m zs. ys = m # zs \<and> queue_recv 2 5 \<lparr>tv_sec = 0, tv_nsec = 0\<rparr>
         [(\<lparr>tv_sec = 0, tv_nsec = 1\<rparr>, other_recv 2)] sample_queue = Some (0, None, Some m, ws', h')) \<or>
      (ys = [] \<and> queue_recv 2 5 \<lparr>tv_sec = 0, tv_nsec = 0\<rparr>
         [(\<lparr>tv_sec = 0, tv_nsec = 1\<rparr>, other_recv 2)] sample_queue = Some (- 1, Some EAGAIN, None, ws', h')))"
  using queue_recv_atomic [OF sample_queue_state other_recv_fair, of 5
      "\<lparr>tv_sec = 0, tv_nsec = 0\<rparr>" "\<lparr>tv_sec = 0, tv_nsec = 1\<rparr>"]
  by blast

text \<open>\<open>queue_empty_wait\<close> waits on and unlocks a mutex it has not locked: on a queue whose mutex is
  free it is undefined, whether the queue is empty or not.\<close>

theorem queue_empty_wait_undefined:
  assumes "load_queue qp h = Some q" and "\<not> q_lock q"
  shows "queue_empty_wait qp timeout now ws h = None"
proof -
  have "qp \<noteq> NULL" using assms(1) by (simp add: load_queue_Some)
  moreover have "mutex_unlock qp h = None" using assms by (simp add: mutex_unlock_def)
  ultimately show ?thesis
    using assms(1) by (cases ws) (auto simp: queue_empty_wait_def wait_loop.simps cond_timedwait_def)
qed

theorem queue_empty_wait_undefined_witness:
  "queue_empty_wait 2 1000 \<lparr>tv_sec = 0, tv_nsec = 0\<rparr> [] sample_queue = None"
  by (rule queue_empty_wait_undefined [where q = "\<lparr>q_lock = False, q_static = False,
     q_nmemb = 2, q_size = 2, q_avail = 0, q_head = 1, q_tail = 2, q_write = 0, q_read = 0\<rparr>"])
    (simp_all add: load_queue_Some sample_queue_def)

subsection \<open>Deadlines\<close>

text \<open>For a timeout that is not negative \<open>queue_ts_add\<close> gives a valid time that is the timeout in
  milliseconds later, and one nanosecond more when the nanoseconds carry into the seconds,
  because it subtracts 999999999 for the second it adds.\<close>

theorem queue_ts_add_deadline:
  assumes "0 \<le> tv_nsec ts" and "tv_nsec ts < 1000000000" and "0 \<le> timeout"
  shows "0 \<le> tv_nsec (queue_ts_add ts timeout) \<and> tv_nsec (queue_ts_add ts timeout) < 1000000000 \<and>
    ts_nanos (queue_ts_add ts timeout) = ts_nanos ts + timeout * 1000000 +
      (if tv_nsec ts + timeout mod 1000 * 1000000 \<ge> 1000000000 then 1 else 0)"
proof -
  have d: "c_div timeout 1000 = timeout div 1000" using assms(3) by (simp add: c_div_def)
  have m: "c_mod timeout 1000 = timeout mod 1000"
    by (simp add: c_mod_def d minus_div_mult_eq_mod)
  obtain a b where ab: "timeout div 1000 = a" "timeout mod 1000 = b" "timeout = a * 1000 + b"
    "0 \<le> b" "b < 1000"
    by (metis div_mult_mod_eq pos_mod_bound pos_mod_sign zero_less_numeral)
  show ?thesis using assms(1,2) ab(4,5)
    unfolding queue_ts_add_def d m ab(1,2) ts_nanos_def Let_def unfolding ab(3) by simp
qed

theorem queue_ts_add_deadline_witness:
  "ts_nanos (queue_ts_add \<lparr>tv_sec = 1, tv_nsec = 600000000\<rparr> 1500) = 3100000001"
  using queue_ts_add_deadline [of "\<lparr>tv_sec = 1, tv_nsec = 600000000\<rparr>" 1500]
  by (simp add: ts_nanos_def)

text \<open>The deadline is the time after the timeout, or one nanosecond later.\<close>

lemma deadline_bounds:
  assumes "ts_valid now" and "0 \<le> timeout"
  shows "ts_valid (deadline now timeout)"
    and "ts_nanos now + timeout * 1000000 \<le> ts_nanos (deadline now timeout)"
    and "ts_nanos (deadline now timeout) \<le> ts_nanos now + timeout * 1000000 + 1"
proof -
  have add: "ts_valid (queue_ts_add now timeout) \<and>
      ts_nanos (queue_ts_add now timeout) - (ts_nanos now + timeout * 1000000) \<in> {0, 1}"
    using queue_ts_add_deadline [of now timeout] assms
    by (auto simp: ts_valid_def queue_ts_add_def c_div_pos Let_def split: if_splits)
  show "ts_valid (deadline now timeout)"
    and "ts_nanos now + timeout * 1000000 \<le> ts_nanos (deadline now timeout)"
    and "ts_nanos (deadline now timeout) \<le> ts_nanos now + timeout * 1000000 + 1"
    using add assms(1) by (auto simp: deadline_def)
qed

definition gave_up :: "timespec \<Rightarrow> int \<Rightarrow> 'o wake list \<Rightarrow> 'o wake list \<Rightarrow> bool" where
  "gave_up now timeout ws ws' \<longleftrightarrow> (\<exists>used. ws = used @ ws' \<and>
     (\<forall>w \<in> set (butlast used). ts_nanos (fst w) \<le> ts_nanos now + timeout * 1000000) \<and>
     (ws' = [] \<or> used \<noteq> [] \<and> ts_nanos now + timeout * 1000000 \<le> ts_nanos (fst (last used))))"

lemma stopped_gave_up:
  assumes "ts_valid now" and "0 \<le> timeout" and "list_all (ts_valid \<circ> fst) ws" and "stopped_at (deadline now timeout) ws ws'"
  shows "gave_up now timeout ws ws'"
proof -
  note d = deadline_bounds [OF assms(1,2)]
  obtain used where u: "ws = used @ ws'" "\<forall>w \<in> set (butlast used). fst w < deadline now timeout"
    "ws' = [] \<or> used \<noteq> [] \<and> deadline now timeout \<le> fst (last used)"
    using assms(4) unfolding stopped_at_def by blast
  have valid: "\<forall>w \<in> set used. ts_valid (fst w)" using assms(3) u(1) by (simp add: list_all_iff)
  have "ts_nanos (fst w) \<le> ts_nanos now + timeout * 1000000" if "w \<in> set (butlast used)" for w
    using that u(2) valid d ts_le_iff [OF d(1), of "fst w"] in_set_butlastD [OF that] by force
  moreover have "ws' = [] \<or> used \<noteq> [] \<and> ts_nanos now + timeout * 1000000 \<le> ts_nanos (fst (last used))"
    using u(3) valid d ts_le_iff [OF d(1), of "fst (last used)"] by fastforce
  ultimately show ?thesis using u(1) unfolding gave_up_def by blast
qed

lemma send_gives_up:
  "queue_send qp src timeout now ws h = Some (rc, Some ENOSPC, ws', h') \<Longrightarrow> stopped_at (deadline now timeout) ws ws'"
  by (auto simp: queue_send_def queue_send_wait_def bind_Some_iff split: if_splits dest: wait_loop_stops)

lemma recv_gives_up:
  "queue_recv qp timeout now ws h = Some (rc, Some EAGAIN, m, ws', h') \<Longrightarrow> stopped_at (deadline now timeout) ws ws'"
  by (auto simp: queue_recv_def queue_recv_wait_def bind_Some_iff split: if_splits dest: wait_loop_stops)

text \<open>C20: how long a call waits. \<open>queue_send\<close> on a full queue and \<open>queue_recv\<close> on an empty one go on waiting after every
  wake that comes before their timeout, and give up only when a wake comes at the timeout or later, or when
  none is left.
\<close>

theorem queue_waits_for_timeout:
  assumes "ts_valid now" and "0 \<le> timeout" and "list_all (ts_valid \<circ> fst) ws"
  shows "(queue_send qp src timeout now ws h = Some (- 1, Some ENOSPC, ws1, h1) \<longrightarrow> gave_up now timeout ws ws1) \<and>
    (queue_recv qp timeout now ws h = Some (- 1, Some EAGAIN, None, ws2, h2) \<longrightarrow> gave_up now timeout ws ws2)"
  using stopped_gave_up [OF assms] send_gives_up recv_gives_up by metis

text \<open>Wakes after 1, 6 and 7 milliseconds, and a timeout of 5: the call ends with the second.\<close>

theorem queue_waits_for_timeout_witness:
  "\<exists>h. queue_recv 2 5 \<lparr>tv_sec = 0, tv_nsec = 0\<rparr> [(ts_of 1000000, id), (ts_of 6000000, id), (ts_of 7000000, id)] sample_queue =
      Some (- 1, Some EAGAIN, None, [(ts_of 7000000, id)], h) \<and>
    gave_up \<lparr>tv_sec = 0, tv_nsec = 0\<rparr> 5 [(ts_of 1000000, id), (ts_of 6000000, id), (ts_of 7000000, id)]
      [(ts_of 7000000, id :: int qheap \<Rightarrow> int qheap)]"
proof -
  let ?now = "\<lparr>tv_sec = 0, tv_nsec = 0\<rparr>"
    and ?ws = "[(ts_of 1000000, id), (ts_of 6000000, id), (ts_of 7000000, id :: int qheap \<Rightarrow> int qheap)]"
  have "\<exists>h. queue_recv 2 5 ?now ?ws sample_queue = Some (- 1, Some EAGAIN, None, [(ts_of 7000000, id)], h)"
    by (simp add: queue_recv_def queue_recv_wait_def wait_loop.simps cond_timedwait_def sample_queue_def mutex_lock_def
        mutex_unlock_def load_queue_def store_queue_def heap_load_def heap_store_def queue_is_empty_locked_def
        deadline_def queue_ts_add_def c_div_def c_mod_def ts_of_def less_eq_timespec_ext_def of_bool_int_def)
  moreover have "ts_valid ?now" "list_all (ts_valid \<circ> fst) ?ws"
    by (simp_all add: ts_valid_def ts_of_def)
  ultimately show ?thesis using queue_waits_for_timeout [of ?now 5 ?ws 2 _ sample_queue] by fastforce
qed

end
