(* ===== verification/Queue_Example.thy ===== *)
theory Queue_Example
  imports Queue_Properties
begin

text \<open>
  \<open>examples/queue/queue.c\<close> in its default configuration (\<open>Q_STATIC\<close> 0): \<open>main\<close> sends the addresses of
  new objects until the queue is full, receives and prints them, and destroys the queue. It is a
  single thread, so no wait is woken; \<open>now\<close> is the clock, and \<open>pl\<close> says which allocations succeed. Messages on \<open>stderr\<close> are not modelled.
\<close>

subsection \<open>Addresses as messages\<close>

text \<open>The bytes of a pointer variable, in the byte order of the platform.\<close>

definition encode_ptr :: "ptr \<Rightarrow> u8 list" where
  "encode_ptr p = map (\<lambda>i. of_nat (p div 256 ^ i)) [0..<8]"

definition decode_ptr :: "u8 list \<Rightarrow> ptr" where
  "decode_ptr bs = foldr (\<lambda>b n. n * 256 + unat b) bs 0"

lemma length_encode [simp]: "length (encode_ptr p) = 8"
  by (simp add: encode_ptr_def)

lemma decode_encode_low: "p < 256 ^ k \<Longrightarrow> decode_ptr (map (\<lambda>i. of_nat (p div 256 ^ i)) [0..<k]) = p"
proof (induction k arbitrary: p)
  case (Suc k)
  have "map (\<lambda>i. of_nat (p div 256 ^ i)) [0..<Suc k] =
      (of_nat p :: u8) # map (\<lambda>i. of_nat (p div 256 div 256 ^ i)) [0..<k]"
    by (simp add: upt_conv_Cons map_Suc_upt [symmetric] comp_def div_mult2_eq del: upt_Suc map_Suc_upt)
  moreover have "p div 256 < 256 ^ k" using Suc.prems by (simp add: less_mult_imp_div_less mult.commute)
  moreover have "unat (of_nat p :: u8) = p mod 256" by (simp add: unsigned_of_nat take_bit_eq_mod)
  ultimately show ?case using Suc.IH [of "p div 256"] by (simp add: decode_ptr_def)
qed (simp add: decode_ptr_def)

lemma decode_encode: "p < 2 ^ 64 \<Longrightarrow> decode_ptr (encode_ptr p) = p"
  unfolding encode_ptr_def by (rule decode_encode_low) simp

subsection \<open>The program\<close>

definition Q_CNT :: size_t where "Q_CNT = 4"

text \<open>The text \<open>q_stat\<close> prints.\<close>

definition stat_line :: "int \<Rightarrow> int \<Rightarrow> int \<Rightarrow> string" where
  "stat_line e f n = ''q empty: '' @ dec_int e @ '', full: '' @ dec_int f @ '', free: '' @ dec_int n @ newline"

definition q_stat :: "ptr \<Rightarrow> int qheap \<Rightarrow> (string \<times> int qheap) option" where
  "q_stat q h = do {
     (e, _, h) \<leftarrow> queue_is_empty q h;
     (f, _, h) \<leftarrow> queue_is_full q h;
     (n, _, h) \<leftarrow> queue_space_available q h;
     Some (stat_line e f n, h) }"

text \<open>The first loop; the flag tells whether it left through \<open>send_done\<close> rather than \<open>err_clear\<close>.\<close>

partial_function (option) send_loop ::
  "timespec \<Rightarrow> ptr \<Rightarrow> nat \<Rightarrow> string \<Rightarrow> int qheap \<Rightarrow> (bool \<times> string \<times> int qheap) option" where
  "send_loop now q i out h =
     Option.bind (if i = 3 then q_stat q h else Some ([], h)) (\<lambda>(line, h).
       case heap_alloc (Item 0) h of (s, h) \<Rightarrow>
       if s = NULL then Some (False, out @ line, h)
       else Option.bind (heap_store s (Item (int i + 1)) h) (\<lambda>h.
         Option.bind (queue_send q (encode_ptr s) 1000 now [] h) (\<lambda>(ret, _, _, h).
           if ret < 0
           then Option.bind (heap_free s h) (\<lambda>h. Some (True, out @ line, h))
           else send_loop now q (Suc i) (out @ line) h)))"

definition item_val :: "ptr \<Rightarrow> int qheap \<Rightarrow> int option" where
  "item_val s h = (case heap_load s h of Some (Item v) \<Rightarrow> Some v | _ \<Rightarrow> None)"

partial_function (option) recv_loop ::
  "timespec \<Rightarrow> ptr \<Rightarrow> string \<Rightarrow> int qheap \<Rightarrow> (string \<times> int qheap) option" where
  "recv_loop now q out h =
     Option.bind (queue_recv q 1000 now [] h) (\<lambda>(ret, _, msg, _, h).
       if ret < 0 then Some (out, h)
       else Option.bind (map_option decode_ptr msg) (\<lambda>s.
         Option.bind (item_val s h) (\<lambda>v.
           Option.bind (heap_free s h) (\<lambda>h.
             recv_loop now q (out @ dec_int v @ '';'' @ newline) h))))"

definition queue_main :: "timespec \<Rightarrow> answer list \<Rightarrow> (int \<times> string \<times> int qheap) option" where
  "queue_main now pl = do {
     (q, _, h) \<leftarrow> queue_create Q_CNT 8 (heap_empty pl);
     if q = NULL then Some (- 1, [], h)
     else do {
       (line, h) \<leftarrow> q_stat q h;
       (sent_all, out, h) \<leftarrow> send_loop now q 0 line h;
       (out, h) \<leftarrow>
         (if sent_all then do {
            (line, h) \<leftarrow> q_stat q h;
            (out, h) \<leftarrow> recv_loop now q (out @ line) h;
            (line, h) \<leftarrow> q_stat q h;
            Some (out @ line, h) }
          else Some (out, h));
       h \<leftarrow> queue_destroy q h;
       Some (0, out, h) } }"

subsection \<open>Its state\<close>

definition static_of :: "ptr \<Rightarrow> 'o qheap \<Rightarrow> bool option" where
  "static_of q h = map_option q_static (load_queue q h)"

lemma static_lock: "mutex_lock qp h = Some h' \<Longrightarrow> static_of qp h' = static_of qp h"
  by (auto simp: mutex_lock_def bind_Some_iff store_queue_def heap_store_def static_of_def load_queue_Some
      load_queue_def heap_load_def split: if_splits)

lemma static_unlock: "mutex_unlock qp h = Some h' \<Longrightarrow> static_of qp h' = static_of qp h"
  by (auto simp: mutex_unlock_def bind_Some_iff store_queue_def heap_store_def static_of_def load_queue_Some
      load_queue_def heap_load_def split: if_splits)

lemma static_send_commit: "send_commit qp src h = Some h' \<Longrightarrow> static_of qp h' = static_of qp h"
  by (auto simp: send_commit_def bind_Some_iff store_queue_def heap_store_def static_of_def Let_def
      write_bytes_def load_queue_Some load_bytes_Some load_queue_def heap_load_def split: if_splits)

lemma static_recv_commit: "recv_commit qp h = Some (m, h') \<Longrightarrow> static_of qp h' = static_of qp h"
  by (auto simp: recv_commit_def bind_Some_iff store_queue_def heap_store_def static_of_def Let_def
      load_queue_Some load_queue_def heap_load_def split: if_splits)

lemma static_wait: "wait_loop b qp ts [] h = Some (ws, h') \<Longrightarrow> static_of qp h' = static_of qp h"
  by (auto simp: wait_loop.simps cond_timedwait_def bind_Some_iff split: if_splits
      dest!: static_lock static_unlock)

lemma static_send:
  assumes "queue_send qp src timeout now [] h = Some (rc, er, ws, h')"
  shows "static_of qp h' = static_of qp h"
  using assms
  by (auto simp: queue_send_def queue_send_wait_def bind_Some_iff split: if_splits
      dest!: static_lock static_unlock static_send_commit static_wait)

lemma static_recv:
  assumes "queue_recv qp timeout now [] h = Some (rc, er, m, ws, h')"
  shows "static_of qp h' = static_of qp h"
  using assms
  by (auto simp: queue_recv_def queue_recv_wait_def bind_Some_iff split: if_splits
      dest!: static_lock static_unlock static_recv_commit static_wait)

lemma static_frame: "blocks h' q = blocks h q \<Longrightarrow> static_of q h' = static_of q h"
  by (simp add: static_of_def load_queue_def heap_load_def)

text \<open>The queue holds the addresses \<open>ps\<close> of objects with the values \<open>vs\<close>; nothing else is allocated.\<close>

definition loaded :: "int qheap \<Rightarrow> ptr \<Rightarrow> ptr \<Rightarrow> ptr list \<Rightarrow> int list \<Rightarrow> bool" where
  "loaded h q buf ps vs \<longleftrightarrow> queue_state False h q buf 4 8 (map encode_ptr ps) \<and>
     distinct ps \<and> map (blocks h) ps = map (Some \<circ> Item) vs \<and> dom (blocks h) = {q, buf} \<union> set ps \<and>
     (\<forall>p \<in> set ps. p < 2 ^ 64) \<and> static_of q h = Some False"

lemma q_stat_state:
  assumes "queue_state False h q buf 4 8 xs"
  shows "q_stat q h = Some (stat_line (of_bool_int (xs = [])) (of_bool_int (length xs = 4)) (4 - int (length xs)), h)"
  using query_alone [OF assms] by (simp add: q_stat_def)

lemma loaded_not_queue:
  assumes "loaded h q buf ps vs" and "p \<in> set ps"
  shows "p \<noteq> q" "p \<noteq> buf" "\<exists>v. blocks h p = Some (Item v)"
proof -
  have "blocks h p \<in> set (map (Some \<circ> Item) vs)"
    using assms unfolding loaded_def by (metis image_eqI list.set_map)
  then show v: "\<exists>v. blocks h p = Some (Item v)" by auto
  obtain qq bs where "blocks h q = Some (Queue qq)" "blocks h buf = Some (Bytes bs)"
    using assms(1) by (auto simp: loaded_def queue_state_def ring_def load_queue_Some load_bytes_Some)
  then show "p \<noteq> q" "p \<noteq> buf" using v by auto
qed

text \<open>One turn of the first loop on a queue with room, and on a full one.\<close>

lemma alloc_item:
  assumes l: "loaded h q buf ps vs" and ans: "next_answer h \<noteq> Fail" and h2: "h2 = h\<lparr>blocks := (blocks h)(brk h \<mapsto> Item v),
    brk := Suc (brk h), plan := tl (plan h)\<rparr>"
  shows "\<exists>h1. heap_alloc (Item 0) h = (brk h, h1) \<and> heap_store (brk h) (Item v) h1 = Some h2"
    and "brk h \<noteq> NULL" and "queue_state False h2 q buf 4 8 (map encode_ptr ps)"
    and "brk h \<notin> insert q (insert buf (set ps))"
proof -
  have st: "queue_state False h q buf 4 8 (map encode_ptr ps)" using l by (simp add: loaded_def)
  then have ok: "heap_ok h" using queue_state_heap by blast
  show nz: "brk h \<noteq> NULL" using heap_ok_brk_pos [OF ok] by simp
  then show "\<exists>h1. heap_alloc (Item 0) h = (brk h, h1) \<and> heap_store (brk h) (Item v) h1 = Some h2"
    using ans by (simp add: heap_alloc_def heap_store_def h2)
  have "brk h \<notin> dom (blocks h)" using heap_ok_brk [OF ok] by auto
  then show new: "brk h \<notin> insert q (insert buf (set ps))" using l by (auto simp: loaded_def)
  have "heap_ok h2" using ok by (auto simp: heap_ok_def h2 less_Suc_eq)
  then show "queue_state False h2 q buf 4 8 (map encode_ptr ps)"
    using new by (intro queue_state_frame [OF st]) (auto simp: h2)
qed

lemma queue_live: "queue_state l h q buf n s xs \<Longrightarrow> q \<in> dom (blocks h) \<and> buf \<in> dom (blocks h)"
  by (auto simp: queue_state_def ring_def load_queue_Some load_bytes_Some)

text \<open>The objects after a call on the queue.\<close>

lemma loaded_step:
  assumes l: "loaded h q buf ps vs" and st: "queue_state False h' q buf 4 8 (map encode_ptr ps')"
    and sf: "static_of q h' = static_of q h" and d: "distinct ps'" and b: "\<forall>p. p \<noteq> q \<and> p \<noteq> buf \<longrightarrow> blocks h' p = g p"
    and g: "map g ps' = map (Some \<circ> Item) vs'" "\<forall>p. p \<noteq> q \<and> p \<noteq> buf \<longrightarrow> (g p \<noteq> None \<longleftrightarrow> p \<in> set ps')"
    and ps': "\<forall>p \<in> set ps'. p \<noteq> q \<and> p \<noteq> buf \<and> p < 2 ^ 64"
  shows "loaded h' q buf ps' vs'"
proof -
  have "map (blocks h') ps' = map g ps'" using b ps' by simp
  then have "map (blocks h') ps' = map (Some \<circ> Item) vs'" using g(1) by (rule trans)
  moreover have "p \<in> dom (blocks h') \<longleftrightarrow> p \<in> {q, buf} \<union> set ps'" for p
    using queue_live [OF st] b g(2) by (cases "p = q \<or> p = buf") (auto simp: domIff)
  then have "dom (blocks h') = {q, buf} \<union> set ps'" by blast
  moreover have "static_of q h' = Some False" using sf l by (simp add: loaded_def)
  ultimately show ?thesis using st d ps' by (auto simp: loaded_def)
qed

lemma send_turn:
  assumes l: "loaded h q buf ps vs" and room: "length ps < 4" and b: "brk h < 2 ^ 64" and ans: "next_answer h \<noteq> Fail"
  shows "\<exists>h' s. send_loop now q (length ps) out h =
      send_loop now q (Suc (length ps)) (out @ (if length ps = 3 then stat_line 0 0 1 else [])) h' \<and>
    loaded h' q buf (ps @ [s]) (vs @ [int (length ps) + 1]) \<and> brk h' = Suc (brk h) \<and> plan h' = tl (plan h)"
proof -
  let ?v = "int (length ps) + 1"
  define h2 where "h2 = h\<lparr>blocks := (blocks h)(brk h \<mapsto> Item ?v), brk := Suc (brk h), plan := tl (plan h)\<rparr>"
  note a = alloc_item [OF l ans h2_def]
  obtain h1 where h1: "heap_alloc (Item 0) h = (brk h, h1)" "heap_store (brk h) (Item ?v) h1 = Some h2"
    using a(1) by blast
  obtain h3 where h3: "queue_send q (encode_ptr (brk h)) 1000 now [] h2 = Some (0, None, [], h3)"
    "queue_state False h3 q buf 4 8 (map encode_ptr ps @ [encode_ptr (brk h)])" "plan h3 = plan h2"
    "brk h3 = brk h2" "same_except {q, buf} h2 h3"
    using queue_send_alone [OF a(3), of "encode_ptr (brk h)" 1000 now] room by auto
  have st: "queue_state False h q buf 4 8 (map encode_ptr ps)" using l by (simp add: loaded_def)
  have "send_loop now q (length ps) out h =
      send_loop now q (Suc (length ps)) (out @ (if length ps = 3 then stat_line 0 0 1 else [])) h3"
    using q_stat_state [OF st] h1 a(2) h3(1) by (subst send_loop.simps) (auto simp: of_bool_int_def)
  moreover have "loaded h3 q buf (ps @ [brk h]) (vs @ [?v])"
  proof (rule loaded_step [OF l, where g = "(blocks h)(brk h \<mapsto> Item ?v)"])
    show "queue_state False h3 q buf 4 8 (map encode_ptr (ps @ [brk h]))" using h3(2) by simp
    have "static_of q h2 = static_of q h" by (rule static_frame) (use a(4) in \<open>simp add: h2_def\<close>)
    then show "static_of q h3 = static_of q h" using static_send [OF h3(1)] by simp
    show "distinct (ps @ [brk h])" using l a(4) by (simp add: loaded_def)
    show "\<forall>p. p \<noteq> q \<and> p \<noteq> buf \<longrightarrow> blocks h3 p = ((blocks h)(brk h \<mapsto> Item ?v)) p"
      using h3(5) by (simp add: same_except_def h2_def)
    show "map ((blocks h)(brk h \<mapsto> Item ?v)) (ps @ [brk h]) = map (Some \<circ> Item) (vs @ [?v])"
      using l a(4) by (simp add: loaded_def)
    have "p \<in> dom (blocks h) \<longleftrightarrow> p \<in> {q, buf} \<union> set ps" for p using l by (simp add: loaded_def)
    then show "\<forall>p. p \<noteq> q \<and> p \<noteq> buf \<longrightarrow>
        (((blocks h)(brk h \<mapsto> Item ?v)) p \<noteq> None \<longleftrightarrow> p \<in> set (ps @ [brk h]))"
      by (auto simp: domIff)
    show "\<forall>p \<in> set (ps @ [brk h]). p \<noteq> q \<and> p \<noteq> buf \<and> p < 2 ^ 64"
      using l a(4) b loaded_not_queue [OF l] by (auto simp: loaded_def)
  qed
  moreover have "brk h3 = Suc (brk h)" "plan h3 = tl (plan h)" using h3(3,4) by (simp_all add: h2_def)
  ultimately show ?thesis by blast
qed

lemma send_stop:
  assumes l: "loaded h q buf ps vs" and full: "length ps = 4" and ans: "next_answer h \<noteq> Fail"
  shows "\<exists>h'. send_loop now q 4 out h = Some (True, out, h') \<and> loaded h' q buf ps vs"
proof -
  let ?v = "int 4 + 1"
  define h2 where "h2 = h\<lparr>blocks := (blocks h)(brk h \<mapsto> Item ?v), brk := Suc (brk h), plan := tl (plan h)\<rparr>"
  note a = alloc_item [OF l ans h2_def]
  obtain h1 where h1: "heap_alloc (Item 0) h = (brk h, h1)" "heap_store (brk h) (Item ?v) h1 = Some h2"
    using a(1) by blast
  have send: "queue_send q (encode_ptr (brk h)) 1000 now [] h2 = Some (- 1, Some ENOSPC, [], h2)"
    using queue_send_alone [OF a(3), of "encode_ptr (brk h)" 1000 now] full by simp
  have st: "queue_state False h q buf 4 8 (map encode_ptr ps)" using l by (simp add: loaded_def)
  define h3 where "h3 = h2\<lparr>blocks := (blocks h2)(brk h := None)\<rparr>"
  have free: "heap_free (brk h) h2 = Some h3" using a(2) by (simp add: heap_free_def h2_def h3_def)
  have "blocks h (brk h) = None" using heap_ok_brk queue_state_heap [OF st] by blast
  then have same: "blocks h3 = blocks h" by (auto simp: h3_def h2_def)
  have run: "send_loop now q 4 out h = Some (True, out, h3)"
    using h1 a(2) send free by (subst send_loop.simps) simp
  have "heap_ok h3" using queue_state_heap [OF a(3)] by (auto simp: heap_ok_def h3_def)
  then have "queue_state False h3 q buf 4 8 (map encode_ptr ps)"
    using same by (intro queue_state_frame [OF st]) simp_all
  moreover have "static_of q h3 = static_of q h" by (rule static_frame) (simp add: same)
  ultimately have "loaded h3 q buf ps vs"
    using l same by (simp add: loaded_def)
  then show ?thesis using run by blast
qed

lemma recv_turn:
  assumes l: "loaded h q buf (p # ps) (v # vs)"
  shows "\<exists>h'. recv_loop now q out h = recv_loop now q (out @ dec_int v @ '';'' @ newline) h' \<and>
    loaded h' q buf ps vs"
proof -
  have st: "queue_state False h q buf 4 8 (encode_ptr p # map encode_ptr ps)" using l by (simp add: loaded_def)
  then obtain h1 where h1: "queue_recv q 1000 now [] h = Some (0, None, Some (encode_ptr p), [], h1)"
    "queue_state False h1 q buf 4 8 (map encode_ptr ps)" "plan h1 = plan h" "same_except {q, buf} h h1"
    using queue_recv_alone [OF st, of 1000 now] by auto
  have p: "p \<noteq> q" "p \<noteq> buf" "p < 2 ^ 64" "blocks h p = Some (Item v)"
    using l loaded_not_queue(1,2) [OF l] by (auto simp: loaded_def)
  then have p1: "blocks h1 p = Some (Item v)" using h1(4) by (simp add: same_except_def)
  have ok: "heap_ok h1" using queue_state_heap [OF h1(2)] by simp
  have nz: "p \<noteq> NULL" using heap_live_pos [OF ok p1] by simp
  define h2 where "h2 = h1\<lparr>blocks := (blocks h1)(p := None)\<rparr>"
  have "recv_loop now q out h = recv_loop now q (out @ dec_int v @ '';'' @ newline) h2"
    using h1(1) decode_encode [OF p(3)] p1 nz
    by (subst recv_loop.simps) (simp add: item_val_def heap_load_def heap_free_def h2_def)
  moreover have "loaded h2 q buf ps vs"
  proof (rule loaded_step [OF l, where g = "(blocks h)(p := None)"])
    have "heap_ok h2" using ok by (auto simp: heap_ok_def h2_def)
    then show "queue_state False h2 q buf 4 8 (map encode_ptr ps)"
      using p by (intro queue_state_frame [OF h1(2)]) (auto simp: h2_def)
    have "static_of q h2 = static_of q h1" by (rule static_frame) (use p in \<open>simp add: h2_def\<close>)
    then show "static_of q h2 = static_of q h" using static_recv [OF h1(1)] by simp
    show "distinct ps" using l by (simp add: loaded_def)
    show "\<forall>r. r \<noteq> q \<and> r \<noteq> buf \<longrightarrow> blocks h2 r = ((blocks h)(p := None)) r"
      using h1(4) by (simp add: same_except_def h2_def)
    show "map ((blocks h)(p := None)) ps = map (Some \<circ> Item) vs" using l by (simp add: loaded_def)
    have "r \<in> dom (blocks h) \<longleftrightarrow> r \<in> {q, buf} \<union> set (p # ps)" for r using l by (simp add: loaded_def)
    then show "\<forall>r. r \<noteq> q \<and> r \<noteq> buf \<longrightarrow> (((blocks h)(p := None)) r \<noteq> None \<longleftrightarrow> r \<in> set ps)"
      using l by (auto simp: domIff loaded_def)
    show "\<forall>r \<in> set ps. r \<noteq> q \<and> r \<noteq> buf \<and> r < 2 ^ 64"
      using l loaded_not_queue(1,2) [OF l] by (auto simp: loaded_def)
  qed
  ultimately show ?thesis by blast
qed

lemma recv_all:
  "loaded h q buf ps vs \<Longrightarrow> \<exists>h'. recv_loop now q out h =
    Some (out @ concat (map (\<lambda>v. dec_int v @ '';'' @ newline) vs), h') \<and> loaded h' q buf [] []"
proof (induction ps arbitrary: vs out h)
  case Nil
  then have "vs = []" "queue_state False h q buf 4 8 []" by (auto simp: loaded_def)
  then have "recv_loop now q out h = Some (out, h)"
    using queue_recv_alone [of h q buf 4 8 "[]" 1000 now] by (subst recv_loop.simps) simp
  then show ?case using Nil \<open>vs = []\<close> by auto
next
  case (Cons p ps)
  then obtain v vs' where vs: "vs = v # vs'" by (cases vs) (auto simp: loaded_def)
  obtain h1 where h1: "recv_loop now q out h = recv_loop now q (out @ dec_int v @ '';'' @ newline) h1"
    "loaded h1 q buf ps vs'"
    using recv_turn [of h q buf p ps v vs' now out] Cons.prems vs by auto
  show ?case using Cons.IH [OF h1(2), of "out @ dec_int v @ '';'' @ newline"] h1(1) vs by simp
qed

text \<open>A failed allocation ends the first loop and leaves the queue as it is.\<close>

lemma send_out_of_memory:
  assumes l: "loaded h q buf ps vs" and ans: "next_answer h = Fail"
  shows "\<exists>h'. send_loop now q (length ps) out h =
      Some (False, out @ (if length ps = 3 then stat_line 0 0 1 else []), h') \<and> loaded h' q buf ps vs"
proof -
  let ?h = "h\<lparr>plan := tl (plan h)\<rparr>"
  have st: "queue_state False h q buf 4 8 (map encode_ptr ps)" using l by (simp add: loaded_def)
  have "heap_alloc (Item 0) h = (NULL, ?h)" using ans by (simp add: heap_alloc_def)
  then have "send_loop now q (length ps) out h =
      Some (False, out @ (if length ps = 3 then stat_line 0 0 1 else []), ?h)"
    using q_stat_state [OF st] by (subst send_loop.simps) (auto simp: of_bool_int_def)
  moreover have "heap_ok ?h" using queue_state_heap [OF st] by (simp add: heap_ok_def)
  then have "queue_state False ?h q buf 4 8 (map encode_ptr ps)"
    by (intro queue_state_frame [OF st]) simp_all
  moreover have "static_of q ?h = static_of q h" by (rule static_frame) simp
  ultimately show ?thesis using l by (auto simp: loaded_def)
qed

text \<open>The first loop to its end, \<open>i\<close> objects being in the queue: through \<open>send_done\<close> with four objects, or through
  \<open>err_clear\<close> with as many as could be allocated.\<close>

definition granted :: "answer list \<Rightarrow> nat" where
  "granted pl = length (takeWhile (\<lambda>a. a \<noteq> Fail) pl)"

lemma granted_simps [simp]: "granted (Fail # pl) = 0" "a \<noteq> Fail \<Longrightarrow> granted (a # pl) = Suc (granted pl)"
  by (simp_all add: granted_def)

lemma next_granted: "next_answer h \<noteq> Fail \<Longrightarrow> 0 < n \<Longrightarrow>
    (Fail \<in> set (take n (plan h)) \<longleftrightarrow> Fail \<in> set (take (n - 1) (tl (plan h)))) \<and>
    (Fail \<in> set (plan h) \<longrightarrow> granted (plan h) = Suc (granted (tl (plan h))))"
  by (cases "plan h"; cases n) (auto simp: next_answer_def)

definition send_ends :: "timespec \<Rightarrow> ptr \<Rightarrow> ptr \<Rightarrow> nat \<Rightarrow> string \<Rightarrow> int qheap \<Rightarrow> int list \<Rightarrow> bool" where
  "send_ends now q buf i out h vs \<longleftrightarrow> (\<exists>h' ps'.
     send_loop now q i out h = Some (Fail \<notin> set (take (5 - i) (plan h)),
       out @ (if i \<le> 3 \<and> 3 \<le> length ps' then stat_line 0 0 1 else []), h') \<and>
     loaded h' q buf ps' (vs @ map (\<lambda>j. int j + 1) [i..<length ps']) \<and>
     length ps' = (if Fail \<in> set (take (5 - i) (plan h)) then i + granted (plan h) else 4))"

lemma send_ends_fail:
  assumes l: "loaded h q buf ps vs" and i: "length ps = i" "i \<le> 4" and ans: "next_answer h = Fail"
  shows "send_ends now q buf i out h vs"
proof -
  obtain pl where "plan h = Fail # pl" using ans by (cases "plan h") (auto simp: next_answer_def)
  then show ?thesis
    using send_out_of_memory [OF l ans, of now out] i
    by (auto simp: send_ends_def take_Cons' intro!: exI [of _ ps])
qed

lemma send_ends_step:
  assumes run: "send_loop now q i out h = send_loop now q (Suc i) (out @ (if i = 3 then stat_line 0 0 1 else [])) h1"
    and pl: "plan h1 = tl (plan h)" "next_answer h \<noteq> Fail" and i: "i < 4"
    and later: "send_ends now q buf (Suc i) (out @ (if i = 3 then stat_line 0 0 1 else [])) h1 (vs @ [int i + 1])"
  shows "send_ends now q buf i out h vs"
proof -
  have next': "Fail \<in> set (take (5 - i) (plan h)) \<longleftrightarrow> Fail \<in> set (take (5 - Suc i) (plan h1))"
    "Fail \<in> set (plan h) \<longrightarrow> granted (plan h) = Suc (granted (plan h1))"
    using next_granted [OF pl(2), of "5 - i"] i by (simp_all add: pl(1))
  obtain h' ps' where r: "send_loop now q (Suc i) (out @ (if i = 3 then stat_line 0 0 1 else [])) h1 =
      Some (Fail \<notin> set (take (5 - Suc i) (plan h1)), (out @ (if i = 3 then stat_line 0 0 1 else [])) @
        (if Suc i \<le> 3 \<and> 3 \<le> length ps' then stat_line 0 0 1 else []), h')"
    "loaded h' q buf ps' ((vs @ [int i + 1]) @ map (\<lambda>j. int j + 1) [Suc i..<length ps'])"
    "length ps' = (if Fail \<in> set (take (5 - Suc i) (plan h1)) then Suc i + granted (plan h1) else 4)"
    using later unfolding send_ends_def by (elim exE conjE)
  have len: "Suc i \<le> length ps'" using r(3) i by simp
  then have "[i..<length ps'] = i # [Suc i..<length ps']" by (simp add: upt_conv_Cons)
  moreover have "length ps' = (if Fail \<in> set (take (5 - i) (plan h)) then i + granted (plan h) else 4)"
    using r(3) next' by (auto dest: in_set_takeD)
  ultimately show ?thesis
    using run r(1,2) next'(1) len i unfolding send_ends_def by (intro exI [of _ h'] exI [of _ ps']) auto
qed

lemma send_loop_ends:
  "\<lbrakk>loaded h q buf ps vs; length ps = i; i \<le> 4; brk h + (4 - i) \<le> 2 ^ 64\<rbrakk> \<Longrightarrow> send_ends now q buf i out h vs"
proof (induction "4 - i" arbitrary: i h ps vs out)
  case 0
  show ?case
  proof (cases "next_answer h = Fail")
    case False
    then have "Fail \<notin> set (take 1 (plan h))" by (cases "plan h") (auto simp: next_answer_def)
    then show ?thesis
      using send_stop [OF "0.prems"(1) _ False, of now out] 0 by (auto simp: send_ends_def intro!: exI [of _ ps])
  qed (use 0 send_ends_fail in auto)
next
  case (Suc n)
  show ?case
  proof (cases "next_answer h = Fail")
    case False
    have room: "length ps < 4" "brk h < 2 ^ 64" using Suc.hyps(2) Suc.prems(2,4) by simp_all
    obtain h1 s1 where h1: "send_loop now q i out h =
        send_loop now q (Suc i) (out @ (if i = 3 then stat_line 0 0 1 else [])) h1"
      "loaded h1 q buf (ps @ [s1]) (vs @ [int i + 1])" "brk h1 = Suc (brk h)" "plan h1 = tl (plan h)"
      using send_turn [OF Suc.prems(1) room False, of now out] Suc.prems(2) by auto
    show ?thesis
      by (rule send_ends_step [OF h1(1,4) False], use Suc.hyps(2) in simp, rule Suc.hyps(1) [OF _ h1(2)])
        (use Suc.hyps(2) Suc.prems(2-4) h1(3) in auto)
  qed (use Suc.prems send_ends_fail in auto)
qed

lemma create_loaded:
  assumes "Fail \<notin> set (take 2 pl)"
  shows "\<exists>h. queue_create Q_CNT 8 (heap_empty pl) = Some (2, None, h) \<and> loaded h 2 1 [] [] \<and> brk h = 3 \<and>
    plan h = drop 2 pl"
proof -
  let ?h0 = "heap_empty pl :: int qheap"
  have this0: "Fail \<notin> set (take 2 (plan ?h0))" using assms by simp
  obtain h0 where c: "queue_create Q_CNT 8 ?h0 = Some (2, None, h0)"
    "queue_state False h0 2 1 4 8 []" "plan h0 = tl (tl pl)" "brk h0 = 3" "same_except {2, 1} ?h0 h0"
    "static_of 2 h0 = Some False"
  proof -
    have b: "Suc (brk ?h0) = 2" "brk ?h0 = 1" "Suc 2 = 3" by simp_all
    have "unat Q_CNT * unat (8 :: size_t) < 2 ^ 32" "Q_CNT \<noteq> 0" "(8 :: size_t) \<noteq> 0"
      "unat Q_CNT = 4" "unat (8 :: size_t) = 8"
      by (simp_all add: Q_CNT_def)
    from queue_create_ok [OF heap_ok_empty this(1-3) this0, unfolded this(4,5), unfolded b(1),
        unfolded b(2,3)]
    show ?thesis unfolding static_of_def [symmetric] heap_empty_simps
      by (elim exE conjE) (rule that)
  qed
  have "dom (blocks h0) = {2, 1}"
    using queue_live [OF c(2)] c(5) by (auto simp: same_except_def domIff)
  then have "loaded h0 2 1 [] []" using c(2,6) by (auto simp: loaded_def)
  moreover have "plan h0 = drop 2 pl" using c(3) by (simp add: numeral_2_eq_2 drop_Suc)
  ultimately show ?thesis using c(1,4) by blast
qed

lemma q_stat_loaded:
  assumes "loaded h q buf ps vs"
  shows "q_stat q h =
    Some (stat_line (of_bool_int (ps = [])) (of_bool_int (length ps = 4)) (4 - int (length ps)), h)"
  using q_stat_state [of h q buf "map encode_ptr ps"] assms by (simp add: loaded_def)

text \<open>The objects that are still in the queue are not freed with it.\<close>

lemma destroy_loaded:
  assumes l: "loaded h q buf ps vs"
  shows "\<exists>h'. queue_destroy q h = Some h' \<and> dom (blocks h') = set ps"
proof -
  have st: "queue_state False h q buf 4 8 (map encode_ptr ps)" using l by (simp add: loaded_def)
  have "q_static qq = False" if "load_queue q h = Some qq" for qq
    using l that by (simp add: loaded_def static_of_def)
  then obtain h' where h': "queue_destroy q h = Some h'"
    "blocks h' = (\<lambda>p. if p = q \<or> p = buf then None else blocks h p)"
    using queue_destroy_state [OF st] by auto
  have "dom (blocks h') = dom (blocks h) - {q, buf}" by (auto simp: h'(2) split: if_splits)
  also have "\<dots> = set ps" using l loaded_not_queue(1,2) [OF l] by (auto simp: loaded_def)
  finally show ?thesis using h'(1) by blast
qed

text \<open>The text of a whole run.\<close>

definition whole_output :: string where
  "whole_output = stat_line 1 0 4 @ stat_line 0 0 1 @ stat_line 0 1 0 @
    concat (map (\<lambda>v. dec_int v @ '';'' @ newline) [1, 2, 3, 4]) @ stat_line 1 0 4"

lemma queue_main_granted:
  assumes "Fail \<notin> set (take 7 pl)"
  shows "\<exists>h. blocks h = Map.empty \<and> queue_main now pl = Some (0, whole_output, h)"
proof -
  let ?o = "stat_line 1 0 4"
  have pl: "Fail \<notin> set (take 2 pl)" "Fail \<notin> set (take 5 (drop 2 pl))"
    using assms take_add [of 2 5 pl] by auto
  obtain h0 where h0: "queue_create Q_CNT 8 (heap_empty pl) = Some (2, None, h0)" "loaded h0 2 1 [] []" "brk h0 = 3"
    "plan h0 = drop 2 pl"
    using create_loaded [OF pl(1)] by blast
  have "[0..<4] = [0, 1, 2, 3 :: nat]" by (simp add: upt_rec)
  then obtain h1 ps where h1: "send_loop now 2 0 ?o h0 = Some (True, ?o @ stat_line 0 0 1, h1)"
    "loaded h1 2 1 ps [1, 2, 3, 4]" "length ps = 4"
    using send_loop_ends [OF h0(2), of 0 now ?o] h0(3,4) pl(2) by (auto simp: send_ends_def)
  obtain h2 where h2: "recv_loop now 2 ((?o @ stat_line 0 0 1) @ stat_line 0 1 0) h1 =
      Some (((?o @ stat_line 0 0 1) @ stat_line 0 1 0) @
        concat (map (\<lambda>v. dec_int v @ '';'' @ newline) [1, 2, 3, 4]), h2)" "loaded h2 2 1 [] []"
    using recv_all [OF h1(2), of now "(?o @ stat_line 0 0 1) @ stat_line 0 1 0"] by (elim exE conjE)
  have ne: "ps \<noteq> []" using h1(3) by auto
  have stats: "q_stat 2 h0 = Some (?o, h0)" "q_stat 2 h1 = Some (stat_line 0 1 0, h1)" "q_stat 2 h2 = Some (?o, h2)"
    using q_stat_loaded [OF h0(2)] q_stat_loaded [OF h1(2)] q_stat_loaded [OF h2(2)] h1(3) ne
    by (simp_all add: of_bool_int_def)
  obtain h3 where h3: "queue_destroy 2 h2 = Some h3" "blocks h3 = Map.empty"
    using destroy_loaded [OF h2(2)] by auto
  have "queue_main now pl = Some (0, whole_output, h3)"
    using h0(1) stats h1(1) h2(1) h3(1) unfolding queue_main_def whole_output_def by (simp del: concat.simps list.map)
  then show ?thesis using h3(2) by blast
qed

text \<open>When the allocation of an object fails the program destroys a queue that still holds the others.\<close>

lemma queue_main_interrupted:
  assumes "Fail \<notin> set (take 2 pl)" and "Fail \<in> set (take 7 pl)"
  shows "\<exists>h. queue_main now pl =
      Some (0, stat_line 1 0 4 @ (if 5 \<le> granted pl then stat_line 0 0 1 else []), h) \<and>
    finite (dom (blocks h)) \<and> card (dom (blocks h)) + 2 = granted pl"
proof -
  let ?o = "stat_line 1 0 4"
  obtain h0 where h0: "queue_create Q_CNT 8 (heap_empty pl) = Some (2, None, h0)" "loaded h0 2 1 [] []" "brk h0 = 3"
    "plan h0 = drop 2 pl"
    using create_loaded [OF assms(1)] by blast
  have pl: "Fail \<in> set (take 5 (drop 2 pl))" using assms take_add [of 2 5 pl] by auto
  obtain a b rest where "pl = a # b # rest"
    using assms by (cases pl; cases "tl pl") auto
  then have g: "granted pl = 2 + granted (drop 2 pl)" using assms(1) by (auto simp: granted_def)
  obtain h1 ps vs where h1: "send_loop now 2 0 ?o h0 =
      Some (False, ?o @ (if 3 \<le> length ps then stat_line 0 0 1 else []), h1)"
    "loaded h1 2 1 ps vs" "length ps = granted (drop 2 pl)"
    using send_loop_ends [OF h0(2), of 0 now ?o] h0(3,4) pl by (auto simp: send_ends_def)
  have "q_stat 2 h0 = Some (?o, h0)" using q_stat_loaded [OF h0(2)] by (simp add: of_bool_int_def)
  moreover obtain h2 where h2: "queue_destroy 2 h1 = Some h2" "dom (blocks h2) = set ps"
    using destroy_loaded [OF h1(2)] by blast
  ultimately have "queue_main now pl = Some (0, ?o @ (if 3 \<le> length ps then stat_line 0 0 1 else []), h2)"
    using h0(1) h1(1) by (simp add: queue_main_def)
  moreover have "card (set ps) = length ps" using h1(2) by (simp add: loaded_def distinct_card)
  ultimately show ?thesis using h2(2) h1(3) g by (intro exI [of _ h2]) auto
qed

text \<open>C19: the program of \<open>examples/queue\<close>, for every behaviour of the allocator: it is memory safe and ends. When its
  seven allocations succeed it prints the four values in the order they were sent between the right state lines, and
  frees all it allocated; without a queue it ends with -1. When the allocation of an object fails, it ends with 0 and
  has leaked the objects it had sent: as many as were granted after the two blocks of the queue.
\<close>

theorem queue_main_any_allocator:
  "\<exists>h. finite (dom (blocks h)) \<and> queue_main now pl =
      (if Fail \<in> set (take 2 pl) then Some (- 1, [], h)
       else if Fail \<in> set (take 7 pl) then Some (0, stat_line 1 0 4 @ (if 5 \<le> granted pl then stat_line 0 0 1 else []), h)
       else Some (0, whole_output, h)) \<and>
    card (dom (blocks h)) = (if Fail \<in> set (take 7 pl) then granted pl - 2 else 0)"
proof (cases "Fail \<in> set (take 2 pl)")
  case True
  let ?h0 = "heap_empty pl :: int qheap"
  have "unat Q_CNT * unat (8 :: size_t) < 2 ^ 32" "Q_CNT \<noteq> 0" by (simp_all add: Q_CNT_def)
  then obtain h where h: "queue_create Q_CNT 8 ?h0 = Some (NULL, Some ENOMEM, h)" "blocks h = blocks ?h0"
    using queue_create_branches [OF heap_ok_empty, of Q_CNT 8 pl] True by auto
  have "granted pl < 2" using True by (cases pl; cases "tl pl") (auto simp: granted_def)
  moreover have "Fail \<in> set (take 7 pl)" using True set_take_subset_set_take [of 2 7 pl] by auto
  ultimately show ?thesis using h True by (intro exI [of _ h]) (simp add: queue_main_def)
next
  case False
  show ?thesis
  proof (cases "Fail \<in> set (take 7 pl)")
    case True
    obtain h where "queue_main now pl =
        Some (0, stat_line 1 0 4 @ (if 5 \<le> granted pl then stat_line 0 0 1 else []), h)"
      "finite (dom (blocks h))" "card (dom (blocks h)) + 2 = granted pl"
      using queue_main_interrupted [OF False True] by blast
    then show ?thesis using False True by (intro exI [of _ h]) simp
  next
    case False': False
    obtain h where "blocks h = Map.empty" "queue_main now pl = Some (0, whole_output, h)"
      using queue_main_granted [OF False'] by blast
    then show ?thesis using False False' by (intro exI [of _ h]) simp
  qed
qed

text \<open>When memory suffices.\<close>

theorem queue_main_output:
  assumes "Fail \<notin> set pl"
  shows "\<exists>h. blocks h = Map.empty \<and> queue_main now pl = Some (0,
    stat_line 1 0 4 @ stat_line 0 0 1 @ stat_line 0 1 0 @
    concat (map (\<lambda>v. dec_int v @ '';'' @ newline) [1, 2, 3, 4]) @ stat_line 1 0 4, h)"
  using queue_main_granted [of pl now] assms in_set_takeD unfolding whole_output_def by fast

theorem queue_main_output_witness:
  "\<exists>h. blocks h = Map.empty \<and> queue_main \<lparr>tv_sec = 0, tv_nsec = 0\<rparr> [InPlace] = Some (0,
    stat_line 1 0 4 @ stat_line 0 0 1 @ stat_line 0 1 0 @
    concat (map (\<lambda>v. dec_int v @ '';'' @ newline) [1, 2, 3, 4]) @ stat_line 1 0 4, h)"
  by (rule queue_main_output) simp

end
