(* ===== verification/Queue_Threads.thy ===== *)
theory Queue_Threads
  imports Queue_Example "HOL-Library.Multiset"
begin

text \<open>
  \<open>examples/queue_multithreaded/main.c\<close>: \<open>main\<close> fills a queue over a static buffer, starts two readers and sends
  on. A run is described by a schedule, a list of threads each of which takes its next step. A step is one call: an
  allocation, a call on the queue, a line printed, a \<open>free\<close>; so other threads may step in between any two of them.
  A call on the queue is one step, whatever other threads do while it waits, because it acts after what they did
  (\<open>queue_send_atomic\<close>, \<open>queue_recv_atomic\<close>): a schedule lets them take their steps before.
\<close>

subsection \<open>The program\<close>

record elemen =
  e_idx :: int
  e_val :: u64
  e_p :: ptr

definition ELEMENT_COUNT :: nat where "ELEMENT_COUNT = 1024"
definition THREADS_COUNT :: nat where "THREADS_COUNT = 2"

text \<open>The lines the program prints.\<close>

datatype line = Push_failed nat | Start u64 | Got u64 int | Nothing u64 | Waiting | Cleanup int | Cancel nat

fun line_text :: "line \<Rightarrow> string" where
  "line_text (Push_failed i) = ''failed to push '' @ dec_nat i @ newline"
| "line_text (Start tid) = ''start thread '' @ dec_nat (unat tid) @ newline"
| "line_text (Got tid i) = ''thread '' @ dec_int (sint tid) @ '' got '' @ dec_int i @ newline"
| "line_text (Nothing tid) = ''thread '' @ dec_int (sint tid) @ '' got nothing'' @ newline"
| "line_text Waiting = ''wait for q-empty'' @ newline"
| "line_text (Cleanup n) = ''cleanup ('' @ dec_int n @ '')'' @ newline"
| "line_text (Cancel i) = ''cancel('' @ dec_nat i @ '')'' @ newline"

text \<open>
  Where \<open>main\<close> is. In a turn of the two loops that send it is before the test, has made the element, or has failed to
  send it and will say so.
\<close>

datatype phase = Test | Made ptr | Unsent

datatype place = Fill nat phase | Spawn nat | Push nat phase | Empty_wait | Wait_note | Cleaning | Clean_note int
  | Canceling nat | Joining nat | Returned int

text \<open>Where a reader is: it has been created, is about to receive, got nothing, or has received an element, and
  printed it.\<close>

datatype life = Created | Receiving | Empty_handed | Received ptr | Printed ptr | Cancelled

datatype thread = Main | Reader nat

text \<open>
  The state of the process: \<open>readers\<close> with their thread identifiers, the lines printed, with the thread that
  printed each. The last three fields are a history the program does not have: the indices of the elements that
  \<open>queue_send\<close> took and refused, and what every successful \<open>queue_recv\<close> gave: the reader and the \<open>idx\<close> of the element.
\<close>

record process =
  memory :: "elemen qheap"
  place :: place
  readers :: "(u64 \<times> life) list"
  printed :: "(thread \<times> line) list"
  was_sent :: "int list"
  was_refused :: "int list"
  was_taken :: "(nat \<times> int option) list"

text \<open>A new element; the allocation cannot be seen to fail, since its result is used at once.\<close>

definition make_element :: "ptr \<Rightarrow> nat \<Rightarrow> elemen qheap \<Rightarrow> (ptr \<times> elemen qheap) option" where
  "make_element q i h =
     (case heap_alloc (Item \<lparr>e_idx = 0, e_val = 0, e_p = NULL\<rparr>) h of (e, h) \<Rightarrow> do {
        h \<leftarrow> heap_store e (Item \<lparr>e_idx = int i, e_val = 0, e_p = q\<rparr>) h;
        Some (e, h) })"

text \<open>A step in the body of the two loops that send.\<close>

definition push_step :: "timespec \<Rightarrow> ptr \<Rightarrow> nat \<Rightarrow> phase \<Rightarrow> process \<Rightarrow> (nat \<times> phase \<times> process) option" where
  "push_step now q i ph st =
     (case ph of
        Test \<Rightarrow> do {
          (e, h) \<leftarrow> make_element q i (memory st);
          Some (i, Made e, st\<lparr>memory := h\<rparr>) }
      | Made e \<Rightarrow> do {
          (ret, _, _, h) \<leftarrow> queue_send q (encode_ptr e) 1000 now [] (memory st);
          Some (if ret < 0 then (i, Unsent, st\<lparr>memory := h, was_refused := was_refused st @ [int i]\<rparr>)
                else (Suc i, Test, st\<lparr>memory := h, was_sent := was_sent st @ [int i]\<rparr>)) }
      | Unsent \<Rightarrow> Some (Suc i, Test, st\<lparr>printed := printed st @ [(Main, Push_failed i)]\<rparr>))"

text \<open>\<open>tids\<close> are the answers of \<open>pthread_create\<close>. \<open>pthread_join\<close> returns when the reader has been cancelled.\<close>

fun main_step :: "timespec \<Rightarrow> u64 option list \<Rightarrow> ptr \<Rightarrow> place \<Rightarrow> process \<Rightarrow> process option" where
  "main_step now tids q (Fill i ph) st =
     (if ph = Test \<and> \<not> i < ELEMENT_COUNT then Some (st\<lparr>place := Spawn 0\<rparr>)
      else do {
        (i, ph, st) \<leftarrow> push_step now q i ph st;
        Some (st\<lparr>place := Fill i ph\<rparr>) })"
| "main_step now tids q (Spawn i) st =
     (if i < THREADS_COUNT then
        (if i < length tids \<and> tids ! i \<noteq> None
         then Some (st\<lparr>readers := readers st @ [(the (tids ! i), Created)], place := Spawn (Suc i)\<rparr>)
         else Some (st\<lparr>place := Returned (- 1)\<rparr>))
      else Some (st\<lparr>place := Push ELEMENT_COUNT Test\<rparr>))"
| "main_step now tids q (Push i ph) st =
     (if ph = Test \<and> \<not> i < ELEMENT_COUNT * 2 then Some (st\<lparr>place := Empty_wait\<rparr>)
      else do {
        (i, ph, st) \<leftarrow> push_step now q i ph st;
        Some (st\<lparr>place := Push i ph\<rparr>) })"
| "main_step now tids q Empty_wait st = do {
     (ret, _, _, h) \<leftarrow> queue_empty_wait q 1000 now [] (memory st);
     Some (st\<lparr>memory := h, place := if ret \<noteq> 0 then Wait_note else Cleaning\<rparr>) }"
| "main_step now tids q Wait_note st = Some (st\<lparr>printed := printed st @ [(Main, Waiting)], place := Empty_wait\<rparr>)"
| "main_step now tids q Cleaning st = do {
     (n, _, h) \<leftarrow> queue_space_available q (memory st);
     Some (st\<lparr>memory := h, place := Clean_note n\<rparr>) }"
| "main_step now tids q (Clean_note n) st =
     Some (st\<lparr>printed := printed st @ [(Main, Cleanup n)], place := Canceling 0\<rparr>)"
| "main_step now tids q (Canceling i) st =
     (if i < THREADS_COUNT then Some (st\<lparr>printed := printed st @ [(Main, Cancel i)], place := Joining i\<rparr>)
      else Some (st\<lparr>place := Returned 0\<rparr>))"
| "main_step now tids q (Joining i) st =
     Some (st\<lparr>readers := (readers st)[i := (fst (readers st ! i), Cancelled)], place := Canceling (Suc i)\<rparr>)"
| "main_step now tids q (Returned r) st = Some st"

fun returned :: "place \<Rightarrow> bool" where
  "returned (Returned r) = True"
| "returned _ = False"

definition element_idx :: "ptr \<Rightarrow> elemen qheap \<Rightarrow> int option" where
  "element_idx e h = (case heap_load e h of Some (Item x) \<Rightarrow> Some (e_idx x) | _ \<Rightarrow> None)"

text \<open>
  A reader prints that it starts, then reads again and again; when \<open>main\<close> returns the process ends. Printing the
  element reads its \<open>idx\<close>, which is undefined when the element is not there any more. \<open>usleep\<close> only lets time pass.
\<close>

definition reader_turn :: "timespec \<Rightarrow> ptr \<Rightarrow> nat \<Rightarrow> u64 \<Rightarrow> life \<Rightarrow> process \<Rightarrow> (life \<times> process) option" where
  "reader_turn now q k tid l st =
     (case l of
        Created \<Rightarrow> Some (Receiving, st\<lparr>printed := printed st @ [(Reader k, Start tid)]\<rparr>)
      | Receiving \<Rightarrow> do {
          (ret, _, msg, _, h) \<leftarrow> queue_recv q 100 now [] (memory st);
          if ret = 0
          then do {
            e \<leftarrow> map_option decode_ptr msg;
            Some (Received e, st\<lparr>memory := h, was_taken := was_taken st @ [(k, element_idx e h)]\<rparr>) }
          else Some (Empty_handed, st\<lparr>memory := h\<rparr>) }
      | Empty_handed \<Rightarrow> Some (Receiving, st\<lparr>printed := printed st @ [(Reader k, Nothing tid)]\<rparr>)
      | Received e \<Rightarrow> do {
          i \<leftarrow> element_idx e (memory st);
          Some (Printed e, st\<lparr>printed := printed st @ [(Reader k, Got tid i)]\<rparr>) }
      | Printed e \<Rightarrow> do {
          h \<leftarrow> heap_free e (memory st);
          Some (Receiving, st\<lparr>memory := h\<rparr>) }
      | Cancelled \<Rightarrow> Some (Cancelled, st))"

definition reader_step :: "timespec \<Rightarrow> ptr \<Rightarrow> nat \<Rightarrow> process \<Rightarrow> process option" where
  "reader_step now q k st =
     (if returned (place st) \<or> length (readers st) \<le> k then Some st
      else case readers st ! k of (tid, l) \<Rightarrow> do {
        (l, st) \<leftarrow> reader_turn now q k tid l st;
        Some (st\<lparr>readers := (readers st)[k := (tid, l)]\<rparr>) })"

definition thread_step :: "timespec \<Rightarrow> u64 option list \<Rightarrow> ptr \<Rightarrow> thread \<Rightarrow> process \<Rightarrow> process option" where
  "thread_step now tids q t st =
     (case t of Main \<Rightarrow> main_step now tids q (place st) st | Reader k \<Rightarrow> reader_step now q k st)"

fun schedule :: "timespec \<Rightarrow> u64 option list \<Rightarrow> ptr \<Rightarrow> thread list \<Rightarrow> process \<Rightarrow> process option" where
  "schedule now tids q [] st = Some st"
| "schedule now tids q (t # ts) st = Option.bind (thread_step now tids q t st) (schedule now tids q ts)"

text \<open>\<open>main\<close>: the static array \<open>elements\<close> of 1024 pointers is the first block of the heap.\<close>

definition start_heap :: "answer list \<Rightarrow> elemen qheap" where
  "start_heap pl = \<lparr>blocks = [1 \<mapsto> Bytes (replicate (ELEMENT_COUNT * 8) 0)], brk = 2, plan = pl\<rparr>"

definition start :: "elemen qheap \<Rightarrow> process" where
  "start h = \<lparr>memory = h, place = Fill 0 Test, readers = [], printed = [], was_sent = [], was_refused = [], was_taken = []\<rparr>"

definition threads_main :: "timespec \<Rightarrow> u64 option list \<Rightarrow> answer list \<Rightarrow> thread list \<Rightarrow> process option" where
  "threads_main now tids pl ts = do {
     (q, _, h) \<leftarrow> queue_create_static 1 (of_nat (ELEMENT_COUNT * 8)) (of_nat ELEMENT_COUNT) 8 (start_heap pl);
     schedule now tids q ts (start h) }"

subsection \<open>The queue and its elements\<close>

text \<open>
  The queue holds the elements \<open>ps\<close> with the indices \<open>vs\<close>; \<open>ls\<close> are the elements outside the queue. Nothing else is
  allocated.
\<close>

definition elements_in :: "elemen qheap \<Rightarrow> ptr \<Rightarrow> ptr \<Rightarrow> ptr list \<Rightarrow> ptr list \<Rightarrow> int list \<Rightarrow> bool" where
  "elements_in h q buf ps ls vs \<longleftrightarrow> no_oom h \<and> queue_state False h q buf 1024 8 (map encode_ptr ps) \<and>
     distinct (q # buf # ps @ ls) \<and> dom (blocks h) = set (q # buf # ps @ ls) \<and> (\<forall>p \<in> set ps. p < 2 ^ 64) \<and>
     list_all2 (\<lambda>p v. element_idx p h = Some v) ps vs"

lemma element_idx_same: "blocks h' p = blocks h p \<Longrightarrow> element_idx p h' = element_idx p h"
  by (simp add: element_idx_def heap_load_def)

lemma elements_in_length: "elements_in h q buf ps ls vs \<Longrightarrow> length ps = length vs"
  by (auto simp: elements_in_def dest: list_all2_lengthD)

lemma elements_in_perm: "elements_in h q buf ps ls vs \<Longrightarrow> mset ls' = mset ls \<Longrightarrow> elements_in h q buf ps ls' vs"
  by (auto simp: elements_in_def dest: mset_eq_setD mset_eq_imp_distinct_iff)

lemma elements_in_room: "elements_in h q buf ps ls vs \<Longrightarrow> length ps \<le> 1024"
  by (auto simp: elements_in_def dest: queue_state_bound)

lemma elements_in_card:
  "elements_in h q buf ps ls vs \<Longrightarrow> card (dom (blocks h)) = 2 + length vs + length ls"
  using distinct_card [of "q # buf # ps @ ls"] elements_in_length [of h q buf ps ls vs] by (simp add: elements_in_def)

lemma elements_in_step:
  assumes "queue_state False h' q buf 1024 8 (map encode_ptr ps)" and "no_oom h'"
    and "distinct (q # buf # ps @ ls)" and "\<forall>r. r \<noteq> q \<and> r \<noteq> buf \<longrightarrow> blocks h' r = g r"
    and "\<forall>r. r \<noteq> q \<and> r \<noteq> buf \<longrightarrow> (g r \<noteq> None \<longleftrightarrow> r \<in> set (ps @ ls))" and "\<forall>p \<in> set ps. p < 2 ^ 64"
    and "list_all2 (\<lambda>p v. element_idx p h' = Some v) ps vs"
  shows "elements_in h' q buf ps ls vs"
proof -
  have "r \<in> dom (blocks h') \<longleftrightarrow> r \<in> set (q # buf # ps @ ls)" for r
    using queue_live [OF assms(1)] assms(4,5) by (cases "r = q \<or> r = buf") (auto simp: domIff)
  then have "dom (blocks h') = set (q # buf # ps @ ls)" by blast
  then show ?thesis using assms by (simp add: elements_in_def)
qed

text \<open>The elements outside the queue that an operation does not touch keep their indices.\<close>

definition keeps_idx :: "ptr set \<Rightarrow> elemen qheap \<Rightarrow> elemen qheap \<Rightarrow> bool" where
  "keeps_idx A h h' \<longleftrightarrow> (\<forall>p \<in> A. element_idx p h' = element_idx p h)"

lemma keeps_idx_refl [simp]: "keeps_idx A h h"
  by (simp add: keeps_idx_def)

lemma keeps_idxD: "keeps_idx A h h' \<Longrightarrow> p \<in> A \<Longrightarrow> element_idx p h' = element_idx p h"
  by (simp add: keeps_idx_def)

lemma keeps_same: "same_except {q, buf} h h' \<Longrightarrow> q \<notin> A \<Longrightarrow> buf \<notin> A \<Longrightarrow> keeps_idx A h h'"
  unfolding keeps_idx_def by (auto simp: same_except_def intro!: element_idx_same)

lemma keeps_list: "keeps_idx (set ps) h h' \<Longrightarrow> list_all2 (\<lambda>p v. element_idx p h = Some v) ps vs \<Longrightarrow>
    list_all2 (\<lambda>p v. element_idx p h' = Some v) ps vs"
  by (auto simp: keeps_idx_def list_all2_conv_all_nth)

lemma make_turn:
  fixes i :: nat
  assumes l: "elements_in h q buf ps ls vs"
  shows "\<exists>h'. make_element q i h = Some (brk h, h') \<and> brk h' = Suc (brk h) \<and>
    elements_in h' q buf ps (brk h # ls) vs \<and> element_idx (brk h) h' = Some (int i) \<and> keeps_idx (set ls) h h'"
proof -
  let ?e = "Item \<lparr>e_idx = int i, e_val = 0, e_p = q\<rparr>"
  define h' where "h' = h\<lparr>blocks := (blocks h)(brk h \<mapsto> ?e), brk := Suc (brk h), plan := tl (plan h)\<rparr>"
  have st: "queue_state False h q buf 1024 8 (map encode_ptr ps)" and oom: "no_oom h"
    and d: "distinct (q # buf # ps @ ls)" and dm: "dom (blocks h) = set (q # buf # ps @ ls)"
    using l by (simp_all add: elements_in_def)
  have ok: "heap_ok h" using queue_state_heap [OF st] by blast
  have nz: "brk h \<noteq> NULL" using heap_ok_brk_pos [OF ok] by simp
  have made: "make_element q i h = Some (brk h, h')"
    using oom nz by (simp add: make_element_def heap_alloc_Fresh heap_store_def h'_def)
  have "brk h \<notin> dom (blocks h)" using heap_ok_brk [OF ok] by auto
  then have new: "brk h \<notin> set (q # buf # ps @ ls)" using dm by simp
  have same: "element_idx p h' = element_idx p h" if "p \<noteq> brk h" for p
    using that by (intro element_idx_same) (simp add: h'_def)
  have "elements_in h' q buf ps (brk h # ls) vs"
  proof (rule elements_in_step [where g = "blocks h'"])
    have "heap_ok h'" using ok by (auto simp: heap_ok_def h'_def less_Suc_eq)
    then show "queue_state False h' q buf 1024 8 (map encode_ptr ps)"
      using new by (intro queue_state_frame [OF st]) (auto simp: h'_def)
    show "no_oom h'" using no_oom_tl [OF oom] by (simp add: no_oom_def h'_def)
    show "distinct (q # buf # ps @ brk h # ls)" using d new by auto
    have "blocks h r \<noteq> None \<longleftrightarrow> r \<in> set (q # buf # ps @ ls)" for r using dm by (auto simp: domIff)
    then show "\<forall>r. r \<noteq> q \<and> r \<noteq> buf \<longrightarrow> (blocks h' r \<noteq> None \<longleftrightarrow> r \<in> set (ps @ brk h # ls))"
      by (auto simp: h'_def)
    show "\<forall>p \<in> set ps. p < 2 ^ 64" using l by (simp add: elements_in_def)
    have "keeps_idx (set ps) h h'" using new by (auto simp: keeps_idx_def intro!: same)
    then show "list_all2 (\<lambda>p v. element_idx p h' = Some v) ps vs"
      using l by (auto simp: elements_in_def intro: keeps_list)
  qed simp
  moreover have "keeps_idx (set ls) h h'" using new by (auto simp: keeps_idx_def intro!: same)
  moreover have "element_idx (brk h) h' = Some (int i)" using nz by (simp add: element_idx_def heap_load_def h'_def)
  ultimately show ?thesis using made by (auto simp: h'_def)
qed

lemma send_element:
  assumes l: "elements_in h q buf ps ls vs" and e: "e \<in> set ls" "e < 2 ^ 64" "element_idx e h = Some i"
    and room: "length ps < 1024"
  shows "\<exists>h'. queue_send q (encode_ptr e) 1000 now [] h = Some (0, None, [], h') \<and> brk h' = brk h \<and>
    elements_in h' q buf (ps @ [e]) (remove1 e ls) (vs @ [i]) \<and> keeps_idx (set ls) h h'"
proof -
  have st: "queue_state False h q buf 1024 8 (map encode_ptr ps)" and oom: "no_oom h"
    and d: "distinct (q # buf # ps @ ls)" and dm: "dom (blocks h) = set (q # buf # ps @ ls)"
    using l by (simp_all add: elements_in_def)
  obtain h' where h': "queue_send q (encode_ptr e) 1000 now [] h = Some (0, None, [], h')"
    "queue_state False h' q buf 1024 8 (map encode_ptr ps @ [encode_ptr e])" "plan h' = plan h"
    "brk h' = brk h" "same_except {q, buf} h h'"
    using queue_send_alone [OF st, of "encode_ptr e" 1000 now] room by auto
  have keeps: "keeps_idx (set (ps @ ls)) h h'" using d by (intro keeps_same [OF h'(5)]) auto
  have "elements_in h' q buf (ps @ [e]) (remove1 e ls) (vs @ [i])"
  proof (rule elements_in_step [where g = "blocks h"])
    show "queue_state False h' q buf 1024 8 (map encode_ptr (ps @ [e]))" using h'(2) by simp
    show "no_oom h'" using oom h'(3) by (simp add: no_oom_def)
    show "distinct (q # buf # (ps @ [e]) @ remove1 e ls)" using d e(1) by (auto simp: set_remove1_eq)
    show "\<forall>r. r \<noteq> q \<and> r \<noteq> buf \<longrightarrow> blocks h' r = blocks h r" using h'(5) by (simp add: same_except_def)
    have "blocks h r \<noteq> None \<longleftrightarrow> r \<in> set (q # buf # ps @ ls)" for r using dm by (auto simp: domIff)
    then show "\<forall>r. r \<noteq> q \<and> r \<noteq> buf \<longrightarrow> (blocks h r \<noteq> None \<longleftrightarrow> r \<in> set ((ps @ [e]) @ remove1 e ls))"
      using d e(1) by (auto simp: set_remove1_eq)
    show "\<forall>p \<in> set (ps @ [e]). p < 2 ^ 64" using l e(2) by (auto simp: elements_in_def)
    have "list_all2 (\<lambda>p v. element_idx p h = Some v) (ps @ [e]) (vs @ [i])"
      using l e(3) by (intro list_all2_appendI) (simp_all add: elements_in_def)
    moreover have "keeps_idx (set (ps @ [e])) h h'" using keeps e(1) by (simp add: keeps_idx_def)
    ultimately show "list_all2 (\<lambda>p v. element_idx p h' = Some v) (ps @ [e]) (vs @ [i])" by (auto intro: keeps_list)
  qed
  then show ?thesis using h'(1,4) keeps by (auto simp: keeps_idx_def)
qed

lemma send_full:
  assumes "elements_in h q buf ps ls vs" and "\<not> length ps < 1024"
  shows "queue_send q (encode_ptr e) 1000 now [] h = Some (- 1, Some ENOSPC, [], h)"
  using assms queue_send_alone [of h q buf 1024 8 "map encode_ptr ps" "encode_ptr e" 1000 now] by (simp add: elements_in_def)

lemma recv_empty:
  assumes "elements_in h q buf [] ls vs"
  shows "queue_recv q 100 now [] h = Some (- 1, Some EAGAIN, None, [], h)"
  using assms queue_recv_alone [of h q buf 1024 8 "[]" 100 now] by (simp add: elements_in_def)

lemma recv_element:
  assumes l: "elements_in h q buf (e # ps) ls (v # vs)"
  shows "\<exists>h'. queue_recv q 100 now [] h = Some (0, None, Some (encode_ptr e), [], h') \<and> brk h' = brk h \<and>
    elements_in h' q buf ps (e # ls) vs \<and> decode_ptr (encode_ptr e) = e \<and> element_idx e h' = Some v \<and> keeps_idx (set ls) h h'"
proof -
  have st: "queue_state False h q buf 1024 8 (encode_ptr e # map encode_ptr ps)" and oom: "no_oom h"
    and d: "distinct (q # buf # (e # ps) @ ls)" and dm: "dom (blocks h) = set (q # buf # (e # ps) @ ls)"
    and idx: "list_all2 (\<lambda>p v. element_idx p h = Some v) ps vs" "element_idx e h = Some v" "e < 2 ^ 64"
    using l by (simp_all add: elements_in_def)
  obtain h' where h': "queue_recv q 100 now [] h = Some (0, None, Some (encode_ptr e), [], h')"
    "queue_state False h' q buf 1024 8 (map encode_ptr ps)" "plan h' = plan h" "brk h' = brk h" "same_except {q, buf} h h'"
    using queue_recv_alone [OF st, of 100 now] by auto
  have keeps: "keeps_idx (set (e # ps @ ls)) h h'" using d by (intro keeps_same [OF h'(5)]) auto
  have "elements_in h' q buf ps (e # ls) vs"
  proof (rule elements_in_step [where g = "blocks h"])
    show "queue_state False h' q buf 1024 8 (map encode_ptr ps)" by (rule h'(2))
    show "no_oom h'" using oom h'(3) by (simp add: no_oom_def)
    show "distinct (q # buf # ps @ e # ls)" using d by auto
    show "\<forall>r. r \<noteq> q \<and> r \<noteq> buf \<longrightarrow> blocks h' r = blocks h r" using h'(5) by (simp add: same_except_def)
    have "blocks h r \<noteq> None \<longleftrightarrow> r \<in> set (q # buf # (e # ps) @ ls)" for r using dm by (auto simp: domIff)
    then show "\<forall>r. r \<noteq> q \<and> r \<noteq> buf \<longrightarrow> (blocks h r \<noteq> None \<longleftrightarrow> r \<in> set (ps @ e # ls))" by auto
    show "\<forall>p \<in> set ps. p < 2 ^ 64" using l by (simp add: elements_in_def)
    show "list_all2 (\<lambda>p v. element_idx p h' = Some v) ps vs"
      by (rule keeps_list [OF _ idx(1)]) (use keeps in \<open>auto simp: keeps_idx_def\<close>)
  qed
  moreover have "element_idx e h' = Some v" using keeps_idxD [OF keeps, of e] idx(2) by simp
  moreover have "keeps_idx (set ls) h h'" using keeps by (simp add: keeps_idx_def)
  ultimately show ?thesis using h'(1,4) decode_encode [OF idx(3)] by (intro exI [of _ h'] conjI)
qed

lemma free_turn:
  assumes l: "elements_in h q buf ps ls vs" and e: "e \<in> set ls"
  shows "\<exists>h'. heap_free e h = Some h' \<and> brk h' = brk h \<and> elements_in h' q buf ps (remove1 e ls) vs \<and>
    keeps_idx (set (remove1 e ls)) h h'"
proof -
  have st: "queue_state False h q buf 1024 8 (map encode_ptr ps)" and oom: "no_oom h"
    and d: "distinct (q # buf # ps @ ls)" and dm: "dom (blocks h) = set (q # buf # ps @ ls)"
    using l by (simp_all add: elements_in_def)
  have ok: "heap_ok h" using queue_state_heap [OF st] by blast
  have live: "blocks h e \<noteq> None" using dm e by auto
  then have nz: "e \<noteq> NULL" using heap_live_pos [OF ok] by auto
  define h' where "h' = h\<lparr>blocks := (blocks h)(e := None)\<rparr>"
  have same: "element_idx p h' = element_idx p h" if "p \<noteq> e" for p
    using that by (intro element_idx_same) (simp add: h'_def)
  have "elements_in h' q buf ps (remove1 e ls) vs"
  proof (rule elements_in_step [where g = "blocks h'"])
    have "heap_ok h'" using ok by (auto simp: heap_ok_def h'_def)
    then show "queue_state False h' q buf 1024 8 (map encode_ptr ps)"
      using d e by (intro queue_state_frame [OF st]) (auto simp: h'_def)
    show "no_oom h'" using oom by (simp add: no_oom_def h'_def)
    show "distinct (q # buf # ps @ remove1 e ls)" using d by (auto simp: set_remove1_eq)
    have "blocks h r \<noteq> None \<longleftrightarrow> r \<in> set (q # buf # ps @ ls)" for r using dm by (auto simp: domIff)
    then show "\<forall>r. r \<noteq> q \<and> r \<noteq> buf \<longrightarrow> (blocks h' r \<noteq> None \<longleftrightarrow> r \<in> set (ps @ remove1 e ls))"
      using d e by (auto simp: h'_def set_remove1_eq)
    show "\<forall>p \<in> set ps. p < 2 ^ 64" using l by (simp add: elements_in_def)
    have "keeps_idx (set ps) h h'" using d e by (auto simp: keeps_idx_def intro!: same)
    then show "list_all2 (\<lambda>p v. element_idx p h' = Some v) ps vs"
      using l by (auto simp: elements_in_def intro: keeps_list)
  qed simp
  moreover have "heap_free e h = Some h'" using nz live by (simp add: heap_free_def h'_def)
  moreover have "keeps_idx (set (remove1 e ls)) h h'" using d by (auto simp: keeps_idx_def set_remove1_eq intro!: same)
  ultimately show ?thesis by (auto simp: h'_def)
qed

subsection \<open>The invariant of a run\<close>

text \<open>What the history and the lines say of a reader and of \<open>main\<close>.\<close>

definition gots :: "u64 \<Rightarrow> line list \<Rightarrow> int list" where
  "gots tid ls = concat (map (\<lambda>l. case l of Got t i \<Rightarrow> if t = tid then [i] else [] | _ \<Rightarrow> []) ls)"

definition lines_of :: "thread \<Rightarrow> process \<Rightarrow> line list" where
  "lines_of t st = map snd (filter (\<lambda>x. fst x = t) (printed st))"

definition shown :: "nat \<Rightarrow> process \<Rightarrow> int list" where
  "shown k st = gots (fst (readers st ! k)) (lines_of (Reader k) st)"

definition taken_by :: "nat \<Rightarrow> process \<Rightarrow> int option list" where
  "taken_by k st = map snd (filter (\<lambda>t. fst t = k) (was_taken st))"

definition failed :: "line list \<Rightarrow> int list" where
  "failed ls = concat (map (\<lambda>l. case l of Push_failed i \<Rightarrow> [int i] | _ \<Rightarrow> []) ls)"

lemma line_simps [simp]:
  "gots tid [] = []" "gots tid (xs @ ys) = gots tid xs @ gots tid ys" "gots tid [Got t i] = (if t = tid then [i] else [])"
  "gots tid [Nothing t] = []" "gots tid [Start t] = []"
  "failed [] = []" "failed (xs @ ys) = failed xs @ failed ys" "failed [Push_failed n] = [int n]"
  by (simp_all add: gots_def failed_def)

text \<open>The element \<open>main\<close> and the readers have in their hands, and the one a reader has still to print.\<close>

fun in_hand :: "place \<Rightarrow> ptr list" where
  "in_hand (Fill i (Made e)) = [e]"
| "in_hand (Push i (Made e)) = [e]"
| "in_hand _ = []"

fun carried :: "life \<Rightarrow> ptr list" where
  "carried (Received e) = [e]"
| "carried (Printed e) = [e]"
| "carried _ = []"

definition held :: "process \<Rightarrow> ptr list" where
  "held st = in_hand (place st) @ concat (map (carried \<circ> snd) (readers st))"

fun unprinted :: "elemen qheap \<Rightarrow> life \<Rightarrow> int option list" where
  "unprinted h (Received e) = [element_idx e h]"
| "unprinted h _ = []"

text \<open>The elements \<open>main\<close> has made, and tried to send, and the failure it has still to print.\<close>

fun made :: "place \<Rightarrow> nat" where
  "made (Fill i ph) = (if ph = Test then i else Suc i)"
| "made (Push i ph) = (if ph = Test then i else Suc i)"
| "made (Spawn i) = 1024"
| "made (Returned r) = (if r = 0 then 2048 else 1024)"
| "made _ = 2048"

fun attempted :: "place \<Rightarrow> nat" where
  "attempted (Fill i ph) = (if ph = Unsent then Suc i else i)"
| "attempted (Push i ph) = (if ph = Unsent then Suc i else i)"
| "attempted pl = made pl"

fun due :: "place \<Rightarrow> int list" where
  "due (Fill i Unsent) = [int i]"
| "due (Push i Unsent) = [int i]"
| "due _ = []"

definition phase_ok :: "nat \<Rightarrow> nat \<Rightarrow> phase \<Rightarrow> elemen qheap \<Rightarrow> bool" where
  "phase_ok n i ph h \<longleftrightarrow> (case ph of Test \<Rightarrow> i \<le> n | Unsent \<Rightarrow> i < n
     | Made e \<Rightarrow> i < n \<and> e < 2 ^ 64 \<and> element_idx e h = Some (int i))"

definition place_ok :: "process \<Rightarrow> bool" where
  "place_ok st \<longleftrightarrow> (case place st of
     Fill i ph \<Rightarrow> phase_ok 1024 i ph (memory st) \<and> ph \<noteq> Unsent \<and> readers st = [] \<and> was_refused st = [] \<and> was_taken st = []
   | Push i ph \<Rightarrow> 1024 \<le> i \<and> phase_ok 2048 i ph (memory st)
   | Spawn i \<Rightarrow> True | Empty_wait \<Rightarrow> True | Returned r \<Rightarrow> r = - 1 | _ \<Rightarrow> False)"

definition readers_ok :: "process \<Rightarrow> bool" where
  "readers_ok st \<longleftrightarrow> (\<forall>t \<in> set (was_taken st). fst t < length (readers st)) \<and>
     (\<forall>l \<in> set (printed st). \<forall>k. fst l = Reader k \<longrightarrow> k < length (readers st)) \<and>
     (\<forall>k < length (readers st). taken_by k st = map Some (shown k st) @ unprinted (memory st) (snd (readers st ! k)))"

definition sends_ok :: "process \<Rightarrow> bool" where
  "sends_ok st \<longleftrightarrow> brk (memory st) = 3 + made (place st) \<and>
     was_sent st = filter (\<lambda>i. i \<notin> set (was_refused st)) (map int [0..<attempted (place st)]) \<and>
     (\<forall>i \<in> set (was_refused st). 1024 \<le> i \<and> i < int (attempted (place st))) \<and>
     failed (lines_of Main st) @ due (place st) = was_refused st"

definition queue_ok :: "ptr \<Rightarrow> ptr \<Rightarrow> process \<Rightarrow> ptr list \<Rightarrow> ptr list \<Rightarrow> int list \<Rightarrow> bool" where
  "queue_ok q buf st ps os vs \<longleftrightarrow> elements_in (memory st) q buf ps (os @ held st) vs \<and>
     length os = length (was_refused st) \<and> map snd (was_taken st) @ map Some vs = map Some (was_sent st)"

definition run_ok :: "ptr \<Rightarrow> ptr \<Rightarrow> process \<Rightarrow> bool" where
  "run_ok q buf st \<longleftrightarrow> (\<exists>ps os vs. queue_ok q buf st ps os vs) \<and> sends_ok st \<and> place_ok st \<and> readers_ok st"

lemma run_okI: "\<lbrakk>queue_ok q buf st ps os vs; sends_ok st; place_ok st; readers_ok st\<rbrakk> \<Longrightarrow> run_ok q buf st"
  by (auto simp: run_ok_def)

lemmas line_defs = lines_of_def shown_def taken_by_def

lemma carried_in_held: "k < length (readers st) \<Longrightarrow> e \<in> set (carried (snd (readers st ! k))) \<Longrightarrow> e \<in> set (held st)"
  by (force simp: held_def in_set_conv_nth)

subsection \<open>The steps of a reader\<close>

lemma carried_update:
  "k < length rs \<Longrightarrow> mset (concat (map (carried \<circ> snd) (rs[k := (tid, l)]))) + mset (carried (snd (rs ! k))) =
    mset (concat (map (carried \<circ> snd) rs)) + mset (carried l)"
  by (induction rs arbitrary: k) (auto simp: nth_Cons split: nat.splits)

lemma readers_ok_update:
  assumes r: "readers_ok st" and k: "k < length (readers st)" "readers st ! k = (tid, l)"
    and others: "\<And>j e. \<lbrakk>j < length (readers st); j \<noteq> k; snd (readers st ! j) = Received e\<rbrakk> \<Longrightarrow>
      element_idx e h = element_idx e (memory st)"
    and own: "unprinted (memory st) l @ ws = map Some (gots tid lines) @ unprinted h l'"
  shows "readers_ok (st\<lparr>memory := h, printed := printed st @ map (Pair (Reader k)) lines,
    was_taken := was_taken st @ map (Pair k) ws, readers := (readers st)[k := (tid, l')]\<rparr>)" (is "readers_ok ?st")
proof -
  have fst_same: "fst ((readers st)[k := (tid, l')] ! j) = fst (readers st ! j)" for j
    using k by (cases "j = k") auto
  have "taken_by j ?st = map Some (shown j ?st) @ unprinted h (snd ((readers st)[k := (tid, l')] ! j))"
    if j: "j < length (readers st)" for j
  proof (cases "j = k")
    case True
    have "taken_by k st = map Some (shown k st) @ unprinted (memory st) l" using r k by (simp add: readers_ok_def)
    then show ?thesis using True k own by (simp add: line_defs filter_map comp_def)
  next
    case False
    have "unprinted h (snd (readers st ! j)) = unprinted (memory st) (snd (readers st ! j))"
      using others [OF j False] by (cases "snd (readers st ! j)") simp_all
    moreover have "taken_by j st = map Some (shown j st) @ unprinted (memory st) (snd (readers st ! j))"
      using r j by (simp add: readers_ok_def)
    ultimately show ?thesis using False by (simp add: line_defs filter_map comp_def)
  qed
  then show ?thesis using r k by (auto simp: readers_ok_def)
qed

lemma reader_update:
  assumes qo: "queue_ok q buf st ps os vs" and sends: "sends_ok st" and pl: "place_ok st" and rd: "readers_ok st"
    and k: "k < length (readers st)" "readers st ! k = (tid, l)"
    and h: "elements_in h q buf ps' ls vs'" "brk h = brk (memory st)" "keeps_idx (set ls \<inter> set (os @ held st)) (memory st) h"
    and ls: "mset ls + mset (carried l) = mset (os @ held st) + mset (carried l')"
    and fifo: "map snd (was_taken st) @ ws @ map Some vs' = map Some (was_sent st)"
    and own: "unprinted (memory st) l @ ws = map Some (gots tid lines) @ unprinted h l'"
  shows "run_ok q buf (st\<lparr>memory := h, printed := printed st @ map (Pair (Reader k)) lines,
    was_taken := was_taken st @ map (Pair k) ws, readers := (readers st)[k := (tid, l')]\<rparr>)" (is "run_ok q buf ?st")
proof -
  have "mset (held ?st) + mset (carried l) = mset (held st) + mset (carried l')"
    using carried_update [OF k(1), of tid l'] k by (simp add: held_def)
  then have "mset (os @ held ?st) + mset (carried l) = mset ls + mset (carried l)" using ls by (simp add: ac_simps)
  then have perm: "mset (os @ held ?st) = mset ls" by simp
  then have outside: "p \<in> set ls" if "p \<in> set (held ?st)" for p
    using that by (metis Un_iff mset_eq_setD set_append)
  have same: "element_idx p h = element_idx p (memory st)" if "p \<in> set (held ?st)" "p \<in> set (held st)" for p
    using h(3) outside that by (simp add: keeps_idx_def)
  have others: "element_idx e h = element_idx e (memory st)"
    if "j < length (readers st)" "j \<noteq> k" "snd (readers st ! j) = Received e" for j e
    using that carried_in_held [of j st e] carried_in_held [of j ?st e] by (intro same) simp_all
  have "queue_ok q buf ?st ps' os vs'"
    using elements_in_perm [OF h(1) perm] qo fifo by (simp add: queue_ok_def comp_def)
  moreover have "sends_ok ?st"
    using sends h(2) by (simp add: sends_ok_def lines_of_def filter_map comp_def)
  moreover have "place_ok ?st"
  proof -
    have "element_idx e h = element_idx e (memory st)" if "in_hand (place st) = [e]" for e
      using that by (intro same) (simp_all add: held_def)
    then have "phase_ok n i ph h = phase_ok n i ph (memory st)" if "place st = Fill i ph \<or> place st = Push i ph" for n i ph
      using that by (cases ph) (auto simp: phase_ok_def)
    then show ?thesis using pl k(1) by (auto simp: place_ok_def split: place.splits)
  qed
  moreover have "readers_ok ?st" by (rule readers_ok_update [OF rd k others own])
  ultimately show ?thesis by (rule run_okI)
qed

text \<open>A step that only prints.\<close>

lemma reader_prints:
  assumes qo: "queue_ok q buf st ps os vs" and ok: "sends_ok st" "place_ok st" "readers_ok st"
    and k: "k < length (readers st)" "readers st ! k = (tid, l)" and l': "carried l' = carried l"
    and own: "unprinted (memory st) l = map Some (gots tid lines) @ unprinted (memory st) l'"
  shows "run_ok q buf (st\<lparr>printed := printed st @ map (Pair (Reader k)) lines, readers := (readers st)[k := (tid, l')]\<rparr>)"
proof -
  have "run_ok q buf (st\<lparr>memory := memory st, printed := printed st @ map (Pair (Reader k)) lines,
      was_taken := was_taken st @ map (Pair k) [], readers := (readers st)[k := (tid, l')]\<rparr>)"
    by (rule reader_update [OF qo ok k, where ps' = ps and ls = "os @ held st" and vs' = vs]) (use qo l' own in \<open>simp_all add: queue_ok_def\<close>)
  then show ?thesis by simp
qed

lemma reader_step_eq:
  "\<lbrakk>k < length (readers st); \<not> returned (place st); readers st ! k = (tid, l)\<rbrakk> \<Longrightarrow>
   reader_step now q k st = Option.bind (reader_turn now q k tid l st) (\<lambda>(l, st). Some (st\<lparr>readers := (readers st)[k := (tid, l)]\<rparr>))"
  by (simp add: reader_step_def)

lemma reader_receives:
  assumes qo: "queue_ok q buf st ps os vs" and ok: "sends_ok st" "place_ok st" "readers_ok st"
    and k: "k < length (readers st)" "readers st ! k = (tid, Receiving)" and nr: "\<not> returned (place st)"
  shows "\<exists>st'. reader_step now q k st = Some st' \<and> run_ok q buf st' \<and> place st' = place st \<and> printed st' = printed st \<and>
    (vs \<noteq> [] \<longrightarrow> (\<exists>e v. was_taken st' = was_taken st @ [(k, v)] \<and> readers st' = (readers st)[k := (tid, Received e)]))"
proof -
  have l: "elements_in (memory st) q buf ps (os @ held st) vs" using qo by (simp add: queue_ok_def)
  show ?thesis
  proof (cases ps)
    case Nil
    then have "reader_step now q k st = Some (st\<lparr>readers := (readers st)[k := (tid, Empty_handed)]\<rparr>)"
      using recv_empty l by (simp add: reader_step_eq [OF k(1) nr k(2)] reader_turn_def)
    moreover have "run_ok q buf (st\<lparr>readers := (readers st)[k := (tid, Empty_handed)]\<rparr>)"
      using reader_prints [OF qo ok k, of Empty_handed "[]"] by simp
    moreover have "vs = []" using elements_in_length [OF l] Nil by simp
    ultimately show ?thesis by simp
  next
    case (Cons e ps')
    then obtain v vs' where vs: "vs = v # vs'" using elements_in_length [OF l] by (cases vs) auto
    obtain h where h: "queue_recv q 100 now [] (memory st) = Some (0, None, Some (encode_ptr e), [], h)"
      "brk h = brk (memory st)" "elements_in h q buf ps' (e # os @ held st) vs'" "decode_ptr (encode_ptr e) = e"
      "element_idx e h = Some v" "keeps_idx (set (os @ held st)) (memory st) h"
      using recv_element l unfolding Cons vs by blast
    let ?st = "st\<lparr>memory := h, was_taken := was_taken st @ [(k, Some v)], readers := (readers st)[k := (tid, Received e)]\<rparr>"
    have "reader_step now q k st = Some ?st"
      using h(1,4,5) by (simp add: reader_step_eq [OF k(1) nr k(2)] reader_turn_def)
    moreover have "run_ok q buf (st\<lparr>memory := h, printed := printed st @ map (Pair (Reader k)) [],
        was_taken := was_taken st @ map (Pair k) [Some v], readers := (readers st)[k := (tid, Received e)]\<rparr>)"
      by (rule reader_update [OF qo ok k h(3,2)]) (use h(5,6) qo vs in \<open>auto simp: keeps_idx_def queue_ok_def\<close>)
    ultimately show ?thesis by auto
  qed
qed

lemma reader_shows:
  assumes qo: "queue_ok q buf st ps os vs" and ok: "sends_ok st" "place_ok st" "readers_ok st"
    and k: "k < length (readers st)" "readers st ! k = (tid, Received e)" and nr: "\<not> returned (place st)"
  shows "\<exists>i. reader_step now q k st =
      Some (st\<lparr>printed := printed st @ [(Reader k, Got tid i)], readers := (readers st)[k := (tid, Printed e)]\<rparr>) \<and>
    run_ok q buf (st\<lparr>printed := printed st @ [(Reader k, Got tid i)], readers := (readers st)[k := (tid, Printed e)]\<rparr>)"
proof -
  have "element_idx e (memory st) \<in> set (taken_by k st)" using ok(3) k by (simp add: readers_ok_def)
  then have "element_idx e (memory st) \<in> set (map snd (was_taken st) @ map Some vs)" by (auto simp: taken_by_def)
  moreover have "map snd (was_taken st) @ map Some vs = map Some (was_sent st)" using qo by (simp add: queue_ok_def)
  ultimately have "element_idx e (memory st) \<in> set (map Some (was_sent st))" by (rule subst [rotated])
  then obtain i where i: "element_idx e (memory st) = Some i" by auto
  then show ?thesis
    using reader_prints [OF qo ok k, of "Printed e" "[Got tid i]"]
    by (intro exI [of _ i]) (simp add: reader_step_eq [OF k(1) nr k(2)] reader_turn_def)
qed

lemma reader_frees:
  assumes qo: "queue_ok q buf st ps os vs" and ok: "sends_ok st" "place_ok st" "readers_ok st"
    and k: "k < length (readers st)" "readers st ! k = (tid, Printed e)" and nr: "\<not> returned (place st)"
  shows "\<exists>st'. reader_step now q k st = Some st' \<and> run_ok q buf st'"
proof -
  have l: "elements_in (memory st) q buf ps (os @ held st) vs" using qo by (simp add: queue_ok_def)
  have e: "e \<in> set (os @ held st)" using carried_in_held [OF k(1), of e] k(2) by simp
  obtain h where h: "heap_free e (memory st) = Some h" "brk h = brk (memory st)"
    "elements_in h q buf ps (remove1 e (os @ held st)) vs" "keeps_idx (set (remove1 e (os @ held st))) (memory st) h"
    using free_turn [OF l e] by blast
  have "run_ok q buf (st\<lparr>memory := h, printed := printed st @ map (Pair (Reader k)) [],
      was_taken := was_taken st @ map (Pair k) [], readers := (readers st)[k := (tid, Receiving)]\<rparr>)"
    by (rule reader_update [OF qo ok k h(3,2)]) (use h(4) qo e in \<open>auto simp: keeps_idx_def queue_ok_def\<close>)
  then show ?thesis using h(1) by (simp add: reader_step_eq [OF k(1) nr k(2)] reader_turn_def)
qed

lemma reader_ok:
  assumes r: "run_ok q buf st"
  shows "\<exists>st'. reader_step now q k st = Some st' \<and> run_ok q buf st'"
proof (cases "returned (place st) \<or> length (readers st) \<le> k")
  case True
  then show ?thesis using r by (auto simp: reader_step_def)
next
  case False
  then have k: "k < length (readers st)" and nr: "\<not> returned (place st)" by auto
  obtain tid l where rd: "readers st ! k = (tid, l)" by (cases "readers st ! k")
  obtain ps os vs where qo: "queue_ok q buf st ps os vs" and ok: "sends_ok st" "place_ok st" "readers_ok st"
    using r by (auto simp: run_ok_def)
  note eq = reader_step_eq [OF k nr rd] reader_turn_def
  show ?thesis
  proof (cases l)
    case Created
    then show ?thesis using reader_prints [OF qo ok k, of tid l Receiving "[Start tid]"] rd by (simp add: eq)
  next
    case Receiving
    then show ?thesis using reader_receives [OF qo ok k, of tid now] rd nr by blast
  next
    case Empty_handed
    then show ?thesis using reader_prints [OF qo ok k, of tid l Receiving "[Nothing tid]"] rd by (simp add: eq)
  next
    case (Received e)
    then show ?thesis using reader_shows [OF qo ok k, of tid e now] rd nr by blast
  next
    case (Printed e)
    then show ?thesis using reader_frees [OF qo ok k, of tid e now] rd nr by blast
  next
    case Cancelled
    then show ?thesis using r list_update_id [of "readers st" k] rd by (simp add: eq)
  qed
qed

subsection \<open>The steps of \<open>main\<close>\<close>

text \<open>A step of \<open>main\<close> that keeps the hands of the readers.\<close>

lemma readers_ok_main:
  assumes "readers_ok st" and "\<And>e. e \<in> set (concat (map (carried \<circ> snd) (readers st))) \<Longrightarrow> element_idx e h = element_idx e (memory st)"
  shows "readers_ok (st\<lparr>memory := h, printed := printed st @ map (Pair Main) ls, was_sent := ss, was_refused := rs, place := pl\<rparr>)"
    (is "readers_ok ?st")
proof -
  have "unprinted h (snd (readers st ! k)) = unprinted (memory st) (snd (readers st ! k))" if "k < length (readers st)" for k
    using that assms(2) by (cases "snd (readers st ! k)") (force simp: in_set_conv_nth)+
  moreover have "taken_by k ?st = taken_by k st" "shown k ?st = shown k st" for k
    by (simp_all add: line_defs filter_map comp_def)
  ultimately show ?thesis using assms(1) by (auto simp: readers_ok_def)
qed

text \<open>The two loops that send.\<close>

lemma loop_place:
  assumes "C = Fill \<or> C = Push"
  shows "in_hand (C i Test) = []" "in_hand (C i (Made e)) = [e]" "in_hand (C i Unsent) = []"
    "made (C i Test) = i" "made (C i (Made e)) = Suc i" "made (C i Unsent) = Suc i"
    "attempted (C i Test) = i" "attempted (C i (Made e)) = i" "attempted (C i Unsent) = Suc i"
    "due (C i Test) = []" "due (C i (Made e)) = []" "due (C i Unsent) = [int i]"
  using assms by auto

lemma loop_makes:
  assumes r: "run_ok q buf st" and C: "C = Fill \<and> i < 1024 \<or> C = Push \<and> i < 2048" and pl: "place st = C i Test"
  shows "\<exists>e h. push_step now q i Test st = Some (i, Made e, st\<lparr>memory := h\<rparr>) \<and>
    run_ok q buf (st\<lparr>memory := h, place := C i (Made e)\<rparr>)"
proof -
  have loop: "C = Fill \<or> C = Push" using C by blast
  note place = loop_place [OF loop]
  obtain ps os vs where qo: "queue_ok q buf st ps os vs" and ok: "sends_ok st" "place_ok st" "readers_ok st"
    using r by (auto simp: run_ok_def)
  then have l: "elements_in (memory st) q buf ps (os @ held st) vs" by (simp add: queue_ok_def)
  obtain h where h: "make_element q i (memory st) = Some (brk (memory st), h)" "brk h = Suc (brk (memory st))"
    "elements_in h q buf ps (brk (memory st) # os @ held st) vs" "element_idx (brk (memory st)) h = Some (int i)"
    "keeps_idx (set (os @ held st)) (memory st) h"
    using make_turn [OF l] by blast
  let ?st = "st\<lparr>memory := h, place := C i (Made (brk (memory st)))\<rparr>"
  have "elements_in h q buf ps (os @ held ?st) vs"
    by (rule elements_in_perm [OF h(3)]) (simp add: held_def pl place)
  then have "queue_ok q buf ?st ps os vs" using qo by (simp add: queue_ok_def)
  moreover have b: "brk (memory st) = 3 + i" using ok(1) by (simp add: sends_ok_def pl place)
  then have "sends_ok ?st" using ok(1) h(2) by (simp add: sends_ok_def lines_of_def pl place)
  moreover have "place_ok ?st"
    using C ok(2) h(4) b pl by (auto simp: place_ok_def phase_ok_def)
  moreover have "readers_ok ?st"
    using readers_ok_main [OF ok(3), where h = h and pl = "C i (Made (brk (memory st)))" and ls = "[]"
          and ss = "was_sent st" and rs = "was_refused st"] h(5)
    by (simp add: keeps_idx_def held_def)
  ultimately show ?thesis using h(1) by (auto simp: push_step_def intro: run_okI)
qed

lemma attempted_more:
  assumes "sends_ok st" and "attempted (place st) = i" and "attempted pl = Suc i"
  shows "filter (\<lambda>i. i \<notin> set (was_refused st)) (map int [0..<attempted pl]) = was_sent st @ [int i]"
    and "filter (\<lambda>j. j \<notin> set (was_refused st @ [int i])) (map int [0..<attempted pl]) = was_sent st"
proof -
  have f: "\<forall>j \<in> set (was_refused st). j < int i" "was_sent st = filter (\<lambda>i. i \<notin> set (was_refused st)) (map int [0..<i])"
    using assms(1,2) by (auto simp: sends_ok_def)
  then show "filter (\<lambda>i. i \<notin> set (was_refused st)) (map int [0..<attempted pl]) = was_sent st @ [int i]"
    using assms(3) by auto
  have "filter (\<lambda>j. j \<notin> set (was_refused st @ [int i])) (map int [0..<i]) = filter (\<lambda>i. i \<notin> set (was_refused st)) (map int [0..<i])"
    by (rule filter_cong) auto
  then show "filter (\<lambda>j. j \<notin> set (was_refused st @ [int i])) (map int [0..<attempted pl]) = was_sent st"
    using f assms(3) by simp
qed

lemma loop_sends:
  assumes r: "run_ok q buf st" and loop: "C = Fill \<or> C = Push" and pl: "place st = C i (Made e)"
  shows "\<exists>j ph st'. push_step now q i (Made e) st = Some (j, ph, st') \<and> run_ok q buf (st'\<lparr>place := C j ph\<rparr>)"
proof -
  note place = loop_place [OF loop]
  obtain ps os vs where qo: "queue_ok q buf st ps os vs" and ok: "sends_ok st" "place_ok st" "readers_ok st"
    using r by (auto simp: run_ok_def)
  then have l: "elements_in (memory st) q buf ps (os @ held st) vs" by (simp add: queue_ok_def)
  have e: "e \<in> set (os @ held st)" "e < 2 ^ 64" "element_idx e (memory st) = Some (int i)"
    using ok(2) loop pl by (auto simp: held_def place place_ok_def phase_ok_def)
  have fill: "C = Fill \<Longrightarrow> length ps = i \<and> i < 1024 \<and> was_refused st = [] \<and> readers st = [] \<and> was_taken st = []"
    using ok qo elements_in_length [OF l] pl
    by (auto simp: place_ok_def phase_ok_def sends_ok_def queue_ok_def dest!: arg_cong [where f = length])
  have push: "C = Push \<Longrightarrow> 1024 \<le> i \<and> i < 2048" using ok(2) pl by (simp add: place_ok_def phase_ok_def)
  note sent = attempted_more [OF ok(1), of i] and rest = readers_ok_main [OF ok(3), where ls = "[]"]
  show ?thesis
  proof (cases "length ps < 1024")
    case True
    obtain h where h: "queue_send q (encode_ptr e) 1000 now [] (memory st) = Some (0, None, [], h)" "brk h = brk (memory st)"
      "elements_in h q buf (ps @ [e]) (remove1 e (os @ held st)) (vs @ [int i])" "keeps_idx (set (os @ held st)) (memory st) h"
      using send_element [OF l e True] by blast
    let ?st = "st\<lparr>memory := h, was_sent := was_sent st @ [int i], place := C (Suc i) Test\<rparr>"
    have "elements_in h q buf (ps @ [e]) (os @ held ?st) (vs @ [int i])"
      by (rule elements_in_perm [OF h(3)]) (simp add: held_def pl place remove1_append)
    then have "queue_ok q buf ?st (ps @ [e]) os (vs @ [int i])" using qo by (simp add: queue_ok_def flip: append_assoc)
    moreover have "sends_ok ?st"
      using ok(1) h(2) sent(1) [of "C (Suc i) Test"] by (auto simp: sends_ok_def lines_of_def pl place)
    moreover have "place_ok ?st" using loop fill push by (auto simp: place_ok_def phase_ok_def)
    moreover have "readers_ok ?st"
      using rest [where h = h and pl = "C (Suc i) Test" and ss = "was_sent st @ [int i]" and rs = "was_refused st"] h(4) by (simp add: keeps_idx_def held_def)
    ultimately have "run_ok q buf ?st" by (rule run_okI)
    then show ?thesis using h(1) by (simp add: push_step_def)
  next
    case False
    let ?st = "st\<lparr>was_refused := was_refused st @ [int i], place := C i Unsent\<rparr>"
    have C: "C = Push" using False fill loop by blast
    have "elements_in (memory st) q buf ps ((os @ [e]) @ held ?st) vs"
      by (rule elements_in_perm [OF l]) (simp add: held_def pl place)
    then have "queue_ok q buf ?st ps (os @ [e]) vs" using qo by (simp add: queue_ok_def)
    moreover have "sends_ok ?st"
      using ok(1) push [OF C] sent(2) [of "C i Unsent"] by (auto simp: sends_ok_def lines_of_def pl place)
    moreover have "place_ok ?st" using push [OF C] by (simp add: C place_ok_def phase_ok_def)
    moreover have "readers_ok ?st"
      using rest [where h = "memory st" and pl = "C i Unsent" and ss = "was_sent st" and rs = "was_refused st @ [int i]"] by simp
    ultimately have "run_ok q buf ?st" by (rule run_okI)
    then show ?thesis using send_full [OF l False] by (simp add: push_step_def)
  qed
qed

lemma loop_complains:
  assumes r: "run_ok q buf st" and pl: "place st = Push i Unsent"
  shows "run_ok q buf (st\<lparr>printed := printed st @ [(Main, Push_failed i)], place := Push (Suc i) Test\<rparr>)" (is "run_ok q buf ?st")
proof -
  obtain ps os vs where qo: "queue_ok q buf st ps os vs" and ok: "sends_ok st" "place_ok st" "readers_ok st"
    using r by (auto simp: run_ok_def)
  have "queue_ok q buf ?st ps os vs" using qo by (simp add: queue_ok_def held_def pl)
  moreover have "sends_ok ?st" using ok(1) by (simp add: sends_ok_def lines_of_def pl)
  moreover have "place_ok ?st" using ok(2) by (simp add: place_ok_def phase_ok_def pl)
  moreover have "readers_ok ?st"
    using readers_ok_main [OF ok(3), where h = "memory st" and pl = "Push (Suc i) Test" and ls = "[Push_failed i]"
        and ss = "was_sent st" and rs = "was_refused st"] by simp
  ultimately show ?thesis by (rule run_okI)
qed

lemma loop_ok:
  assumes r: "run_ok q buf st" and C: "C = Fill \<and> (ph = Test \<longrightarrow> i < 1024) \<or> C = Push \<and> (ph = Test \<longrightarrow> i < 2048)"
    and pl: "place st = C i ph"
  shows "\<exists>j ph' st'. push_step now q i ph st = Some (j, ph', st') \<and> run_ok q buf (st'\<lparr>place := C j ph'\<rparr>)"
proof (cases ph)
  case Test
  then show ?thesis using loop_makes [OF r, of C i now] C pl by auto
next
  case (Made e)
  then show ?thesis using loop_sends [OF r, of C i e now] C pl by blast
next
  case Unsent
  moreover have "C = Push" using r C pl Unsent by (auto simp: run_ok_def place_ok_def)
  ultimately show ?thesis using loop_complains [OF r, of i] pl by (simp add: push_step_def)
qed

text \<open>A step of \<open>main\<close> that only goes elsewhere, or starts a reader.\<close>

lemma main_goes:
  assumes r: "run_ok q buf st" and pl: "made pl = made (place st)" "attempted pl = attempted (place st)"
      "due (place st) = []" "due pl = []" "in_hand (place st) = []" "in_hand pl = []"
    and rs: "rs = [] \<or> rs = [(tid, Created)]" and ok: "place_ok (st\<lparr>readers := readers st @ rs, place := pl\<rparr>)"
  shows "run_ok q buf (st\<lparr>readers := readers st @ rs, place := pl\<rparr>)" (is "run_ok q buf ?st")
proof -
  obtain ps os vs where o: "queue_ok q buf st ps os vs" "sends_ok st" "place_ok st" "readers_ok st"
    using r by (auto simp: run_ok_def)
  have none: "taken_by (length (readers st)) st = []" "lines_of (Reader (length (readers st))) st = []"
    using o(4) by (auto simp: readers_ok_def line_defs filter_empty_conv)
  have "readers_ok ?st"
    using rs
  proof
    assume "rs = [(tid, Created)]"
    moreover have "taken_by k (st\<lparr>readers := readers st @ [(tid, Created)], place := pl\<rparr>) =
        map Some (shown k (st\<lparr>readers := readers st @ [(tid, Created)], place := pl\<rparr>)) @
        unprinted (memory st) (snd ((readers st @ [(tid, Created)]) ! k))" if "k < Suc (length (readers st))" for k
      using o(4) none that by (cases "k < length (readers st)") (auto simp: readers_ok_def line_defs nth_append less_Suc_eq)
    ultimately show ?thesis using o(4) by (auto simp: readers_ok_def less_Suc_eq)
  qed (use o(4) in \<open>simp add: readers_ok_def line_defs\<close>)
  moreover have "held ?st = held st" using rs pl by (auto simp: held_def)
  then have "queue_ok q buf ?st ps os vs" using o(1) by (simp add: queue_ok_def)
  moreover have "sends_ok ?st" using o(2) pl by (simp add: sends_ok_def lines_of_def)
  ultimately show ?thesis using ok by (intro run_okI)
qed

lemma main_ok:
  assumes r: "run_ok q buf st" and w: "place st \<noteq> Empty_wait"
  shows "\<exists>st'. main_step now tids q (place st) st = Some st' \<and> run_ok q buf st'"
proof -
  have pl: "place_ok st" using r by (simp add: run_ok_def)
  show ?thesis
  proof (cases "place st")
    case (Fill i ph)
    show ?thesis
    proof (cases "ph = Test \<and> \<not> i < 1024")
      case True
      then have "run_ok q buf (st\<lparr>readers := readers st @ [], place := Spawn 0\<rparr>)"
        using Fill pl by (intro main_goes [OF r]) (auto simp: place_ok_def phase_ok_def)
      then show ?thesis using Fill True by (simp add: ELEMENT_COUNT_def)
    qed (use loop_ok [OF r, of Fill ph i now] Fill in \<open>auto simp: ELEMENT_COUNT_def\<close>)
  next
    case (Push i ph)
    show ?thesis
    proof (cases "ph = Test \<and> \<not> i < 2048")
      case True
      then have "run_ok q buf (st\<lparr>readers := readers st @ [], place := Empty_wait\<rparr>)"
        using Push pl by (intro main_goes [OF r]) (auto simp: place_ok_def phase_ok_def)
      then show ?thesis using Push True by (simp add: ELEMENT_COUNT_def)
    qed (use loop_ok [OF r, of Push ph i now] Push in \<open>auto simp: ELEMENT_COUNT_def\<close>)
  next
    case (Spawn i)
    have "run_ok q buf (st\<lparr>readers := readers st @ rs, place := pl'\<rparr>)"
      if "pl' \<in> {Spawn (Suc i), Push 1024 Test, Returned (- 1)}" "rs = [] \<or> rs = [(tid, Created)]" for pl' rs tid
      by (rule main_goes [OF r _ _ _ _ _ _ that(2)]) (use Spawn that in \<open>auto simp: place_ok_def phase_ok_def\<close>)
    from this [of "Spawn (Suc i)" "[(the (tids ! i), Created)]"] this [of "Push 1024 Test" "[]"] this [of "Returned (- 1)" "[]"]
    show ?thesis using Spawn by (simp add: ELEMENT_COUNT_def)
  next
    case (Returned r')
    then show ?thesis using r by simp
  qed (use pl w in \<open>auto simp: place_ok_def\<close>)
qed

lemma main_waits:
  assumes r: "run_ok q buf st"
  shows "main_step now tids q Empty_wait st = None"
proof -
  obtain ps where "queue_state False (memory st) q buf 1024 8 (map encode_ptr ps)"
    using r by (auto simp: run_ok_def queue_ok_def elements_in_def)
  from queue_state_load [OF this] have "queue_empty_wait q 1000 now [] (memory st) = None"
    using queue_empty_wait_undefined by blast
  then show ?thesis by simp
qed

lemma step_ok:
  assumes r: "run_ok q buf st"
  shows "if t = Main \<and> place st = Empty_wait then thread_step now tids q t st = None
    else \<exists>st'. thread_step now tids q t st = Some st' \<and> run_ok q buf st'"
  using reader_ok [OF r, of now] main_ok [OF r, of now tids] main_waits [OF r, of now tids]
  by (cases t) (auto simp: thread_step_def simp del: main_step.simps)

lemma schedule_append:
  "schedule now tids q (ts @ us) st = Option.bind (schedule now tids q ts st) (schedule now tids q us)"
  by (induction ts arbitrary: st) (auto split: Option.bind_split)

lemma schedule_ok:
  assumes "run_ok q buf st"
  shows "case schedule now tids q ts st of
      Some st' \<Rightarrow> run_ok q buf st'
    | None \<Rightarrow> \<exists>k st'. k < length ts \<and> schedule now tids q (take k ts) st = Some st' \<and> place st' = Empty_wait \<and> ts ! k = Main"
  using assms
proof (induction ts arbitrary: st)
  case (Cons t ts)
  show ?case
  proof (cases "t = Main \<and> place st = Empty_wait")
    case True
    then show ?thesis using step_ok [OF Cons.prems, of t now tids] by (auto intro!: exI [of _ 0])
  next
    case False
    then obtain st1 where st1: "thread_step now tids q t st = Some st1" "run_ok q buf st1"
      using step_ok [OF Cons.prems, of t now tids] by auto
    show ?thesis
    proof (cases "schedule now tids q ts st1")
      case None
      then obtain k st' where "k < length ts" "schedule now tids q (take k ts) st1 = Some st'" "place st' = Empty_wait" "ts ! k = Main"
        using Cons.IH [OF st1(2)] by auto
      then show ?thesis using None st1(1) by (auto intro!: exI [of _ "Suc k"] exI [of _ st'])
    next
      case (Some st')
      then show ?thesis using Cons.IH [OF st1(2)] st1(1) by simp
    qed
  qed
qed simp

subsection \<open>The program from its start\<close>

lemma start_queue:
  assumes "Fail \<notin> set pl"
  shows "\<exists>h. queue_create_static 1 (of_nat (ELEMENT_COUNT * 8)) (of_nat ELEMENT_COUNT) 8 (start_heap pl) = Some (2, None, h) \<and>
    elements_in h 2 1 [] [] [] \<and> brk h = 3"
proof -
  let ?h = "start_heap pl" and ?n = "1024 :: u64" and ?s = "8 :: u64"
  let ?q = "queue_zero\<lparr>q_static := True, q_head := 1, q_tail := unat (((ucast ?n :: u32) - 1) * ucast ?s),
      q_nmemb := ucast (ucast ?n :: u32), q_size := ucast (ucast ?s :: u32)\<rparr>"
  define h' where "h' = ?h\<lparr>blocks := (blocks ?h)(2 \<mapsto> Queue ?q), brk := 3, plan := tl pl\<rparr>"
  have ok: "heap_ok ?h" "next_answer ?h \<noteq> Fail" "heap_ok h'"
    using no_oom_next [of ?h] assms by (auto simp: heap_ok_def start_heap_def no_oom_def h'_def)
  have "queue_create_static 1 (of_nat (ELEMENT_COUNT * 8)) (of_nat ELEMENT_COUNT) 8 ?h = Some (2, None, h')"
    using setup_result [OF ok(1,2)]
    by (simp add: queue_create_static_def ELEMENT_COUNT_def start_heap_def load_queue_def heap_load_def store_queue_def
        heap_store_def h'_def queue_zero_def)
  moreover have "queue_state False h' 2 1 (unat ?n) (unat ?s) []"
  proof (rule fresh_queue_state [OF ok(3), where st = True])
    show "blocks h' 1 = Some (Bytes (replicate (ELEMENT_COUNT * 8) 0))" by (simp add: h'_def start_heap_def)
    show "unat ?n * unat ?s \<le> length (replicate (ELEMENT_COUNT * 8) (0 :: u8))"
      unfolding length_replicate by (simp add: ELEMENT_COUNT_def)
  qed (simp_all add: h'_def start_heap_def)
  then have "queue_state False h' 2 1 1024 8 []" by simp
  then have "elements_in h' 2 1 [] [] []"
  proof (intro elements_in_step [where g = "\<lambda>_. None"])
    show "no_oom h'" using no_oom_tl [of ?h] assms by (simp add: no_oom_def start_heap_def h'_def)
  qed (auto simp: h'_def start_heap_def)
  ultimately show ?thesis by (auto simp: h'_def)
qed

lemma threads_main_start:
  assumes "Fail \<notin> set pl"
  shows "\<exists>h. run_ok 2 1 (start h) \<and> (\<forall>ts. threads_main now tids pl ts = schedule now tids 2 ts (start h))"
proof -
  obtain h where h: "queue_create_static 1 (of_nat (ELEMENT_COUNT * 8)) (of_nat ELEMENT_COUNT) 8 (start_heap pl) = Some (2, None, h)"
    "elements_in h 2 1 [] [] []" "brk h = 3"
    using start_queue [OF assms] by blast
  have "queue_ok 2 1 (start h) [] [] []" using h(2) by (simp add: queue_ok_def held_def start_def)
  moreover have "sends_ok (start h)" using h(3) by (simp add: sends_ok_def lines_of_def start_def)
  moreover have "place_ok (start h)" "readers_ok (start h)" by (simp_all add: place_ok_def phase_ok_def readers_ok_def start_def)
  ultimately show ?thesis using h(1) by (auto simp: threads_main_def intro: run_okI)
qed

lemma threads_main_run:
  assumes "Fail \<notin> set pl"
  shows "case threads_main now tids pl ts of
    Some st \<Rightarrow> run_ok 2 1 st \<and> (place st = Empty_wait \<longrightarrow> threads_main now tids pl (ts @ [Main]) = None)
  | None \<Rightarrow> \<exists>k st. k < length ts \<and> threads_main now tids pl (take k ts) = Some st \<and> place st = Empty_wait \<and> ts ! k = Main"
proof -
  obtain h where h: "run_ok 2 1 (start h)" "\<And>ts. threads_main now tids pl ts = schedule now tids 2 ts (start h)"
    using threads_main_start [OF assms] by blast
  have "threads_main now tids pl (ts @ [Main]) = None"
    if "threads_main now tids pl ts = Some st" "run_ok 2 1 st" "place st = Empty_wait" for st
    using step_ok [OF that(2), of Main now tids] that(1,3) by (simp add: h(2) schedule_append)
  then show ?thesis
    using schedule_ok [OF h(1), where now = now and tids = tids and ts = ts] unfolding h(2) [symmetric]
    by (auto split: option.splits)
qed

subsection \<open>Two readers that print in another order than they receive\<close>

lemma fill_turn:
  assumes r: "run_ok q buf st" and pl: "place st = Fill k Test" and k: "k < 1024"
  shows "\<exists>st'. schedule now tids q [Main, Main] st = Some st' \<and> run_ok q buf st' \<and> place st' = Fill (Suc k) Test \<and> printed st' = printed st"
proof -
  obtain e h where h: "push_step now q k Test st = Some (k, Made e, st\<lparr>memory := h\<rparr>)"
    "run_ok q buf (st\<lparr>memory := h, place := Fill k (Made e)\<rparr>)"
    using loop_makes [OF r, of Fill k now] pl k by auto
  let ?st = "st\<lparr>memory := h, place := Fill k (Made e)\<rparr>"
  obtain j ph st' where st': "push_step now q k (Made e) ?st = Some (j, ph, st')" "run_ok q buf (st'\<lparr>place := Fill j ph\<rparr>)"
    using loop_sends [OF h(2), of Fill k e now] by auto
  then have "ph \<noteq> Unsent" by (simp add: run_ok_def place_ok_def)
  then have "j = Suc k \<and> ph = Test \<and> printed st' = printed st"
    using st'(1) by (auto simp: push_step_def bind_Some_iff split: if_splits)
  then show ?thesis using h(1) st' pl k by (simp add: thread_step_def ELEMENT_COUNT_def)
qed

lemma fill_run:
  assumes r: "run_ok q buf (start h)" and "k \<le> 1024"
  shows "\<exists>st. schedule now tids q (replicate (2 * k) Main) (start h) = Some st \<and> run_ok q buf st \<and>
    place st = Fill k Test \<and> printed st = []"
  using assms(2)
proof (induction k)
  case 0
  then show ?case using r by (simp add: start_def)
next
  case (Suc k)
  then obtain st where st: "schedule now tids q (replicate (2 * k) Main) (start h) = Some st" "run_ok q buf st"
    "place st = Fill k Test" "printed st = []"
    by auto
  obtain st' where st': "schedule now tids q [Main, Main] st = Some st'" "run_ok q buf st'" "place st' = Fill (Suc k) Test"
    "printed st' = []"
    using fill_turn [OF st(2,3), of now tids] Suc.prems st(4) by auto
  have "replicate (2 * Suc k) Main = replicate (2 * k) Main @ [Main, Main]"
    using replicate_add [of "2 * k" 2 Main] by (simp add: numeral_2_eq_2)
  then have "schedule now tids q (replicate (2 * Suc k) Main) (start h) = Some st'"
    using st(1) st'(1) by (simp only: schedule_append) simp
  then show ?case using st' by blast
qed

lemma spawn_sent: "run_ok q buf st \<Longrightarrow> place st = Spawn n \<Longrightarrow> was_sent st = map int [0..<1024]"
  by (auto simp: run_ok_def sends_ok_def filter_id_conv)

lemma crossing:
  assumes r: "run_ok q buf st" and pl: "place st = Spawn n" and rs: "readers st = [(a, Receiving), (b, Receiving)]"
    and t: "was_taken st = []"
  shows "\<exists>st' i j e e'. schedule now tids q [Reader 0, Reader 1, Reader 1, Reader 0] st = Some st' \<and> place st' = Spawn n \<and>
    printed st' = printed st @ [(Reader 1, Got b j), (Reader 0, Got a i)] \<and> map fst (was_taken st') = [0, 1] \<and>
    readers st' = [(a, Printed e), (b, Printed e')]"
proof -
  obtain ps os vs where qo: "queue_ok q buf st ps os vs" and ok: "sends_ok st" "place_ok st" "readers_ok st"
    using r by (auto simp: run_ok_def)
  have "vs \<noteq> []" using qo spawn_sent [OF r pl] t by (auto simp: queue_ok_def)
  then obtain st1 e1 v1 where st1: "reader_step now q 0 st = Some st1" "run_ok q buf st1" "place st1 = Spawn n"
    "printed st1 = printed st" "was_taken st1 = [(0, v1)]" "readers st1 = [(a, Received e1), (b, Receiving)]"
    using reader_receives [OF qo ok, of 0 a now] pl rs t by auto
  obtain ps1 os1 vs1 where qo1: "queue_ok q buf st1 ps1 os1 vs1" and ok1: "sends_ok st1" "place_ok st1" "readers_ok st1"
    using st1(2) by (auto simp: run_ok_def)
  have "length (map snd (was_taken st1) @ map Some vs1) = length (map Some (was_sent st1))"
    using qo1 by (simp only: queue_ok_def)
  then have "vs1 \<noteq> []" using spawn_sent [OF st1(2,3)] st1(5) by auto
  then obtain st2 e2 v2 where st2: "reader_step now q 1 st1 = Some st2" "run_ok q buf st2" "place st2 = Spawn n"
    "printed st2 = printed st" "was_taken st2 = [(0, v1), (1, v2)]" "readers st2 = [(a, Received e1), (b, Received e2)]"
    using reader_receives [OF qo1 ok1, of 1 b now] st1 by auto
  obtain ps2 os2 vs2 where qo2: "queue_ok q buf st2 ps2 os2 vs2" and ok2: "sends_ok st2" "place_ok st2" "readers_ok st2"
    using st2(2) by (auto simp: run_ok_def)
  obtain j where j: "reader_step now q 1 st2 =
      Some (st2\<lparr>printed := printed st @ [(Reader 1, Got b j)], readers := [(a, Received e1), (b, Printed e2)]\<rparr>)"
      "run_ok q buf (st2\<lparr>printed := printed st @ [(Reader 1, Got b j)], readers := [(a, Received e1), (b, Printed e2)]\<rparr>)"
    using reader_shows [OF qo2 ok2, of 1 b e2 now] st2 by auto
  let ?st3 = "st2\<lparr>printed := printed st @ [(Reader 1, Got b j)], readers := [(a, Received e1), (b, Printed e2)]\<rparr>"
  obtain ps3 os3 vs3 where qo3: "queue_ok q buf ?st3 ps3 os3 vs3" and ok3: "sends_ok ?st3" "place_ok ?st3" "readers_ok ?st3"
    using j(2) by (auto simp: run_ok_def)
  obtain i where i: "reader_step now q 0 ?st3 = Some (?st3\<lparr>printed := printed ?st3 @ [(Reader 0, Got a i)],
      readers := (readers ?st3)[0 := (a, Printed e1)]\<rparr>)"
    using reader_shows [OF qo3 ok3, of 0 a e1 now] st2(3) by auto
  show ?thesis
    using st1(1) st2 j(1) i by (simp add: thread_step_def)
qed

text \<open>
  Two readers start, the first receives before the second, and prints after it: the lines are not in the order of the
  elements.
\<close>

lemma crossing_run:
  assumes "Fail \<notin> set pl"
  shows "\<exists>st i j e e'. threads_main now [Some a, Some b] pl
      (replicate 2048 Main @ [Main, Main, Main, Reader 0, Reader 1] @ [Reader 0, Reader 1, Reader 1, Reader 0]) = Some st \<and>
    place st = Spawn 2 \<and> map fst (was_taken st) = [0, 1] \<and> readers st = [(a, Printed e), (b, Printed e')] \<and>
    printed st = [(Reader 0, Start a), (Reader 1, Start b), (Reader 1, Got b j), (Reader 0, Got a i)]"
proof -
  let ?tids = "[Some a, Some b]"
  obtain h where h: "run_ok 2 1 (start h)" "\<And>ts. threads_main now ?tids pl ts = schedule now ?tids 2 ts (start h)"
    using threads_main_start [OF assms] by blast
  obtain st where st: "schedule now ?tids 2 (replicate 2048 Main) (start h) = Some st" "run_ok 2 1 st"
    "place st = Fill 1024 Test" "printed st = []"
    using fill_run [OF h(1), of 1024 now ?tids] by auto
  let ?st = "st\<lparr>readers := [(a, Receiving), (b, Receiving)], place := Spawn 2,
    printed := [(Reader 0, Start a), (Reader 1, Start b)]\<rparr>"
  have "readers st = []" "was_taken st = []" using st(2,3) by (simp_all add: run_ok_def place_ok_def)
  then have five: "schedule now ?tids 2 [Main, Main, Main, Reader 0, Reader 1] st = Some ?st" "was_taken ?st = []"
    using st(3,4)
    by (simp_all add: thread_step_def ELEMENT_COUNT_def THREADS_COUNT_def numeral_2_eq_2 reader_step_def reader_turn_def)
  have "run_ok 2 1 ?st"
    using schedule_ok [OF st(2), where now = now and tids = ?tids and ts = "[Main, Main, Main, Reader 0, Reader 1]"] five(1) by simp
  then obtain st' i j e e' where st': "schedule now ?tids 2 [Reader 0, Reader 1, Reader 1, Reader 0] ?st = Some st'"
    "place st' = Spawn 2" "map fst (was_taken st') = [0, 1]" "readers st' = [(a, Printed e), (b, Printed e')]"
    "printed st' = [(Reader 0, Start a), (Reader 1, Start b), (Reader 1, Got b j), (Reader 0, Got a i)]"
    using crossing [of 2 1 ?st 2 a b now ?tids] five(2) by auto
  have "threads_main now ?tids pl
      (replicate 2048 Main @ [Main, Main, Main, Reader 0, Reader 1] @ [Reader 0, Reader 1, Reader 1, Reader 0]) = Some st'"
    by (simp only: h(2) schedule_append st(1) five(1) st'(1) Option.bind.simps)
  then show ?thesis using st'(2-5) by (intro exI conjI)
qed

subsection \<open>The property\<close>

text \<open>C8: the multi-threaded example, for every schedule of its steps, when memory suffices. Up to
  \<open>queue_empty_wait\<close> it is memory safe: no element is used after it is freed or freed twice. The readers together
  receive the elements in the order they were sent; what is sent and not received is in the queue, at most 1024. Each
  reader prints the indices of the elements it has received, all of them, in its order, the last one perhaps not yet;
  so the lines of two readers may come in another order than their elements. Every element made is sent or, when the
  queue stays full, reported and never freed; that does not happen before the readers have been started. Besides the
  queue and its buffer just the elements in the queue, in somebody's hands and not sent are allocated. A run is undefined
  exactly when \<open>main\<close> gets to \<open>queue_empty_wait\<close>, so it never gets to its end.
\<close>

theorem threads_main_fifo:
  assumes "Fail \<notin> set pl"
  shows "case threads_main now tids pl ts of
    Some st \<Rightarrow> \<exists>vs. map snd (was_taken st) @ map Some vs = map Some (was_sent st) \<and> length vs \<le> 1024 \<and>
      (\<forall>t \<in> set (was_taken st). fst t < length (readers st)) \<and>
      (\<forall>k < length (readers st). taken_by k st = map Some (shown k st) @ unprinted (memory st) (snd (readers st ! k))) \<and>
      was_sent st = filter (\<lambda>i. i \<notin> set (was_refused st)) (map int [0..<attempted (place st)]) \<and>
      failed (lines_of Main st) @ due (place st) = was_refused st \<and> (\<forall>i \<in> set (was_refused st). 1024 \<le> i) \<and>
      card (dom (blocks (memory st))) = 2 + length vs + length (held st) + length (was_refused st) \<and>
      place st \<noteq> Cleaning \<and> place st \<noteq> Returned 0 \<and>
      (place st = Empty_wait \<longrightarrow> threads_main now tids pl (ts @ [Main]) = None)
  | None \<Rightarrow> \<exists>k st. k < length ts \<and> threads_main now tids pl (take k ts) = Some st \<and> place st = Empty_wait \<and> ts ! k = Main"
proof (cases "threads_main now tids pl ts")
  case None
  then show ?thesis using threads_main_run [OF assms, where now = now and tids = tids and ts = ts] by simp
next
  case (Some st)
  then have r: "run_ok 2 1 st" and w: "place st = Empty_wait \<longrightarrow> threads_main now tids pl (ts @ [Main]) = None"
    using threads_main_run [OF assms, where now = now and tids = tids and ts = ts] by simp_all
  then obtain ps os vs where qo: "queue_ok 2 1 st ps os vs" and ok: "sends_ok st" "place_ok st" "readers_ok st"
    by (auto simp: run_ok_def)
  then have l: "elements_in (memory st) 2 1 ps (os @ held st) vs" and os: "length os = length (was_refused st)"
    and fifo: "map snd (was_taken st) @ map Some vs = map Some (was_sent st)"
    by (simp_all add: queue_ok_def)
  have "length vs \<le> 1024" using elements_in_room [OF l] elements_in_length [OF l] by simp
  moreover have "card (dom (blocks (memory st))) = 2 + length vs + length (held st) + length (was_refused st)"
    using elements_in_card [OF l] os by simp
  ultimately show ?thesis
    using Some fifo ok w by (auto simp: sends_ok_def place_ok_def readers_ok_def intro!: exI [of _ vs])
qed

text \<open>Reader 0 takes the first element and reader 1 the second, which is printed first.\<close>

theorem threads_main_fifo_witness:
  "\<exists>st. threads_main \<lparr>tv_sec = 0, tv_nsec = 0\<rparr> [Some 7, Some 8] [Fresh]
      (replicate 2048 Main @ [Main, Main, Main, Reader 0, Reader 1] @ [Reader 0, Reader 1, Reader 1, Reader 0]) = Some st \<and>
    was_taken st = [(0, Some 0), (1, Some 1)] \<and>
    printed st = [(Reader 0, Start 7), (Reader 1, Start 8), (Reader 1, Got 8 1), (Reader 0, Got 7 0)]"
proof -
  let ?now = "\<lparr>tv_sec = 0, tv_nsec = 0\<rparr> :: timespec" and ?tids = "[Some 7, Some 8]"
    and ?ts = "replicate 2048 Main @ [Main, Main, Main, Reader 0, Reader 1] @ [Reader 0, Reader 1, Reader 1, Reader 0]"
  have mem: "Fail \<notin> set [Fresh]" by simp
  obtain st i j e e' where st: "threads_main ?now ?tids [Fresh] ?ts = Some st" "place st = Spawn 2" "map fst (was_taken st) = [0, 1]"
    "readers st = [(7, Printed e), (8, Printed e')]"
    "printed st = [(Reader 0, Start 7), (Reader 1, Start 8), (Reader 1, Got 8 j), (Reader 0, Got 7 i)]"
    using crossing_run [OF mem, of ?now 7 8] by (elim exE conjE) (rule that)
  obtain vs where vs: "map snd (was_taken st) @ map Some vs = map Some (was_sent st)"
    "\<forall>k < length (readers st). taken_by k st = map Some (shown k st) @ unprinted (memory st) (snd (readers st ! k))"
    "was_sent st = filter (\<lambda>i. i \<notin> set (was_refused st)) (map int [0..<attempted (place st)])" "\<forall>i \<in> set (was_refused st). 1024 \<le> i"
    using threads_main_fifo [OF mem, where now = ?now and tids = ?tids and ts = ?ts] unfolding st(1) option.case by blast
  obtain x y where t: "was_taken st = [(0, x), (1, y)]" using st(3) by (auto simp: map_eq_Cons_conv)
  have "taken_by 0 st = map Some (shown 0 st)" "taken_by 1 st = map Some (shown 1 st)" using vs(2) st(4) by simp_all
  then have xy: "x = Some i" "y = Some j" using t st(4,5) by (simp_all add: line_defs gots_def)
  have "was_sent st = map int [0..<1024]" using vs(3,4) st(2) by (auto simp: filter_id_conv)
  then have "(Some i # Some j # map Some vs) ! n = map Some (map int [0..<1024]) ! n" for n
    using vs(1) xy t by simp
  from this [of 0] this [of 1] have "i = 0" "j = 1" by simp_all
  then show ?thesis using st(1,5) t xy by (intro exI [of _ st]) simp
qed

end
