(* ===== verification/Printlog.thy ===== *)
theory Printlog
  imports Prelude
begin

text \<open>
  \<open>lib/printlog.c\<close>, the dump functions. A stream is the text written to it so
  far, so \<open>fprintf\<close> appends. The memory behind the argument \<open>p\<close> of the dump functions is the list
  of the bytes that may be read from \<open>p\<close> on: a read at a later position is undefined. The text a
  format and its arguments expand to is given as a string, \<^term>\<open>None\<close> for a format \<open>NULL\<close>.
\<close>

type_synonym stream = string

subsection \<open>The dump functions\<close>

definition read_at :: "u8 list \<Rightarrow> nat \<Rightarrow> u8 option" where
  "read_at mem i = (if i < length mem then Some (mem ! i) else None)"

text \<open>The conversions \<open>%02x\<close> and \<open>%04x\<close>, and \<open>val & 0xff\<close> for a signed \<open>char val\<close>.\<close>

definition hex_pad :: "nat \<Rightarrow> nat \<Rightarrow> string" where
  "hex_pad w n = pad_left (CHR ''0'') w (hex_nat n)"

definition low_byte :: "u8 \<Rightarrow> nat" where
  "low_byte val = nat (sint val AND 0xff)"

definition prefix_text :: "string option \<Rightarrow> stream \<Rightarrow> stream" where
  "prefix_text fmt f = (case fmt of None \<Rightarrow> f | Some s \<Rightarrow> f @ s @ newline)"

definition ruler :: "string \<Rightarrow> stream \<Rightarrow> stream" where
  "ruler indent f = f @ indent @ concat (map (\<lambda>i. hex_pad 2 i @ '' '') [0..<16]) @ newline"

text \<open>The \<open>for\<close> loop of one row, \<open>n\<close> iterations to go; every iteration reads \<open>*buf\<close> first.\<close>

fun dump_row :: "u8 list \<Rightarrow> nat \<Rightarrow> nat \<Rightarrow> nat \<Rightarrow> stream \<Rightarrow> (nat \<times> nat \<times> stream) option" where
  "dump_row mem 0 buf len f = Some (buf, len, f)"
| "dump_row mem (Suc n) buf len f = do {
     val \<leftarrow> read_at mem buf;
     if len > 0 then dump_row mem n (buf + 1) (len - 1) (f @ hex_pad 2 (low_byte val) @ '' '')
     else dump_row mem n buf len f }"

partial_function (option) dump_rows :: "u8 list \<Rightarrow> nat \<Rightarrow> nat \<Rightarrow> nat \<Rightarrow> stream \<Rightarrow> stream option" where
  "dump_rows mem count buf len f =
     (if len = 0 then Some f
      else Option.bind
        (dump_row mem 16 buf len
           (if (count - len) mod 0x10 = 0
            then f @ (if count - len = 0 then [] else newline) @ hex_pad 2 ((count - len) mod 256) @ '' ''
            else f))
        (\<lambda>(buf, len, f). dump_rows mem count buf len f))"

declare dump_rows.simps [code]

definition fdump :: "stream \<Rightarrow> u8 list \<Rightarrow> size_t \<Rightarrow> string option \<Rightarrow> stream option" where
  "fdump f p sz fmt = do {
     f \<leftarrow> dump_rows p (unat sz) 0 (unat sz) (ruler ''   '' (prefix_text fmt f));
     Some (f @ newline) }"

text \<open>\<open>dump\<close> is the same code on \<open>stdout\<close>.\<close>

definition dump :: "stream \<Rightarrow> u8 list \<Rightarrow> size_t \<Rightarrow> string option \<Rightarrow> stream option" where
  "dump stdout p sz fmt = do {
     stdout \<leftarrow> dump_rows p (unat sz) 0 (unat sz) (ruler ''   '' (prefix_text fmt stdout));
     Some (stdout @ newline) }"

text \<open>The two \<open>for\<close> loops of a row of \<open>hexdump\<close>.\<close>

fun hex_cols :: "u8 list \<Rightarrow> nat \<Rightarrow> nat \<Rightarrow> nat \<Rightarrow> stream \<Rightarrow> (nat \<times> nat \<times> stream) option" where
  "hex_cols mem 0 hbuf hlen f = Some (hbuf, hlen, f)"
| "hex_cols mem (Suc n) hbuf hlen f = do {
     val \<leftarrow> read_at mem hbuf;
     if hlen > 0 then hex_cols mem n (hbuf + 1) (hlen - 1) (f @ hex_pad 2 (low_byte val) @ '' '')
     else hex_cols mem n hbuf hlen (f @ ''   '') }"

definition shown_char :: "u8 \<Rightarrow> char" where
  "shown_char val = (if sint val > 0x20 \<and> sint val < 0x7e then char_of (unat val) else CHR ''.'')"

fun char_cols :: "u8 list \<Rightarrow> nat \<Rightarrow> nat \<Rightarrow> nat \<Rightarrow> nat \<Rightarrow> stream \<Rightarrow> (nat \<times> nat \<times> stream) option" where
  "char_cols mem count 0 cbuf tlen f = Some (cbuf, tlen, f)"
| "char_cols mem count (Suc n) cbuf tlen f = do {
     val \<leftarrow> read_at mem cbuf;
     let f = (if (count - tlen) mod 8 = 0 then f @ '' '' else f);
     if tlen > 0 then char_cols mem count n (cbuf + 1) (tlen - 1) (f @ [shown_char val])
     else char_cols mem count n cbuf tlen f }"

partial_function (option) hexdump_rows ::
  "u8 list \<Rightarrow> nat \<Rightarrow> nat \<Rightarrow> nat \<Rightarrow> nat \<Rightarrow> nat \<Rightarrow> stream \<Rightarrow> stream option" where
  "hexdump_rows mem count hbuf cbuf hlen tlen f =
     (if tlen = 0 then Some f
      else Option.bind
        (hex_cols mem 16 hbuf hlen
           (if (count - tlen) mod 0x10 = 0
            then f @ (if count - tlen = 0 then [] else newline) @ hex_pad 4 ((count - tlen) mod 2 ^ 32) @ '' ''
            else f))
        (\<lambda>(hbuf, hlen, f). Option.bind (char_cols mem count 16 cbuf tlen (f @ ''  ''))
           (\<lambda>(cbuf, tlen, f). hexdump_rows mem count hbuf cbuf hlen tlen f)))"

declare hexdump_rows.simps [code]

definition fhexdump :: "stream \<Rightarrow> u8 list \<Rightarrow> size_t \<Rightarrow> string option \<Rightarrow> stream option" where
  "fhexdump f p sz fmt = do {
     f \<leftarrow> hexdump_rows p (unat sz) 0 0 (unat sz) (unat sz) (ruler ''     '' (prefix_text fmt f));
     Some (f @ newline) }"

definition hexdump :: "stream \<Rightarrow> u8 list \<Rightarrow> size_t \<Rightarrow> string option \<Rightarrow> stream option" where
  "hexdump stdout p sz fmt = do {
     stdout \<leftarrow> hexdump_rows p (unat sz) 0 0 (unat sz) (unat sz) (ruler ''     '' (prefix_text fmt stdout));
     Some (stdout @ newline) }"

subsection \<open>What a dump reads and writes\<close>

lemma low_byte_unat [simp]: "low_byte b = unat b"
proof -
  have "sint b AND 0xff = take_bit 8 (sint b)" by (simp add: take_bit_eq_mask mask_eq_exp_minus_1)
  also have "\<dots> = uint (word_of_int (sint b) :: u8)" by (subst unsigned_of_int) simp
  finally have "sint b AND 0xff = uint b" by simp
  then show ?thesis by (simp add: low_byte_def)
qed

definition hex_byte :: "u8 list \<Rightarrow> nat \<Rightarrow> string" where
  "hex_byte mem j = hex_pad 2 (unat (mem ! j)) @ '' ''"

lemma dump_row_eq:
  "buf \<le> length mem \<Longrightarrow> dump_row mem n buf len f =
     (if buf + min n (Suc len) \<le> length mem
      then Some (buf + min n len, len - min n len, f @ concat (map (hex_byte mem) [buf..<buf + min n len]))
      else None)"
proof (induction n arbitrary: buf len f)
  case (Suc n)
  show ?case
  proof (cases len)
    case 0
    then show ?thesis using Suc.IH [of buf 0 f] by (auto simp: read_at_def)
  next
    case (Suc l)
    have e: "[buf..<Suc (buf + min n l)] = buf # [Suc buf..<Suc (buf + min n l)]"
      by (simp add: upt_conv_Cons del: upt_Suc)
    show ?thesis
      using Suc Suc.IH [of "buf + 1" l "f @ hex_byte mem buf"] Suc.prems
      by (auto simp: read_at_def hex_byte_def [of mem buf] e simp del: upt_Suc)
  qed
qed simp

text \<open>The lines of a dump: each starts with the low byte of its offset and shows up to sixteen bytes.\<close>

definition row_at :: "nat \<Rightarrow> nat \<Rightarrow> nat list" where
  "row_at count k = [16 * k..<min (16 * k + 16) count]"

definition rows_of :: "nat \<Rightarrow> nat" where
  "rows_of count = (count + 15) div 16"

definition dump_line :: "u8 list \<Rightarrow> nat \<Rightarrow> nat \<Rightarrow> string" where
  "dump_line mem count k = hex_pad 2 (16 * k mod 256) @ '' '' @ concat (map (hex_byte mem) (row_at count k))"

definition lines_text :: "(nat \<Rightarrow> string) \<Rightarrow> nat list \<Rightarrow> string" where
  "lines_text line ks = concat (map (\<lambda>k. (if k = 0 then [] else newline) @ line k) ks)"

text \<open>
  The bytes the functions read: the dumped ones, and one byte more when the last row is not full,
  because \<open>*buf\<close> is read before \<open>len\<close> is tested.
\<close>

definition bytes_read :: "nat \<Rightarrow> nat" where
  "bytes_read count = (if 16 dvd count then count else count + 1)"

lemma rows_of_step: "16 * k < count \<Longrightarrow> [k..<rows_of count] = k # [Suc k..<rows_of count]"
  by (simp add: rows_of_def upt_conv_Cons del: upt_Suc)

lemma rows_of_done: "count \<le> 16 * k \<Longrightarrow> [k..<rows_of count] = []"
  by (simp add: rows_of_def)

lemma bytes_read_full: "16 * k + 16 \<le> count \<Longrightarrow> 16 * k + 16 \<le> bytes_read count"
  by (simp add: bytes_read_def)

lemma bytes_read_last: "16 * k < count \<Longrightarrow> count < 16 * k + 16 \<Longrightarrow> bytes_read count = Suc count"
proof -
  assume "16 * k < count" "count < 16 * k + 16"
  then have "\<not> 16 dvd count" by presburger
  then show ?thesis by (simp add: bytes_read_def)
qed

text \<open>Whether a row ends inside the memory, and where it leaves the loop.\<close>

lemma row_end:
  fixes k count :: nat
  assumes "16 * k < count"
  shows "16 * k + min 16 (Suc (count - 16 * k)) = min (16 * k + 16) (Suc count)"
    and "16 * k + min 16 (count - 16 * k) = min (16 * k + 16) count"
    and "count - 16 * k - min 16 (count - 16 * k) = count - 16 * Suc k"
  using assms by auto

lemma row_fits:
  assumes "16 * k < count"
  shows "bytes_read count \<le> n \<Longrightarrow> min (16 * k + 16) (Suc count) \<le> n"
    and "count \<le> 16 * Suc k \<Longrightarrow> min (16 * k + 16) (Suc count) \<le> n \<Longrightarrow> bytes_read count \<le> n"
    and "min (16 * k + 16) (Suc count) \<le> n \<Longrightarrow> min (16 * Suc k) count \<le> n"
proof -
  consider "16 * k + 16 \<le> count" | "count < 16 * k + 16" by linarith
  then show "bytes_read count \<le> n \<Longrightarrow> min (16 * k + 16) (Suc count) \<le> n"
    by cases (use bytes_read_full [of k count] bytes_read_last [OF assms] in auto)
  show "min (16 * k + 16) (Suc count) \<le> n \<Longrightarrow> min (16 * Suc k) count \<le> n" by auto
  assume c: "count \<le> 16 * Suc k" and le: "min (16 * k + 16) (Suc count) \<le> n"
  show "bytes_read count \<le> n"
  proof (cases "count = 16 * Suc k")
    case True
    then show ?thesis using le by (simp add: bytes_read_def)
  next
    case False
    then show ?thesis using c le bytes_read_last [OF assms] by simp
  qed
qed

text \<open>
  The loop over the rows of a dump, \<open>R k f\<close> for row \<open>k\<close> with the text \<open>f\<close> so far: it stops behind the last row, and a row
  that fits in the memory adds its line. Both kinds of dump are loops of this form.
\<close>

lemma rows_text:
  assumes stop: "\<And>k f. count \<le> 16 * k \<Longrightarrow> R k f = Some f"
    and step: "\<And>k f. \<lbrakk>16 * k < count; 16 * k \<le> n\<rbrakk> \<Longrightarrow> R k f =
      (if min (16 * k + 16) (Suc count) \<le> n then R (Suc k) (f @ lines_text line [k]) else None)"
    and "min (16 * k) count \<le> n" and "count \<le> 16 * k \<Longrightarrow> bytes_read count \<le> n"
  shows "R k f = (if bytes_read count \<le> n then Some (f @ lines_text line [k..<rows_of count]) else None)"
  using assms(3,4)
proof (induction "count - 16 * k" arbitrary: k f rule: less_induct)
  case less
  show ?case
  proof (cases "16 * k < count")
    case False
    then show ?thesis using less.prems stop by (simp add: rows_of_done lines_text_def)
  next
    case True
    let ?in = "min (16 * k + 16) (Suc count) \<le> n"
    have R: "R k f = (if ?in then R (Suc k) (f @ lines_text line [k]) else None)"
      using less.prems(1) True by (intro step) simp_all
    show ?thesis
    proof (cases ?in)
      case out: False
      then show ?thesis using R row_fits(1) [OF True] by auto
    next
      case in_mem: True
      have "R (Suc k) (f @ lines_text line [k]) = (if bytes_read count \<le> n
        then Some ((f @ lines_text line [k]) @ lines_text line [Suc k..<rows_of count]) else None)"
      proof (rule less.hyps)
        show "count - 16 * Suc k < count - 16 * k" using True by simp
        show "min (16 * Suc k) count \<le> n" by (rule row_fits(3) [OF True in_mem])
        show "bytes_read count \<le> n" if "count \<le> 16 * Suc k"
          by (rule row_fits(2) [OF True that in_mem])
      qed
      then show ?thesis using R in_mem by (simp add: rows_of_step [OF True] lines_text_def)
    qed
  qed
qed

lemma dump_rows_eq:
  assumes "min (16 * k) count \<le> length mem" and "count \<le> 16 * k \<Longrightarrow> bytes_read count \<le> length mem"
  shows "dump_rows mem count (min (16 * k) count) (count - 16 * k) f =
     (if bytes_read count \<le> length mem
      then Some (f @ lines_text (dump_line mem count) [k..<rows_of count]) else None)"
proof (rule rows_text [OF _ _ assms, where R = "\<lambda>k. dump_rows mem count (min (16 * k) count) (count - 16 * k)"])
  show "dump_rows mem count (min (16 * k) count) (count - 16 * k) f = Some f" if "count \<le> 16 * k" for k f
    using that by (subst dump_rows.simps) simp
next
  fix k f assume True: "16 * k < count" and mem: "16 * k \<le> length mem"
  let ?f = "f @ (if k = 0 then [] else newline) @ hex_pad 2 (16 * k mod 256) @ '' ''"
  let ?in = "min (16 * k + 16) (Suc count) \<le> length mem"
  have off: "count - (count - 16 * k) = 16 * k" using True by simp
  have "dump_row mem 16 (16 * k) (count - 16 * k) ?f =
      (if ?in then Some (min (16 * Suc k) count, count - 16 * Suc k,
         f @ lines_text (dump_line mem count) [k]) else None)"
    unfolding dump_row_eq [OF mem] row_end [OF True]
    by (simp add: lines_text_def dump_line_def row_at_def add.commute del: upt_Suc)
  then show "dump_rows mem count (min (16 * k) count) (count - 16 * k) f =
      (if ?in then dump_rows mem count (min (16 * Suc k) count) (count - 16 * Suc k)
         (f @ lines_text (dump_line mem count) [k]) else None)"
    using True off by (subst dump_rows.simps) (simp del: mult_Suc_right)
qed simp_all

subsection \<open>The hex dump\<close>

definition char_cell :: "u8 list \<Rightarrow> nat \<Rightarrow> string" where
  "char_cell mem j = (if 8 dvd j then '' '' else []) @ [shown_char (mem ! j)]"

lemma hex_cols_eq:
  "hbuf \<le> length mem \<Longrightarrow> hex_cols mem n hbuf hlen f =
     (if hbuf + min n (Suc hlen) \<le> length mem
      then Some (hbuf + min n hlen, hlen - min n hlen, f @ concat (map (hex_byte mem) [hbuf..<hbuf + min n hlen]) @
        concat (replicate (n - hlen) ''   ''))
      else None)"
proof (induction n arbitrary: hbuf hlen f)
  case (Suc n)
  show ?case
  proof (cases hlen)
    case 0
    then show ?thesis using Suc.IH [of hbuf 0 "f @ ''   ''"] by (auto simp: read_at_def)
  next
    case (Suc l)
    have e: "[hbuf..<Suc (hbuf + min n l)] = hbuf # [Suc hbuf..<Suc (hbuf + min n l)]"
      by (simp add: upt_conv_Cons del: upt_Suc)
    show ?thesis
      using Suc Suc.IH [of "hbuf + 1" l "f @ hex_byte mem hbuf"] Suc.prems
      by (auto simp: read_at_def hex_byte_def [of mem hbuf] e simp del: upt_Suc)
  qed
qed simp

lemma char_cols_eq:
  "cbuf \<le> length mem \<Longrightarrow> cbuf + tlen = count \<Longrightarrow> char_cols mem count n cbuf tlen f =
     (if cbuf + min n (Suc tlen) \<le> length mem
      then Some (cbuf + min n tlen, tlen - min n tlen, f @ concat (map (char_cell mem) [cbuf..<cbuf + min n tlen]) @
        (if 8 dvd count then replicate (n - tlen) (CHR '' '') else []))
      else None)"
proof (induction n arbitrary: cbuf tlen f)
  case (Suc n)
  show ?case
  proof (cases tlen)
    case 0
    then show ?thesis
      using Suc.IH [of cbuf 0 "if 8 dvd count then f @ '' '' else f"] Suc.prems
      by (auto simp: read_at_def dvd_eq_mod_eq_0)
  next
    case (Suc l)
    have e: "[cbuf..<Suc (cbuf + min n l)] = cbuf # [Suc cbuf..<Suc (cbuf + min n l)]"
      by (simp add: upt_conv_Cons del: upt_Suc)
    have off: "count - tlen = cbuf" using Suc.prems(2) by simp
    have "char_cols mem count (Suc n) cbuf tlen f = Option.bind (read_at mem cbuf)
        (\<lambda>_. char_cols mem count n (Suc cbuf) l (f @ char_cell mem cbuf))"
      using Suc off by (auto simp: char_cell_def read_at_def dvd_eq_mod_eq_0)
    then show ?thesis
      using Suc Suc.IH [of "Suc cbuf" l "f @ char_cell mem cbuf"] Suc.prems
      by (auto simp: read_at_def e simp del: upt_Suc char_cols.simps)
  qed
qed simp

text \<open>The columns that a last row of less than sixteen bytes leaves empty.\<close>

definition hexdump_line :: "u8 list \<Rightarrow> nat \<Rightarrow> nat \<Rightarrow> string" where
  "hexdump_line mem count k = hex_pad 4 (16 * k mod 2 ^ 32) @ '' '' @ concat (map (hex_byte mem) (row_at count k)) @
     concat (replicate (16 * Suc k - count) ''   '') @ ''  '' @ concat (map (char_cell mem) (row_at count k)) @
     (if 8 dvd count then replicate (16 * Suc k - count) (CHR '' '') else [])"

lemma hexdump_line_low:
  "k < 2 ^ 20 \<Longrightarrow> hexdump_line mem count k = hex_pad 4 (16 * k) @ '' '' @ concat (map (hex_byte mem) (row_at count k)) @
     concat (replicate (16 * Suc k - count) ''   '') @ ''  '' @ concat (map (char_cell mem) (row_at count k)) @
     (if 8 dvd count then replicate (16 * Suc k - count) (CHR '' '') else [])"
  by (simp only: hexdump_line_def mod_less [of "16 * k" "2 ^ 32"]) simp

lemma hexdump_rows_eq:
  assumes "min (16 * k) count \<le> length mem" and "count \<le> 16 * k \<Longrightarrow> bytes_read count \<le> length mem"
  shows "hexdump_rows mem count (min (16 * k) count) (min (16 * k) count) (count - 16 * k) (count - 16 * k) f =
     (if bytes_read count \<le> length mem
      then Some (f @ lines_text (hexdump_line mem count) [k..<rows_of count]) else None)"
proof (rule rows_text [OF _ _ assms, where R = "\<lambda>k. hexdump_rows mem count (min (16 * k) count)
    (min (16 * k) count) (count - 16 * k) (count - 16 * k)"])
  show "hexdump_rows mem count (min (16 * k) count) (min (16 * k) count) (count - 16 * k) (count - 16 * k) f = Some f"
    if "count \<le> 16 * k" for k f
    using that by (subst hexdump_rows.simps) simp
next
  fix k f assume True: "16 * k < count" and mem: "16 * k \<le> length mem"
  let ?f = "f @ (if k = 0 then [] else newline) @ hex_pad 4 (16 * k mod 2 ^ 32) @ '' ''"
  let ?in = "min (16 * k + 16) (Suc count) \<le> length mem"
  have off: "count - (count - 16 * k) = 16 * k" using True by simp
  have cnt: "16 * k + (count - 16 * k) = count" using True by simp
  have pad: "16 - (count - 16 * k) = 16 * Suc k - count" using True by simp
  have suc: "16 * j + 16 = 16 * Suc j" for j :: nat by simp
  have row: "Option.bind (hex_cols mem 16 (16 * k) (count - 16 * k) ?f)
      (\<lambda>(hbuf, hlen, f). Option.bind (char_cols mem count 16 (16 * k) (count - 16 * k) (f @ ''  ''))
        (\<lambda>(cbuf, tlen, f). hexdump_rows mem count hbuf cbuf hlen tlen f)) =
      (if ?in then hexdump_rows mem count (min (16 * Suc k) count) (min (16 * Suc k) count)
         (count - 16 * Suc k) (count - 16 * Suc k) (f @ lines_text (hexdump_line mem count) [k]) else None)"
    unfolding hex_cols_eq [OF mem] char_cols_eq [OF mem cnt] row_end [OF True] pad
      lines_text_def hexdump_line_def row_at_def suc
    by (simp del: upt_Suc mult_Suc_right)
  show "hexdump_rows mem count (min (16 * k) count) (min (16 * k) count) (count - 16 * k) (count - 16 * k) f =
      (if ?in then hexdump_rows mem count (min (16 * Suc k) count) (min (16 * Suc k) count)
         (count - 16 * Suc k) (count - 16 * Suc k) (f @ lines_text (hexdump_line mem count) [k]) else None)"
    using True row off by (subst hexdump_rows.simps) (simp del: mult_Suc_right)
qed simp_all

lemma fdump_eq:
  "fdump f p sz fmt = (if bytes_read (unat sz) \<le> length p
      then Some (ruler ''   '' (prefix_text fmt f) @ lines_text (dump_line p (unat sz)) [0..<rows_of (unat sz)] @ newline)
      else None)"
  using dump_rows_eq [of 0 "unat sz" p] by (simp add: fdump_def bytes_read_def)

lemma fhexdump_eq:
  "fhexdump f p sz fmt = (if bytes_read (unat sz) \<le> length p
      then Some (ruler ''     '' (prefix_text fmt f) @ lines_text (hexdump_line p (unat sz)) [0..<rows_of (unat sz)] @ newline)
      else None)"
  using hexdump_rows_eq [of 0 "unat sz" p] by (simp add: fhexdump_def bytes_read_def)

text \<open>C24: \<open>dump\<close> and \<open>fdump\<close>, completely: after the prefix and the ruler, one line per sixteen bytes with
  its offset (modulo 256) and the bytes in hexadecimal. They read exactly the dumped bytes, and
  the byte after them when their number is not a multiple of sixteen: where that byte is not
  readable the call is undefined.
\<close>

theorem fdump_text:
  "fdump f p sz fmt = (if bytes_read (unat sz) \<le> length p
      then Some (ruler ''   '' (prefix_text fmt f) @ lines_text (dump_line p (unat sz)) [0..<rows_of (unat sz)] @ newline)
      else None) \<and>
   dump f p sz fmt = fdump f p sz fmt"
  using fdump_eq [of f p sz fmt] by (simp add: fdump_def dump_def)

text \<open>C25: the same for \<open>hexdump\<close> and \<open>fhexdump\<close>: the offset modulo \<open>2 ^ 32\<close> in at least four digits, sixteen
  columns of bytes, and the printable characters in two groups of eight.
\<close>

theorem fhexdump_text:
  "fhexdump f p sz fmt = (if bytes_read (unat sz) \<le> length p
      then Some (ruler ''     '' (prefix_text fmt f) @ lines_text (hexdump_line p (unat sz)) [0..<rows_of (unat sz)] @ newline)
      else None) \<and>
   hexdump f p sz fmt = fhexdump f p sz fmt"
  using fhexdump_eq [of f p sz fmt] by (simp add: fhexdump_def hexdump_def)

text \<open>A dump shows every byte in two hexadecimal digits, so it can be read back.\<close>

lemma digit_inject: "d < 16 \<Longrightarrow> e < 16 \<Longrightarrow> digit d = digit e \<longleftrightarrow> d = e"
  by (auto simp: digit_def)

lemma digit_0: "digit 0 = CHR ''0''"
  by code_simp

lemma hex_pad_byte: "n < 256 \<Longrightarrow> hex_pad 2 n = [digit (n div 16), digit (n mod 16)]"
proof -
  assume n: "n < 256"
  have one: "d < 16 \<Longrightarrow> numeral_in 16 d = [digit d]" for d by (simp add: numeral_in.simps)
  show ?thesis
  proof (cases "n < 16")
    case True
    then show ?thesis using digit_0 by (simp add: hex_pad_def pad_left_def hex_nat_def one)
  next
    case False
    then have "numeral_in 16 n = [digit (n div 16), digit (n mod 16)]"
      using n one [of "n div 16"] by (subst numeral_in.simps) auto
    then show ?thesis by (simp add: hex_pad_def pad_left_def hex_nat_def)
  qed
qed

lemma unat_byte [simp]: "unat (b :: u8) < 256"
  using unsigned_less [of b] by simp

lemma length_hex_byte [simp]: "length (hex_byte mem j) = 3"
  by (simp add: hex_byte_def hex_pad_byte)

lemma hex_byte_inject: "hex_byte m i = hex_byte m' i' \<longleftrightarrow> m ! i = m' ! i'"
proof -
  have "hex_byte m i = hex_byte m' i' \<longleftrightarrow> unat (m ! i) div 16 = unat (m' ! i') div 16 \<and>
      unat (m ! i) mod 16 = unat (m' ! i') mod 16"
    using unat_byte [of "m ! i"] unat_byte [of "m' ! i'"]
    by (simp add: hex_byte_def hex_pad_byte digit_inject less_mult_imp_div_less)
  also have "\<dots> \<longleftrightarrow> unat (m ! i) = unat (m' ! i')" by (metis div_mult_mod_eq)
  finally show ?thesis by (simp only: word_unat_eq_iff)
qed

lemma row_at_rows: "j < count \<Longrightarrow> j \<in> set (row_at count (j div 16)) \<and> j div 16 \<in> set [0..<rows_of count]"
  by (auto simp: row_at_def rows_of_def)

lemma lines_inject:
  assumes "lines_text l ks = lines_text l' ks" and "\<And>k. length (l k) = length (l' k)" and "k \<in> set ks"
  shows "l k = l' k"
proof -
  let ?g = "\<lambda>l k. (if k = 0 then [] else newline) @ l k"
  have "map (?g l) ks = map (?g l') ks"
  proof (rule iffD1 [OF concat_eq_concat_iff])
    show "concat (map (?g l) ks) = concat (map (?g l') ks)" using assms(1) by (simp add: lines_text_def)
    show "\<forall>(x, y) \<in> set (zip (map (?g l) ks) (map (?g l') ks)). length x = length y"
      using assms(2) by (auto simp: zip_map_map zip_same_conv_map)
  qed simp
  then show ?thesis using assms(3) by auto
qed

lemma dump_line_length: "length (dump_line m count k) = length (dump_line m' count k)"
  by (simp add: dump_line_def length_concat comp_def)

text \<open>C26: two dumps of the same size that print the same text come from the same bytes.\<close>

theorem fdump_determines_bytes:
  assumes "fdump f p sz fmt = Some t" and "fdump f q sz fmt = Some t"
  shows "take (unat sz) p = take (unat sz) q"
proof (rule nth_equalityI)
  have rd: "bytes_read (unat sz) \<le> length p" "bytes_read (unat sz) \<le> length q"
    using assms fdump_eq [of f p sz fmt] fdump_eq [of f q sz fmt] by (auto split: if_splits)
  have "unat sz \<le> bytes_read (unat sz)" by (simp add: bytes_read_def)
  with rd have len: "unat sz \<le> length p" "unat sz \<le> length q" by linarith+
  then show "length (take (unat sz) p) = length (take (unat sz) q)" by simp
  have "lines_text (dump_line p (unat sz)) [0..<rows_of (unat sz)] =
      lines_text (dump_line q (unat sz)) [0..<rows_of (unat sz)]"
    using assms rd fdump_eq [of f p sz fmt] fdump_eq [of f q sz fmt] by (auto simp: newline_def)
  then have line: "dump_line p (unat sz) k = dump_line q (unat sz) k" if "k \<in> set [0..<rows_of (unat sz)]" for k
    using dump_line_length that by (rule lines_inject)
  fix j assume "j < length (take (unat sz) p)"
  then have j: "j < unat sz" by simp
  have "concat (map (hex_byte p) (row_at (unat sz) (j div 16))) = concat (map (hex_byte q) (row_at (unat sz) (j div 16)))"
    using line row_at_rows [OF j] by (simp add: dump_line_def)
  then have "map (hex_byte p) (row_at (unat sz) (j div 16)) = map (hex_byte q) (row_at (unat sz) (j div 16))"
    by (subst (asm) concat_eq_concat_iff) (auto simp: zip_map_map zip_same_conv_map)
  then have "hex_byte p j = hex_byte q j" using row_at_rows [OF j] by auto
  then show "take (unat sz) p ! j = take (unat sz) q ! j" using j by (simp add: hex_byte_inject)
qed

text \<open>The byte behind the dumped ones does not show.\<close>

theorem fdump_determines_bytes_witness:
  "fdump [] [65, 66, 9] 2 None = Some (''   00 01 02 03 04 05 06 07 08 09 0a 0b 0c 0d 0e 0f '' @ newline @ ''00 41 42 '' @ newline) \<and>
   take 2 [65, 66, 9] = take 2 [65, 66, 8 :: u8]"
proof
  have d: "fdump [] [65, 66, b] 2 None =
      Some (''   00 01 02 03 04 05 06 07 08 09 0a 0b 0c 0d 0e 0f '' @ newline @ ''00 41 42 '' @ newline)" for b
  proof -
    have "lines_text (dump_line [65, 66, b] 2) [0..<rows_of 2] = ''00 41 42 ''"
    proof -
      have "[0..<rows_of 2] = [0]" "row_at 2 0 = [0, 1]" by code_simp+
      moreover have "hex_pad 2 0 = ''00''" "hex_pad 2 65 = ''41''" "hex_pad 2 66 = ''42''" by code_simp+
      ultimately show ?thesis by (simp add: lines_text_def dump_line_def hex_byte_def)
    qed
    moreover have "ruler ''   '' [] = ''   00 01 02 03 04 05 06 07 08 09 0a 0b 0c 0d 0e 0f '' @ newline" by code_simp
    ultimately show ?thesis by (simp add: fdump_eq bytes_read_def prefix_text_def)
  qed
  then show "fdump [] [65, 66, 9] 2 None =
      Some (''   00 01 02 03 04 05 06 07 08 09 0a 0b 0c 0d 0e 0f '' @ newline @ ''00 41 42 '' @ newline)" .
  have "take (unat (2 :: size_t)) [65, 66, 9] = take (unat (2 :: size_t)) [65, 66, 8 :: u8]"
    by (rule fdump_determines_bytes [OF d d])
  then show "take 2 [65, 66, 9] = take 2 [65, 66, 8 :: u8]" by simp
qed

end
