(* ===== verification/Printlog_Levels.thy ===== *)
theory Printlog_Levels
  imports Printlog
begin

text \<open>
  The logging macros of \<open>includes/printlog.h\<close> and \<open>examples/printlog/printlog.c\<close>. A build is the pair of
  preprocessor symbols the header tests; a macro gives the list of the messages it emits (none or
  one), each to \<open>stderr\<close> or to \<open>syslog\<close> with its priority. The text a format and its arguments expand
  to is given as a string.
\<close>

subsection \<open>The macros\<close>

record build =
  defined_level :: "nat option"
  PRINTLOG_SYSLOG :: bool

datatype message = Stderr string | Syslog nat string

definition LOG_EMERG :: nat where "LOG_EMERG = 0"
definition LOG_ALERT :: nat where "LOG_ALERT = 1"
definition LOG_CRIT :: nat where "LOG_CRIT = 2"
definition LOG_ERR :: nat where "LOG_ERR = 3"
definition LOG_WARNING :: nat where "LOG_WARNING = 4"
definition LOG_NOTICE :: nat where "LOG_NOTICE = 5"
definition LOG_INFO :: nat where "LOG_INFO = 6"
definition LOG_DEBUG :: nat where "LOG_DEBUG = 7"

definition LOG_LEVEL :: "build \<Rightarrow> nat" where
  "LOG_LEVEL cfg = (case defined_level cfg of None \<Rightarrow> LOG_INFO | Some l \<Rightarrow> l)"

text \<open>The terminal sequences \<open>\x1B[\<close>\<dots>\<open>m\<close>.\<close>

definition colour :: "string \<Rightarrow> string" where
  "colour c = CHR 0x1B # CHR ''['' # c @ ''m''"

definition PRINTLOG_EMERG :: "build \<Rightarrow> string \<Rightarrow> message list" where
  "PRINTLOG_EMERG cfg msg =
     (if LOG_LEVEL cfg \<ge> LOG_EMERG then
        if PRINTLOG_SYSLOG cfg then [Syslog LOG_EMERG (''[EMERG] '' @ msg @ newline)]
        else [Stderr (colour ''31'' @ ''[EMERG] '' @ msg @ colour ''0'' @ newline)]
      else [])"

definition PRINTLOG_ALERT :: "build \<Rightarrow> string \<Rightarrow> message list" where
  "PRINTLOG_ALERT cfg msg =
     (if LOG_LEVEL cfg \<ge> LOG_ALERT then
        if PRINTLOG_SYSLOG cfg then [Syslog LOG_ALERT (''[ALERT] '' @ msg @ newline)]
        else [Stderr (colour ''31'' @ ''[ALERT] '' @ msg @ colour ''0'' @ newline)]
      else [])"

definition PRINTLOG_CRIT :: "build \<Rightarrow> string \<Rightarrow> message list" where
  "PRINTLOG_CRIT cfg msg =
     (if LOG_LEVEL cfg \<ge> LOG_CRIT then
        if PRINTLOG_SYSLOG cfg then [Syslog LOG_CRIT (''[CRIT] '' @ msg @ newline)]
        else [Stderr (colour ''31'' @ ''[CRIT] '' @ msg @ colour ''0'' @ newline)]
      else [])"

definition PRINTLOG_ERR :: "build \<Rightarrow> string \<Rightarrow> message list" where
  "PRINTLOG_ERR cfg msg =
     (if LOG_LEVEL cfg \<ge> LOG_ERR then
        if PRINTLOG_SYSLOG cfg then [Syslog LOG_ERR (''[ERROR] '' @ msg @ newline)]
        else [Stderr (colour ''31'' @ ''[ERROR] '' @ msg @ colour ''0'' @ newline)]
      else [])"

definition PRINTLOG_WARNING :: "build \<Rightarrow> string \<Rightarrow> message list" where
  "PRINTLOG_WARNING cfg msg =
     (if LOG_LEVEL cfg \<ge> LOG_WARNING then
        if PRINTLOG_SYSLOG cfg then [Syslog LOG_WARNING (''[WARNING] '' @ msg @ newline)]
        else [Stderr (colour ''33'' @ ''[WARNING] '' @ msg @ colour ''0'' @ newline)]
      else [])"

definition PRINTLOG_NOTICE :: "build \<Rightarrow> string \<Rightarrow> message list" where
  "PRINTLOG_NOTICE cfg msg =
     (if LOG_LEVEL cfg \<ge> LOG_NOTICE then
        if PRINTLOG_SYSLOG cfg then [Syslog LOG_NOTICE (''[NOTICE] '' @ msg @ newline)]
        else [Stderr (colour ''37'' @ ''[NOTICE] '' @ msg @ colour ''0'' @ newline)]
      else [])"

definition PRINTLOG_INFO :: "build \<Rightarrow> string \<Rightarrow> message list" where
  "PRINTLOG_INFO cfg msg =
     (if LOG_LEVEL cfg \<ge> LOG_INFO then
        if PRINTLOG_SYSLOG cfg then [Syslog LOG_INFO (''[INFO] '' @ msg @ newline)]
        else [Stderr (colour ''32'' @ ''[INFO] '' @ msg @ colour ''0'' @ newline)]
      else [])"

text \<open>
  \<open>PRINTLOG_DEBUG\<close> adds the place of the call, and for \<open>syslog\<close> the time in microseconds, computed in
  \<open>unsigned long\<close>.
\<close>

record site =
  s_file :: string
  s_line :: nat
  s_func :: string

definition micros :: "u64 \<Rightarrow> u64 \<Rightarrow> u64" where
  "micros sec nsec = (sec * 1000000000 + nsec) div 1000"

definition PRINTLOG_DEBUG :: "build \<Rightarrow> u64 \<times> u64 \<Rightarrow> site \<Rightarrow> string \<Rightarrow> message list" where
  "PRINTLOG_DEBUG cfg tp at msg =
     (if LOG_LEVEL cfg \<ge> LOG_DEBUG then
        if PRINTLOG_SYSLOG cfg then
          [Syslog LOG_DEBUG (''[DEBUG] '' @ dec_nat (unat (micros (fst tp) (snd tp))) @ '' '' @ s_func at @ ''('' @
             s_file at @ ''):'' @ dec_nat (s_line at) @ '' -- '' @ msg @ newline)]
        else
          [Stderr (colour ''36'' @ ''[DEBUG] '' @ s_file at @ '':'' @ dec_nat (s_line at) @ ''['' @ s_func at @
             ''] -- '' @ msg @ colour ''0'' @ newline)]
      else [])"

text \<open>A program's sequence of calls.\<close>

datatype log_call = Emerg string | Alert string | Crit string | Err string | Warning string | Notice string
  | Info string | Debug "u64 \<times> u64" site string

fun emit :: "build \<Rightarrow> log_call \<Rightarrow> message list" where
  "emit cfg (Emerg m) = PRINTLOG_EMERG cfg m"
| "emit cfg (Alert m) = PRINTLOG_ALERT cfg m"
| "emit cfg (Crit m) = PRINTLOG_CRIT cfg m"
| "emit cfg (Err m) = PRINTLOG_ERR cfg m"
| "emit cfg (Warning m) = PRINTLOG_WARNING cfg m"
| "emit cfg (Notice m) = PRINTLOG_NOTICE cfg m"
| "emit cfg (Info m) = PRINTLOG_INFO cfg m"
| "emit cfg (Debug t s m) = PRINTLOG_DEBUG cfg t s m"

definition log_run :: "build \<Rightarrow> log_call list \<Rightarrow> message list" where
  "log_run cfg cs = concat (map (emit cfg) cs)"

fun priority :: "log_call \<Rightarrow> nat" where
  "priority (Emerg m) = 0"
| "priority (Alert m) = 1"
| "priority (Crit m) = 2"
| "priority (Err m) = 3"
| "priority (Warning m) = 4"
| "priority (Notice m) = 5"
| "priority (Info m) = 6"
| "priority (Debug t s m) = 7"

lemmas log_levels = LOG_EMERG_def LOG_ALERT_def LOG_CRIT_def LOG_ERR_def LOG_WARNING_def LOG_NOTICE_def
  LOG_INFO_def LOG_DEBUG_def LOG_LEVEL_def

lemmas log_macros = PRINTLOG_EMERG_def PRINTLOG_ALERT_def PRINTLOG_CRIT_def PRINTLOG_ERR_def
  PRINTLOG_WARNING_def PRINTLOG_NOTICE_def PRINTLOG_INFO_def PRINTLOG_DEBUG_def

lemma emit_gate:
  "emit \<lparr>defined_level = lvl, PRINTLOG_SYSLOG = s\<rparr> c =
     (if priority c \<le> (case lvl of None \<Rightarrow> 6 | Some l \<Rightarrow> l)
      then emit \<lparr>defined_level = Some 7, PRINTLOG_SYSLOG = s\<rparr> c else [])"
  by (cases c) (auto simp: log_macros log_levels split: option.splits)

text \<open>C27: the level of a build selects the calls: a build emits what the build of the highest level emits
  for the calls whose priority does not exceed its level (\<open>LOG_INFO\<close> when it defines none), in the
  same order; and every call it selects emits exactly one message, with the priority of the macro
  on \<open>syslog\<close>.
\<close>

theorem log_run_filters:
  "log_run \<lparr>defined_level = lvl, PRINTLOG_SYSLOG = s\<rparr> cs =
     log_run \<lparr>defined_level = Some 7, PRINTLOG_SYSLOG = s\<rparr>
       (filter (\<lambda>c. priority c \<le> (case lvl of None \<Rightarrow> 6 | Some l \<Rightarrow> l)) cs) \<and>
   map (\<lambda>m. case m of Syslog p _ \<Rightarrow> p | Stderr _ \<Rightarrow> 8) (log_run \<lparr>defined_level = Some 7, PRINTLOG_SYSLOG = s\<rparr> cs) =
     map (\<lambda>c. if s then priority c else 8) cs"
proof -
  have one: "map (\<lambda>m. case m of Syslog p _ \<Rightarrow> p | Stderr _ \<Rightarrow> 8) (emit \<lparr>defined_level = Some 7, PRINTLOG_SYSLOG = s\<rparr> c) =
      [if s then priority c else 8]" for c
    by (cases c) (simp_all add: log_macros log_levels)
  have "map (\<lambda>m. case m of Syslog p _ \<Rightarrow> p | Stderr _ \<Rightarrow> 8) (log_run \<lparr>defined_level = Some 7, PRINTLOG_SYSLOG = s\<rparr> cs) =
      map (\<lambda>c. if s then priority c else 8) cs"
    by (induction cs) (simp_all add: log_run_def one)
  moreover have "log_run \<lparr>defined_level = lvl, PRINTLOG_SYSLOG = s\<rparr> cs =
     log_run \<lparr>defined_level = Some 7, PRINTLOG_SYSLOG = s\<rparr>
       (filter (\<lambda>c. priority c \<le> (case lvl of None \<Rightarrow> 6 | Some l \<Rightarrow> l)) cs)"
    unfolding log_run_def by (induction cs) (simp_all add: emit_gate [of lvl])
  ultimately show ?thesis by blast
qed

subsection \<open>The example\<close>

definition example_buf :: "u8 list" where
  "example_buf = map (\<lambda>c. of_nat (of_char c)) ''Hello World'' @ [0x0, 0x1, 0x2, 0x3, 0x4, 0x5, 0x6]"

definition to_stderr :: "message list \<Rightarrow> stream \<Rightarrow> stream" where
  "to_stderr ms f = f @ concat (map (\<lambda>m. case m of Stderr t \<Rightarrow> t | Syslog _ _ \<Rightarrow> []) ms)"

text \<open>
  \<open>main\<close> with its exit status and what it writes to \<open>stderr\<close>. \<open>behind\<close> are the bytes that may be read
  after the array \<open>buf\<close>; in C there are none.
\<close>

definition printlog_main :: "build \<Rightarrow> u64 \<times> u64 \<Rightarrow> u8 list \<Rightarrow> (int \<times> stream) option" where
  "printlog_main cfg tp behind = do {
     let stderr = [];
     stderr \<leftarrow> fdump stderr (example_buf @ behind) (of_nat (length example_buf)) (Some ''fdump prefix'');
     stderr \<leftarrow> fhexdump stderr (example_buf @ behind) (of_nat (length example_buf)) (Some ''fhexdump prefix'');
     let stderr = to_stderr (PRINTLOG_EMERG cfg ''emergency, system is unusable'') stderr;
     let stderr = to_stderr (PRINTLOG_ALERT cfg ''alert, action must be taken immediately'') stderr;
     let stderr = to_stderr (PRINTLOG_CRIT cfg ''we have some critical conditions'') stderr;
     let stderr = to_stderr (PRINTLOG_ERR cfg ''some error condition'') stderr;
     let stderr = to_stderr (PRINTLOG_WARNING cfg ''some warning conditions'') stderr;
     let stderr = to_stderr (PRINTLOG_NOTICE cfg ''normal, but significant, condition'') stderr;
     let stderr = to_stderr (PRINTLOG_INFO cfg ''informational message'') stderr;
     let stderr = to_stderr (PRINTLOG_DEBUG cfg tp \<lparr>s_file = ''printlog.c'', s_line = 25, s_func = ''main''\<rparr> ''debug message'') stderr;
     Some (0, stderr) }"

lemma dump_line_append: "count \<le> length mem \<Longrightarrow> dump_line (mem @ xs) count k = dump_line mem count k"
proof -
  assume "count \<le> length mem"
  then have "map (hex_byte (mem @ xs)) (row_at count k) = map (hex_byte mem) (row_at count k)"
    by (auto simp: row_at_def hex_byte_def nth_append)
  then show ?thesis by (simp only: dump_line_def)
qed

lemma hexdump_line_append: "count \<le> length mem \<Longrightarrow> hexdump_line (mem @ xs) count k = hexdump_line mem count k"
proof -
  assume le: "count \<le> length mem"
  then have "map (hex_byte (mem @ xs)) (row_at count k) = map (hex_byte mem) (row_at count k)"
    by (auto simp: row_at_def hex_byte_def nth_append)
  moreover have "map (char_cell (mem @ xs)) (row_at count k) = map (char_cell mem) (row_at count k)"
    using le by (auto simp: row_at_def char_cell_def nth_append)
  ultimately show ?thesis by (simp only: hexdump_line_def)
qed

lemma example_dump:
  "lines_text (dump_line example_buf 18) [0..<rows_of 18] =
     ''00 48 65 6c 6c 6f 20 57 6f 72 6c 64 00 01 02 03 04 '' @ newline @ ''10 05 06 ''"
  by code_simp

lemma example_hexdump:
  "lines_text (hexdump_line example_buf 18) [0..<rows_of 18] =
     ''0000 48 65 6c 6c 6f 20 57 6f 72 6c 64 00 01 02 03 04    Hello.Wo rld.....'' @ newline @
     ''0010 05 06                                              ..''"
proof -
  have "hexdump_line example_buf 18 0 =
      ''0000 48 65 6c 6c 6f 20 57 6f 72 6c 64 00 01 02 03 04    Hello.Wo rld.....''"
    by (subst hexdump_line_low, simp) code_simp
  moreover have "hexdump_line example_buf 18 1 = ''0010 05 06                                              ..''"
    by (subst hexdump_line_low, simp) code_simp
  moreover have "[0..<rows_of 18] = [0, 1]" by code_simp
  ultimately show ?thesis by (simp add: lines_text_def)
qed

lemma example_ruler:
  "ruler ''   '' [] = ''   00 01 02 03 04 05 06 07 08 09 0a 0b 0c 0d 0e 0f '' @ newline"
  "ruler ''     '' [] = ''     00 01 02 03 04 05 06 07 08 09 0a 0b 0c 0d 0e 0f '' @ newline"
  by code_simp+

lemma ruler_append: "ruler i f = f @ ruler i []"
  by (simp add: ruler_def)

lemma length_example [simp]: "length example_buf = 18"
  by (simp add: example_buf_def)

lemma example_fdump:
  "fdump f (example_buf @ behind) 18 (Some msg) = (if behind = [] then None else Some (f @ msg @ newline @
     ''   00 01 02 03 04 05 06 07 08 09 0a 0b 0c 0d 0e 0f '' @ newline @
     ''00 48 65 6c 6c 6f 20 57 6f 72 6c 64 00 01 02 03 04 '' @ newline @ ''10 05 06 '' @ newline))"
proof -
  have "lines_text (dump_line (example_buf @ behind) 18) ks = lines_text (dump_line example_buf 18) ks" for ks
    by (simp only: lines_text_def dump_line_append length_example order_refl)
  then show ?thesis
    by (cases behind)
      (simp_all add: fdump_eq bytes_read_def example_dump prefix_text_def ruler_append [of _ "f @ _"] example_ruler)
qed

lemma example_fhexdump:
  "fhexdump f (example_buf @ behind) 18 (Some msg) = (if behind = [] then None else Some (f @ msg @ newline @
     ''     00 01 02 03 04 05 06 07 08 09 0a 0b 0c 0d 0e 0f '' @ newline @
     ''0000 48 65 6c 6c 6f 20 57 6f 72 6c 64 00 01 02 03 04    Hello.Wo rld.....'' @ newline @
     ''0010 05 06                                              ..'' @ newline))"
proof -
  have "lines_text (hexdump_line (example_buf @ behind) 18) ks = lines_text (hexdump_line example_buf 18) ks" for ks
    by (simp only: lines_text_def hexdump_line_append length_example order_refl)
  then show ?thesis
    by (cases behind)
      (simp_all add: fhexdump_eq bytes_read_def example_hexdump prefix_text_def ruler_append [of _ "f @ _"] example_ruler)
qed

text \<open>The example, as its Makefile builds it (level 7): it dumps 18 bytes, so both dumps read the byte
  behind the array. When nothing may be read there the program is undefined; when something may be,
  whatever its value, the program ends with status 0 and this text.
\<close>

theorem printlog_main_result:
  "printlog_main \<lparr>defined_level = Some 7, PRINTLOG_SYSLOG = False\<rparr> tp behind =
     (if behind = [] then None else Some (0,
       ''fdump prefix'' @ newline @
       ''   00 01 02 03 04 05 06 07 08 09 0a 0b 0c 0d 0e 0f '' @ newline @
       ''00 48 65 6c 6c 6f 20 57 6f 72 6c 64 00 01 02 03 04 '' @ newline @
       ''10 05 06 '' @ newline @
       ''fhexdump prefix'' @ newline @
       ''     00 01 02 03 04 05 06 07 08 09 0a 0b 0c 0d 0e 0f '' @ newline @
       ''0000 48 65 6c 6c 6f 20 57 6f 72 6c 64 00 01 02 03 04    Hello.Wo rld.....'' @ newline @
       ''0010 05 06                                              ..'' @ newline @
       colour ''31'' @ ''[EMERG] emergency, system is unusable'' @ colour ''0'' @ newline @
       colour ''31'' @ ''[ALERT] alert, action must be taken immediately'' @ colour ''0'' @ newline @
       colour ''31'' @ ''[CRIT] we have some critical conditions'' @ colour ''0'' @ newline @
       colour ''31'' @ ''[ERROR] some error condition'' @ colour ''0'' @ newline @
       colour ''33'' @ ''[WARNING] some warning conditions'' @ colour ''0'' @ newline @
       colour ''37'' @ ''[NOTICE] normal, but significant, condition'' @ colour ''0'' @ newline @
       colour ''32'' @ ''[INFO] informational message'' @ colour ''0'' @ newline @
       colour ''36'' @ ''[DEBUG] printlog.c:25[main] -- debug message'' @ colour ''0'' @ newline))"
proof -
  have line: "dec_nat 25 = ''25''" by code_simp
  show ?thesis
    by (simp add: printlog_main_def example_fdump example_fhexdump log_macros log_levels to_stderr_def line)
qed

end
