(* ===== verification/Sysreg.thy ===== *)
theory Sysreg
  imports Prelude
begin

text \<open>
  \<open>lib/sysreg.c\<close>, \<open>includes/sysreg.h\<close>: access to the FPGA registers that a driver exports under
  \<open>/proc/sysreg\<close>. The driver is not part of the repository: it is a parameter, the answers to the
  calls on its files, with a state of any type. \<open>handles\<close> counts the files and descriptors that are open.
\<close>

subsection \<open>Values as bytes\<close>

definition bytes_of_u32 :: "u32 \<Rightarrow> u8 list" where
  "bytes_of_u32 v = [ucast v, ucast (drop_bit 8 v), ucast (drop_bit 16 v), ucast (drop_bit 24 v)]"

definition u32_of_bytes :: "u8 list \<Rightarrow> u32" where
  "u32_of_bytes bs = foldr (\<lambda>b v. ucast b OR push_bit 8 v) bs 0"

lemma length_bytes_of_u32 [simp]: "length (bytes_of_u32 v) = 4"
  by (simp add: bytes_of_u32_def)

lemma u32_of_bytes_of_u32 [simp]: "u32_of_bytes (bytes_of_u32 v) = v"
proof (rule bit_eqI)
  fix n assume "possible_bit TYPE(u32) n"
  then have "n < 32" by simp
  then consider "n < 8" | "8 \<le> n" "n < 16" | "16 \<le> n" "n < 24" | "24 \<le> n" "n < 32" by linarith
  then show "bit (u32_of_bytes (bytes_of_u32 v)) n = bit v n"
    by cases (auto simp: u32_of_bytes_def bytes_of_u32_def bit_simps)
qed

lemma bytes_of_u32_of_bytes: "length bs = 4 \<Longrightarrow> bytes_of_u32 (u32_of_bytes bs) = bs"
proof -
  assume "length bs = 4"
  then obtain a b c d where bs: "bs = [a, b, c, d]"
    by (auto simp: numeral_eq_Suc length_Suc_conv)
  have "(ucast (u32_of_bytes bs) :: u8) = a" "(ucast (drop_bit 8 (u32_of_bytes bs)) :: u8) = b"
    "(ucast (drop_bit 16 (u32_of_bytes bs)) :: u8) = c" "(ucast (drop_bit 24 (u32_of_bytes bs)) :: u8) = d"
    by (rule bit_eqI; auto simp: bs u32_of_bytes_def bit_simps dest: bit_imp_le_length)+
  then show ?thesis by (simp add: bytes_of_u32_def bs)
qed

text \<open>A transfer into an object of four bytes that brought only the first of them.\<close>

definition overlay :: "u8 list \<Rightarrow> u8 list \<Rightarrow> u8 list" where
  "overlay new old = new @ drop (length new) old"

lemma length_overlay [simp]: "length new \<le> length old \<Longrightarrow> length (overlay new old) = length old"
  by (simp add: overlay_def)

lemma overlay_all [simp]: "length new = length old \<Longrightarrow> overlay new old = new"
  by (simp add: overlay_def)

subsection \<open>The driver and the system calls\<close>

text \<open>
  The answers: whether a file can be opened with \<open>fopen\<close> and with \<open>open\<close>; the bytes that \<open>fread\<close> brings, none after
  an error; the bytes that \<open>read\<close> brings, or an error; the result of \<open>write\<close>. A transfer may bring fewer bytes than
  asked for.
\<close>

record 'd driver =
  on_fopen :: "string \<Rightarrow> 'd \<Rightarrow> bool"
  on_fread :: "string \<Rightarrow> nat \<Rightarrow> 'd \<Rightarrow> u8 list \<times> 'd"
  on_open :: "string \<Rightarrow> 'd \<Rightarrow> bool"
  on_read :: "string \<Rightarrow> nat \<Rightarrow> 'd \<Rightarrow> u8 list option \<times> 'd"
  on_write :: "string \<Rightarrow> u8 list \<Rightarrow> 'd \<Rightarrow> int \<times> 'd"

record 'd system =
  regs :: 'd
  handles :: int

definition c_fopen :: "'d driver \<Rightarrow> string \<Rightarrow> 'd system \<Rightarrow> bool \<times> 'd system" where
  "c_fopen drv path s = (if on_fopen drv path (regs s) then (True, s\<lparr>handles := handles s + 1\<rparr>) else (False, s))"

definition c_fclose :: "'d system \<Rightarrow> 'd system" where
  "c_fclose s = s\<lparr>handles := handles s - 1\<rparr>"

text \<open>\<open>fread(p, 1, n, f)\<close> gives the bytes it read, at most \<open>n\<close>.\<close>

definition c_fread :: "'d driver \<Rightarrow> string \<Rightarrow> nat \<Rightarrow> 'd system \<Rightarrow> u8 list \<times> 'd system" where
  "c_fread drv path n s = (case on_fread drv path n (regs s) of (bs, d) \<Rightarrow> (take n bs, s\<lparr>regs := d\<rparr>))"

text \<open>\<open>open\<close>, \<open>read\<close> and \<open>write\<close> give -1 after an error.\<close>

definition c_open :: "'d driver \<Rightarrow> string \<Rightarrow> 'd system \<Rightarrow> int \<times> 'd system" where
  "c_open drv path s =
     (if on_open drv path (regs s) then (\<bar>handles s\<bar> + 3, s\<lparr>handles := handles s + 1\<rparr>) else (- 1, s))"

definition c_read :: "'d driver \<Rightarrow> string \<Rightarrow> nat \<Rightarrow> 'd system \<Rightarrow> int \<times> u8 list \<times> 'd system" where
  "c_read drv path n s = (case on_read drv path n (regs s) of
       (None, d) \<Rightarrow> (- 1, [], s\<lparr>regs := d\<rparr>)
     | (Some bs, d) \<Rightarrow> (int (length (take n bs)), take n bs, s\<lparr>regs := d\<rparr>))"

definition c_write :: "'d driver \<Rightarrow> string \<Rightarrow> u8 list \<Rightarrow> 'd system \<Rightarrow> int \<times> 'd system" where
  "c_write drv path bs s = (case on_write drv path bs (regs s) of (ret, d) \<Rightarrow> (ret, s\<lparr>regs := d\<rparr>))"

definition c_close :: "'d system \<Rightarrow> 'd system" where
  "c_close s = s\<lparr>handles := handles s - 1\<rparr>"

subsection \<open>The structures of sysreg.h\<close>

text \<open>The bit fields, as gcc lays them out on a little-endian machine, from the low end of \<open>raw\<close>.\<close>

definition dt_day :: "u32 \<Rightarrow> u32" where "dt_day raw = take_bit 5 raw"
definition dt_month :: "u32 \<Rightarrow> u32" where "dt_month raw = take_bit 4 (drop_bit 5 raw)"
definition dt_year :: "u32 \<Rightarrow> u32" where "dt_year raw = take_bit 6 (drop_bit 9 raw)"
definition dt_hour :: "u32 \<Rightarrow> u32" where "dt_hour raw = take_bit 5 (drop_bit 15 raw)"
definition dt_minute :: "u32 \<Rightarrow> u32" where "dt_minute raw = take_bit 6 (drop_bit 20 raw)"
definition dt_second :: "u32 \<Rightarrow> u32" where "dt_second raw = take_bit 6 (drop_bit 26 raw)"

text \<open>\<open>struct sysreg_info_s\<close>; the two names are arrays of four characters.\<close>

record sysreg_info =
  project :: "u8 list"
  board :: "u8 list"
  version :: u32
  datetime :: u32

subsection \<open>sysreg.c\<close>

definition SYSREG_SCRATCH :: string where "SYSREG_SCRATCH = ''/proc/sysreg/scratch''"
definition SYSREG_PROJECT :: string where "SYSREG_PROJECT = ''/proc/sysreg/project''"
definition SYSREG_BOARD :: string where "SYSREG_BOARD = ''/proc/sysreg/board''"
definition SYSREG_VERSION :: string where "SYSREG_VERSION = ''/proc/sysreg/version''"
definition SYSREG_TIMEDATE :: string where "SYSREG_TIMEDATE = ''/proc/sysreg/timedate''"

text \<open>
  The result is the return value, the structure \<open>i\<close> points to, and the state of the system. Each
  \<open>fread\<close> is followed by the test of its result.
\<close>

definition sysreg_read_info :: "'d driver \<Rightarrow> sysreg_info \<Rightarrow> 'd system \<Rightarrow> int \<times> sysreg_info \<times> 'd system" where
  "sysreg_read_info drv i s =
     (case c_fopen drv SYSREG_PROJECT s of (ok, s) \<Rightarrow> if \<not> ok then (- 1, i, s) else
      case c_fread drv SYSREG_PROJECT 4 s of (bs, s) \<Rightarrow>
      let i = i\<lparr>project := overlay bs (project i)\<rparr>; ret = int (length bs); s = c_fclose s in
      if ret < 0 then (ret, i, s) else
      case c_fopen drv SYSREG_BOARD s of (ok, s) \<Rightarrow> if \<not> ok then (- 1, i, s) else
      case c_fread drv SYSREG_BOARD 4 s of (bs, s) \<Rightarrow>
      let i = i\<lparr>board := overlay bs (board i)\<rparr>; ret = int (length bs); s = c_fclose s in
      if ret < 0 then (ret, i, s) else
      case c_fopen drv SYSREG_VERSION s of (ok, s) \<Rightarrow> if \<not> ok then (- 1, i, s) else
      case c_fread drv SYSREG_VERSION 4 s of (bs, s) \<Rightarrow>
      let i = i\<lparr>version := u32_of_bytes (overlay bs (bytes_of_u32 (version i)))\<rparr>; ret = int (length bs); s = c_fclose s in
      if ret < 0 then (ret, i, s) else
      case c_fopen drv SYSREG_TIMEDATE s of (ok, s) \<Rightarrow> if \<not> ok then (- 1, i, s) else
      case c_fread drv SYSREG_TIMEDATE 4 s of (bs, s) \<Rightarrow>
      let i = i\<lparr>datetime := u32_of_bytes (overlay bs (bytes_of_u32 (datetime i)))\<rparr>; ret = int (length bs) in
      (ret, i, c_fclose s))"

text \<open>
  \<open>val\<close> is \<open>NULL\<close> or points to a value; \<open>stale\<close> is what the uninitialised local \<open>retval\<close> holds. The
  result is the return value, \<open>*val\<close> afterwards, and the state.
\<close>

definition sysreg_read_scratch :: "'d driver \<Rightarrow> u32 \<Rightarrow> u32 option \<Rightarrow> 'd system \<Rightarrow> int \<times> u32 option \<times> 'd system" where
  "sysreg_read_scratch drv stale val s =
     (case c_open drv SYSREG_SCRATCH s of (fd, s) \<Rightarrow>
      if fd < 0 then (fd, val, s) else
      case c_read drv SYSREG_SCRATCH 4 s of (ret, bs, s) \<Rightarrow>
      let retval = u32_of_bytes (overlay bs (bytes_of_u32 stale)); s = c_close s in
      if ret < 0 then (ret, val, s)
      else (0, if val \<noteq> None then Some retval else None, s))"

definition sysreg_write_scratch :: "'d driver \<Rightarrow> u32 \<Rightarrow> 'd system \<Rightarrow> int \<times> 'd system" where
  "sysreg_write_scratch drv val s =
     (case c_open drv SYSREG_SCRATCH s of (fd, s) \<Rightarrow>
      if fd < 0 then (fd, s) else
      case c_write drv SYSREG_SCRATCH (bytes_of_u32 val) s of (ret, s) \<Rightarrow> (ret, c_close s))"

subsection \<open>Properties\<close>

lemma length_c_fread: "c_fread drv path n s = (bs, s') \<Longrightarrow> length bs \<le> n"
  by (auto simp: c_fread_def split: prod.splits)

lemma fd_not_negative [simp]: "\<not> \<bar>k\<bar> + 3 < (0 :: int)"
  by simp

lemmas stdio = c_fopen_def c_fclose_def c_fread_def

text \<open>\<open>sysreg_read_info\<close>, when the driver's state is the same after every read. It returns -1 when one of its four files
  cannot be opened, with the fields before that one already overwritten, and otherwise the number of bytes the last
  read brought. A read that fails or brings too few bytes is not noticed: the bytes that did not
  come keep their old value. No file stays open.
\<close>

theorem sysreg_read_info_branches:
  assumes "\<And>path. on_fread drv path 4 (regs s) = (came path, regs s)"
  shows "sysreg_read_info drv i s =
     (let i1 = i\<lparr>project := overlay (take 4 (came SYSREG_PROJECT)) (project i)\<rparr>;
          i2 = i1\<lparr>board := overlay (take 4 (came SYSREG_BOARD)) (board i)\<rparr>;
          i3 = i2\<lparr>version := u32_of_bytes (overlay (take 4 (came SYSREG_VERSION)) (bytes_of_u32 (version i)))\<rparr>;
          i4 = i3\<lparr>datetime := u32_of_bytes (overlay (take 4 (came SYSREG_TIMEDATE)) (bytes_of_u32 (datetime i)))\<rparr>
      in if \<not> on_fopen drv SYSREG_PROJECT (regs s) then (- 1, i, s)
         else if \<not> on_fopen drv SYSREG_BOARD (regs s) then (- 1, i1, s)
         else if \<not> on_fopen drv SYSREG_VERSION (regs s) then (- 1, i2, s)
         else if \<not> on_fopen drv SYSREG_TIMEDATE (regs s) then (- 1, i3, s)
         else (int (min 4 (length (came SYSREG_TIMEDATE))), i4, s))"
  by (simp add: sysreg_read_info_def stdio Let_def assms min.commute)

theorem sysreg_read_info_branches_witness:
  "sysreg_read_info \<lparr>on_fopen = \<lambda>p d. True, on_fread = \<lambda>p n d. ([1, 2], d), on_open = \<lambda>p d. False, on_read = \<lambda>p n d. (None, d),
       on_write = \<lambda>p bs d. (- 1, d)\<rparr> \<lparr>project = [9, 9, 9, 9], board = [8, 8, 8, 8], version = 0, datetime = 0\<rparr>
       \<lparr>regs = (), handles = 0\<rparr> =
     (2, \<lparr>project = [1, 2, 9, 9], board = [1, 2, 8, 8], version = 0x201, datetime = 0x201\<rparr>, \<lparr>regs = (), handles = 0\<rparr>)"
proof -
  have "u32_of_bytes (overlay [1, 2] (bytes_of_u32 0)) = 0x201" by code_simp
  then show ?thesis
    by (subst sysreg_read_info_branches [where came = "\<lambda>_. [1, 2]"]) (simp_all add: overlay_def)
qed

text \<open>A read that brought the first \<open>k\<close> bytes of a value leaves the others of the variable as they were.\<close>

lemma overlay_bits:
  assumes "k \<le> 4"
  shows "u32_of_bytes (overlay (take k (bytes_of_u32 v)) (bytes_of_u32 w)) = (v AND mask (8 * k)) OR (w AND NOT (mask (8 * k)))"
proof (rule bit_eqI)
  fix n assume "possible_bit TYPE(u32) n"
  then have "n < 32" by simp
  then consider "n < 8" | "8 \<le> n" "n < 16" | "16 \<le> n" "n < 24" | "24 \<le> n" "n < 32" by linarith
  moreover have "k = 0 \<or> k = 1 \<or> k = 2 \<or> k = 3 \<or> k = 4" using assms by linarith
  ultimately show "bit (u32_of_bytes (overlay (take k (bytes_of_u32 v)) (bytes_of_u32 w))) n =
      bit ((v AND mask (8 * k)) OR (w AND NOT (mask (8 * k)))) n"
    by cases (elim disjE; auto simp: overlay_def u32_of_bytes_def bytes_of_u32_def bit_simps)+
qed

text \<open>C35: the scratch register, for every driver. \<open>sysreg_write_scratch\<close> hands the driver the four bytes of its argument,
  low byte first, and returns its answer; without the driver both calls return -1 and change nothing. When the
  driver then answers a read with the bytes that were written, \<open>sysreg_read_scratch\<close> returns 0 and the caller gets the
  value back, through a pointer or none. But a read that brings only the first \<open>k\<close> of the bytes, or none, is
  a success too: the higher bits of the result are then those of an uninitialised variable. A read that fails
  returns -1 and leaves the caller's variable alone. No descriptor stays open.
\<close>

theorem sysreg_scratch_roundtrip:
  "if \<not> on_open drv SYSREG_SCRATCH (regs s)
   then sysreg_write_scratch drv v s = (- 1, s) \<and> sysreg_read_scratch drv stale val s = (- 1, val, s)
   else case on_write drv SYSREG_SCRATCH (bytes_of_u32 v) (regs s) of (ret, d) \<Rightarrow>
     sysreg_write_scratch drv v s = (ret, s\<lparr>regs := d\<rparr>) \<and>
     (on_open drv SYSREG_SCRATCH d \<longrightarrow> (case on_read drv SYSREG_SCRATCH 4 d of
         (None, d') \<Rightarrow> sysreg_read_scratch drv stale val (s\<lparr>regs := d\<rparr>) = (- 1, val, s\<lparr>regs := d'\<rparr>)
       | (Some bs, d') \<Rightarrow>
           (bs = bytes_of_u32 v \<longrightarrow>
             sysreg_read_scratch drv stale val (s\<lparr>regs := d\<rparr>) = (0, map_option (\<lambda>_. v) val, s\<lparr>regs := d'\<rparr>)) \<and>
           (\<forall>k \<le> 4. bs = take k (bytes_of_u32 v) \<longrightarrow>
             sysreg_read_scratch drv stale val (s\<lparr>regs := d\<rparr>) =
               (0, map_option (\<lambda>_. (v AND mask (8 * k)) OR (stale AND NOT (mask (8 * k)))) val, s\<lparr>regs := d'\<rparr>))))"
proof -
  have read: "sysreg_read_scratch drv stale val (s\<lparr>regs := d\<rparr>) =
      (0, map_option (\<lambda>_. (v AND mask (8 * k)) OR (stale AND NOT (mask (8 * k)))) val, s\<lparr>regs := d'\<rparr>)"
    if "on_open drv SYSREG_SCRATCH d" "on_read drv SYSREG_SCRATCH 4 d = (Some (take k (bytes_of_u32 v)), d')" "k \<le> 4" for d d' k
    using that overlay_bits [OF that(3), of v stale]
    by (cases val) (simp_all add: sysreg_read_scratch_def c_open_def c_read_def c_close_def Let_def)
  have "mask 32 = (- 1 :: u32)" by (simp add: mask_eq_exp_minus_1)
  then have all: "(v AND mask (8 * 4)) OR (stale AND NOT (mask (8 * 4))) = v" by simp
  have four: "take 4 (bytes_of_u32 v) = bytes_of_u32 v" by simp
  have full: "sysreg_read_scratch drv stale val (s\<lparr>regs := d\<rparr>) = (0, map_option (\<lambda>_. v) val, s\<lparr>regs := d'\<rparr>)"
    if "on_open drv SYSREG_SCRATCH d" "on_read drv SYSREG_SCRATCH 4 d = (Some (bytes_of_u32 v), d')" for d d'
    using read [of d 4 d'] that unfolding all four by simp
  show ?thesis
    using read full
    by (auto simp: sysreg_write_scratch_def c_open_def c_write_def c_close_def sysreg_read_scratch_def c_read_def Let_def
        split: prod.splits option.splits)
qed

text \<open>A driver whose state is one register, of which a read brings as many bytes as asked for, but at most \<open>n\<close>.\<close>

definition one_register :: "nat \<Rightarrow> u8 list driver" where
  "one_register n = \<lparr>on_fopen = \<lambda>p d. False, on_fread = \<lambda>p k d. ([], d), on_open = \<lambda>p d. p = SYSREG_SCRATCH,
     on_read = \<lambda>p k d. (Some (take (min n k) d), d), on_write = \<lambda>p bs d. (int (length bs), bs)\<rparr>"

theorem sysreg_scratch_roundtrip_witness:
  "sysreg_read_scratch (one_register 4) 7 (Some 0) (snd (sysreg_write_scratch (one_register 4) 0x12345678 \<lparr>regs = [], handles = 0\<rparr>)) =
     (0, Some 0x12345678, \<lparr>regs = bytes_of_u32 0x12345678, handles = 0\<rparr>) \<and>
   sysreg_read_scratch (one_register 1) 0xffff (Some 0) (snd (sysreg_write_scratch (one_register 1) 0x12345678 \<lparr>regs = [], handles = 0\<rparr>)) =
     (0, Some 0xff78, \<lparr>regs = bytes_of_u32 0x12345678, handles = 0\<rparr>)"
proof -
  let ?s = "\<lparr>regs = [], handles = 0 :: int\<rparr>"
  have "(0x12345678 AND mask 8) OR (0xffff AND NOT (mask 8)) = (0xff78 :: u32)" by code_simp
  then show ?thesis
    using sysreg_scratch_roundtrip [of "one_register 4" ?s "0x12345678" 7 "Some 0"]
      sysreg_scratch_roundtrip [of "one_register 1" ?s "0x12345678" "0xffff" "Some 0"]
    by (auto simp: one_register_def dest!: spec [where x = "1 :: nat"])
qed

text \<open>The register from its fields.\<close>

definition dt_pack :: "u32 \<Rightarrow> u32 \<Rightarrow> u32 \<Rightarrow> u32 \<Rightarrow> u32 \<Rightarrow> u32 \<Rightarrow> u32" where
  "dt_pack d m y h mi sec = d OR push_bit 5 m OR push_bit 9 y OR push_bit 15 h OR push_bit 20 mi OR push_bit 26 sec"

lemma no_bit_above: "unat (x :: u32) < 2 ^ k \<Longrightarrow> k \<le> n \<Longrightarrow> \<not> bit x n"
proof -
  assume x: "unat x < 2 ^ k" and k: "k \<le> n"
  have "take_bit k (unat x) = unat x" using x by (simp add: take_bit_nat_eq_self)
  then have "\<not> bit (unat x) n" using k by (metis bit_take_bit_iff not_less)
  then show ?thesis by (simp add: bit_unsigned_iff)
qed

lemmas dt_fields = dt_day_def dt_month_def dt_year_def dt_hour_def dt_minute_def dt_second_def

text \<open>The six bit fields tile the register: the register is determined by them, and a register made
  of a date and a time within the widths shows that date and time.
\<close>

theorem datetime_fields_roundtrip:
  assumes "unat d < 2 ^ 5" and "unat m < 2 ^ 4" and "unat y < 2 ^ 6"
    and "unat h < 2 ^ 5" and "unat mi < 2 ^ 6" and "unat sec < 2 ^ 6"
  shows "dt_pack (dt_day raw) (dt_month raw) (dt_year raw) (dt_hour raw) (dt_minute raw) (dt_second raw) = raw \<and>
    (dt_day (dt_pack d m y h mi sec), dt_month (dt_pack d m y h mi sec), dt_year (dt_pack d m y h mi sec),
     dt_hour (dt_pack d m y h mi sec), dt_minute (dt_pack d m y h mi sec), dt_second (dt_pack d m y h mi sec)) =
    (d, m, y, h, mi, sec)"
proof
  show "dt_pack (dt_day raw) (dt_month raw) (dt_year raw) (dt_hour raw) (dt_minute raw) (dt_second raw) = raw"
  proof (rule bit_eqI)
    fix n assume "possible_bit TYPE(u32) n"
    then consider "n < 9" | "9 \<le> n" "n < 15" | "15 \<le> n" "n < 20" | "20 \<le> n" "n < 26" | "26 \<le> n" "n < 32"
      by fastforce
    then show "bit (dt_pack (dt_day raw) (dt_month raw) (dt_year raw) (dt_hour raw) (dt_minute raw) (dt_second raw)) n =
        bit raw n"
      by cases (auto simp: dt_pack_def dt_fields bit_simps not_less)
  qed
  note above = assms [THEN no_bit_above]
  let ?p = "dt_pack d m y h mi sec"
  have "bit (dt_day ?p) n = bit d n" for n
    by (cases "n < 5") (simp_all add: above dt_pack_def dt_fields bit_simps)
  moreover have "bit (dt_month ?p) n = bit m n" for n
    by (cases "n < 4") (simp_all add: above dt_pack_def dt_fields bit_simps)
  moreover have "bit (dt_year ?p) n = bit y n" for n
    by (cases "n < 6") (simp_all add: above dt_pack_def dt_fields bit_simps)
  moreover have "bit (dt_hour ?p) n = bit h n" for n
    by (cases "n < 5") (simp_all add: above dt_pack_def dt_fields bit_simps)
  moreover have "bit (dt_minute ?p) n = bit mi n" for n
    by (cases "n < 6") (simp_all add: above dt_pack_def dt_fields bit_simps)
  moreover have "bit (dt_second ?p) n = bit sec n" for n
    by (cases "n < 6") (simp_all add: above dt_pack_def dt_fields bit_simps)
  ultimately show "(dt_day ?p, dt_month ?p, dt_year ?p, dt_hour ?p, dt_minute ?p, dt_second ?p) = (d, m, y, h, mi, sec)"
    by (simp add: bit_eq_iff)
qed

text \<open>13:37:59 on the 24th of December 25.\<close>

theorem datetime_fields_roundtrip_witness:
  "dt_pack (dt_day 7) (dt_month 7) (dt_year 7) (dt_hour 7) (dt_minute 7) (dt_second 7) = 7 \<and>
    (dt_day (dt_pack 24 12 25 13 37 59), dt_month (dt_pack 24 12 25 13 37 59), dt_year (dt_pack 24 12 25 13 37 59),
     dt_hour (dt_pack 24 12 25 13 37 59), dt_minute (dt_pack 24 12 25 13 37 59), dt_second (dt_pack 24 12 25 13 37 59)) =
    (24, 12, 25, 13, 37, 59)"
  by (rule datetime_fields_roundtrip) simp_all

end
