(* ===== verification/C_Strtol.thy ===== *)
theory C_Strtol
  imports Prelude
begin

text \<open>
  The functions of the C library that read numbers from arguments: \<open>strtoul\<close> with base 0 and \<open>atoi\<close>.
\<close>

text \<open>\<open>strtoul(s, NULL, 0)\<close>: white space, a sign, a prefix that selects the base, and digits; the value
  saturates at \<open>ULONG_MAX\<close>, and a sign negates it modulo \<open>2 ^ 64\<close>.\<close>

definition is_space :: "char \<Rightarrow> bool" where
  "is_space c \<longleftrightarrow> c = CHR '' '' \<or> (9 \<le> (of_char c :: nat) \<and> (of_char c :: nat) \<le> 13)"

definition digit_value_of :: "char \<Rightarrow> nat" where
  "digit_value_of c = (let n = of_char c in
     if 48 \<le> n \<and> n \<le> 57 then n - 48 else if 97 \<le> n \<and> n \<le> 122 then n - 87
     else if 65 \<le> n \<and> n \<le> 90 then n - 55 else 36)"

fun number :: "nat \<Rightarrow> nat \<Rightarrow> string \<Rightarrow> nat" where
  "number b acc [] = acc"
| "number b acc (c # cs) = (if digit_value_of c < b then number b (acc * b + digit_value_of c) cs else acc)"

definition unsigned_number :: "string \<Rightarrow> nat" where
  "unsigned_number s = (case s of
     CHR ''0'' # x # d # cs \<Rightarrow> if (x = CHR ''x'' \<or> x = CHR ''X'') \<and> digit_value_of d < 16
       then number 16 0 (d # cs) else number 8 0 s
   | CHR ''0'' # _ \<Rightarrow> number 8 0 s
   | _ \<Rightarrow> number 10 0 s)"

definition strtoul :: "string \<Rightarrow> u64" where
  "strtoul s = (let s = dropWhile is_space s in case s of
     CHR ''-'' # cs \<Rightarrow> if unsigned_number cs < 2 ^ 64 then - of_nat (unsigned_number cs) else - 1
   | CHR ''+'' # cs \<Rightarrow> if unsigned_number cs < 2 ^ 64 then of_nat (unsigned_number cs) else - 1
   | _ \<Rightarrow> if unsigned_number s < 2 ^ 64 then of_nat (unsigned_number s) else - 1)"

text \<open>\<open>atoi\<close>: the value must fit in an \<open>int\<close>, otherwise the call is undefined.\<close>

definition atoi :: "string \<Rightarrow> int option" where
  "atoi s = (let s = dropWhile is_space s;
       n = (case s of CHR ''-'' # cs \<Rightarrow> - int (number 10 0 cs) | CHR ''+'' # cs \<Rightarrow> int (number 10 0 cs)
            | _ \<Rightarrow> int (number 10 0 s))
     in if - (2 ^ 31) \<le> n \<and> n < 2 ^ 31 then Some n else None)"

text \<open>A number printed with \<open>%d\<close> is read back.\<close>

lemma digit_value_digit: "d < 10 \<Longrightarrow> digit_value_of (digit d) = d"
  by (simp add: digit_def digit_value_of_def Let_def)

lemma number_append: "\<forall>c \<in> set xs. digit_value_of c < b \<Longrightarrow> number b acc (xs @ ys) = number b (number b acc xs) ys"
  by (induction xs arbitrary: acc) auto

lemma dec_nat_digits: "c \<in> set (dec_nat n) \<Longrightarrow> digit_value_of c < 10"
  unfolding dec_nat_def
proof (induction n rule: less_induct)
  case (less n)
  then show ?case
    using less.IH [of "n div 10"]
    by (cases "n < 10") (auto simp: numeral_in.simps [of 10 n] digit_value_digit)
qed

lemma number_dec_nat: "number 10 0 (dec_nat n) = n"
  unfolding dec_nat_def
proof (induction n rule: less_induct)
  case (less n)
  show ?case
  proof (cases "n < 10")
    case True
    then show ?thesis by (simp add: numeral_in.simps [of 10 n] digit_value_digit)
  next
    case False
    then have "number 10 0 (numeral_in 10 (n div 10)) = n div 10" by (intro less.IH) simp
    moreover have "\<forall>c \<in> set (numeral_in 10 (n div 10)). digit_value_of c < 10"
      using dec_nat_digits [of _ "n div 10"] by (simp add: dec_nat_def)
    ultimately show ?thesis
      using False by (simp add: numeral_in.simps [of 10 n] number_append digit_value_digit)
  qed
qed

end
