(* ===== verification/Sysreg_Example.thy ===== *)
theory Sysreg_Example
  imports Sysreg C_Strtol
begin

text \<open>
  \<open>examples/sysreg/sysreg.c\<close>: writes its argument to the scratch register, prints the information
  registers and reads the scratch register back. Messages on \<open>stderr\<close> are not modelled.
\<close>

subsection \<open>The conversions of \<open>printf\<close>\<close>

text \<open>\<open>%.4s\<close> of an array of characters, \<open>%08X\<close> and \<open>%02u\<close>.\<close>

definition first_chars :: "nat \<Rightarrow> u8 list \<Rightarrow> string" where
  "first_chars n bs = map (\<lambda>b. char_of (unat b)) (takeWhile (\<lambda>b. b \<noteq> 0) (take n bs))"

definition upper :: "char \<Rightarrow> char" where
  "upper c = (if 97 \<le> (of_char c :: nat) \<and> (of_char c :: nat) \<le> 122 then char_of ((of_char c :: nat) - 32) else c)"

definition hex_upper8 :: "u32 \<Rightarrow> string" where
  "hex_upper8 v = pad_left (CHR ''0'') 8 (map upper (hex_nat (unat v)))"

definition dec2 :: "u32 \<Rightarrow> string" where
  "dec2 v = pad_left (CHR ''0'') 2 (dec_nat (unat v))"

subsection \<open>The program\<close>

definition info_text :: "sysreg_info \<Rightarrow> string" where
  "info_text i = first_chars 4 (project i) @ newline @ first_chars 4 (board i) @ newline @
     hex_upper8 (version i) @ newline @
     dec2 (dt_day (datetime i)) @ '':'' @ dec2 (dt_month (datetime i)) @ '':'' @ dec2 (dt_year (datetime i)) @ newline @
     dec2 (dt_hour (datetime i)) @ ''.'' @ dec2 (dt_minute (datetime i)) @ ''.'' @ dec2 (dt_second (datetime i)) @ newline"

text \<open>
  \<open>argv\<close> without the name of the program; \<open>i\<close> and \<open>stale\<close> are what the uninitialised locals hold. The
  result is the exit status, the output, and the state of the system.
\<close>

definition sysreg_main :: "'d driver \<Rightarrow> sysreg_info \<Rightarrow> u32 \<Rightarrow> string list \<Rightarrow> 'd system \<Rightarrow> int \<times> string \<times> 'd system" where
  "sysreg_main drv i stale args s =
     (case (case args of [] \<Rightarrow> (0, s) | a # _ \<Rightarrow> sysreg_write_scratch drv (ucast (strtoul a)) s) of (ret, s) \<Rightarrow>
      if ret < 0 then (- 1, [], s) else
      case sysreg_read_info drv i s of (ret, i, s) \<Rightarrow>
      if ret < 0 then (- 1, [], s) else
      let out = info_text i in
      case sysreg_read_scratch drv stale (Some stale) s of (ret, val, s) \<Rightarrow>
      if ret < 0 then (- 1, out, s)
      else (0, out @ hex_upper8 (the val) @ newline, s))"

subsection \<open>What it prints\<close>

text \<open>
  What the program relies on: in its good states a driver opens the five files, brings the four bytes of a register for
  each read, and takes a write to the scratch register, which it then holds, and which changes no other register.
  \<open>reg d path\<close> are the bytes a register holds.
\<close>

definition infos :: "string list" where
  "infos = [SYSREG_PROJECT, SYSREG_BOARD, SYSREG_VERSION, SYSREG_TIMEDATE]"

definition working :: "'d driver \<Rightarrow> ('d \<Rightarrow> bool) \<Rightarrow> ('d \<Rightarrow> string \<Rightarrow> u8 list) \<Rightarrow> bool" where
  "working drv good reg \<longleftrightarrow> (\<forall>d. good d \<longrightarrow>
     (\<forall>p \<in> set infos. on_fopen drv p d \<and> length (reg d p) = 4 \<and>
       (\<exists>d'. on_fread drv p 4 d = (reg d p, d') \<and> good d' \<and> reg d' = reg d)) \<and>
     on_open drv SYSREG_SCRATCH d \<and> length (reg d SYSREG_SCRATCH) = 4 \<and>
     (\<exists>d'. on_read drv SYSREG_SCRATCH 4 d = (Some (reg d SYSREG_SCRATCH), d') \<and> good d' \<and> reg d' = reg d) \<and>
     (\<forall>bs. length bs = 4 \<longrightarrow> (\<exists>d'. on_write drv SYSREG_SCRATCH bs d = (4, d') \<and> good d' \<and>
       reg d' = (reg d)(SYSREG_SCRATCH := bs))))"

definition info_of :: "(string \<Rightarrow> u8 list) \<Rightarrow> sysreg_info" where
  "info_of r = \<lparr>project = r SYSREG_PROJECT, board = r SYSREG_BOARD,
     version = u32_of_bytes (r SYSREG_VERSION), datetime = u32_of_bytes (r SYSREG_TIMEDATE)\<rparr>"

lemmas sysreg_paths = SYSREG_SCRATCH_def SYSREG_PROJECT_def SYSREG_BOARD_def SYSREG_VERSION_def SYSREG_TIMEDATE_def

lemma working_fread:
  assumes "working drv good reg" and "good d" and "p \<in> set infos"
  obtains d' where "on_fread drv p 4 d = (reg d p, d')" and "good d'" and "reg d' = reg d"
    and "on_fopen drv p d" and "length (reg d p) = 4"
  using assms unfolding working_def by meson

lemma read_info_working:
  assumes w: "working drv good reg" and g: "good (regs s)" and l: "length (project i) = 4" "length (board i) = 4"
  obtains d where "sysreg_read_info drv i s = (4, info_of (reg (regs s)), s\<lparr>regs := d\<rparr>)" and "good d" and "reg d = reg (regs s)"
proof -
  have p: "SYSREG_PROJECT \<in> set infos" "SYSREG_BOARD \<in> set infos" "SYSREG_VERSION \<in> set infos" "SYSREG_TIMEDATE \<in> set infos"
    by (simp_all add: infos_def)
  obtain d1 where d1: "on_fread drv SYSREG_PROJECT 4 (regs s) = (reg (regs s) SYSREG_PROJECT, d1)"
    "good d1" "reg d1 = reg (regs s)" "on_fopen drv SYSREG_PROJECT (regs s)" "length (reg (regs s) SYSREG_PROJECT) = 4"
    by (rule working_fread [OF w g p(1)])
  obtain d2 where d2: "on_fread drv SYSREG_BOARD 4 d1 = (reg d1 SYSREG_BOARD, d2)"
    "good d2" "reg d2 = reg d1" "on_fopen drv SYSREG_BOARD d1" "length (reg d1 SYSREG_BOARD) = 4"
    by (rule working_fread [OF w d1(2) p(2)])
  obtain d3 where d3: "on_fread drv SYSREG_VERSION 4 d2 = (reg d2 SYSREG_VERSION, d3)"
    "good d3" "reg d3 = reg d2" "on_fopen drv SYSREG_VERSION d2" "length (reg d2 SYSREG_VERSION) = 4"
    by (rule working_fread [OF w d2(2) p(3)])
  obtain d4 where d4: "on_fread drv SYSREG_TIMEDATE 4 d3 = (reg d3 SYSREG_TIMEDATE, d4)"
    "good d4" "reg d4 = reg d3" "on_fopen drv SYSREG_TIMEDATE d3" "length (reg d3 SYSREG_TIMEDATE) = 4"
    by (rule working_fread [OF w d3(2) p(4)])
  have "sysreg_read_info drv i s = (4, info_of (reg (regs s)), s\<lparr>regs := d4\<rparr>)"
    using d1 d2 d3 d4 l by (simp add: sysreg_read_info_def stdio info_of_def Let_def)
  then show thesis using d1 d2 d3 d4 that by simp
qed

lemma write_scratch_working:
  assumes "working drv good reg" and "good (regs s)"
  obtains d where "sysreg_write_scratch drv v s = (4, s\<lparr>regs := d\<rparr>)" and "good d"
    and "reg d = (reg (regs s))(SYSREG_SCRATCH := bytes_of_u32 v)"
proof -
  have "length (bytes_of_u32 v) = 4" by simp
  then obtain d where "on_open drv SYSREG_SCRATCH (regs s)" "on_write drv SYSREG_SCRATCH (bytes_of_u32 v) (regs s) = (4, d)" "good d"
    "reg d = (reg (regs s))(SYSREG_SCRATCH := bytes_of_u32 v)"
    using assms unfolding working_def by meson
  then show thesis using that by (simp add: sysreg_write_scratch_def c_open_def c_write_def c_close_def)
qed

lemma read_scratch_working:
  assumes "working drv good reg" and "good (regs s)"
  obtains d where "sysreg_read_scratch drv stale (Some x) s = (0, Some (u32_of_bytes (reg (regs s) SYSREG_SCRATCH)), s\<lparr>regs := d\<rparr>)"
proof -
  obtain d where "on_open drv SYSREG_SCRATCH (regs s)" "length (reg (regs s) SYSREG_SCRATCH) = 4"
    "on_read drv SYSREG_SCRATCH 4 (regs s) = (Some (reg (regs s) SYSREG_SCRATCH), d)"
    using assms unfolding working_def by meson
  then show thesis
    using that by (simp add: sysreg_read_scratch_def c_open_def c_read_def c_close_def Let_def)
qed

lemma info_of_other [simp]: "info_of (r(SYSREG_SCRATCH := bs)) = info_of r"
  by (simp add: info_of_def sysreg_paths)

text \<open>C34: with a working driver the program ends with status 0, whatever its uninitialised variables hold:
  it prints the information registers and then its argument, or without an argument the scratch
  register, as eight digits in base 16, and leaves no file open.
\<close>

theorem sysreg_main_output:
  assumes "working drv good reg" and "good (regs s)"
    and "length (project i) = 4" and "length (board i) = 4"
  shows "\<exists>s1. sysreg_main drv i stale args s = (0, info_text (info_of (reg (regs s))) @
      hex_upper8 (case args of [] \<Rightarrow> u32_of_bytes (reg (regs s) SYSREG_SCRATCH) | a # _ \<Rightarrow> ucast (strtoul a)) @ newline, s1) \<and>
    handles s1 = handles s"
proof -
  obtain ret d where w: "(case args of [] \<Rightarrow> (0, s) | a # _ \<Rightarrow> sysreg_write_scratch drv (ucast (strtoul a)) s) = (ret, s\<lparr>regs := d\<rparr>)"
    and ret: "0 \<le> ret" and d: "good d" "info_of (reg d) = info_of (reg (regs s))"
      "u32_of_bytes (reg d SYSREG_SCRATCH) = (case args of [] \<Rightarrow> u32_of_bytes (reg (regs s) SYSREG_SCRATCH) | a # _ \<Rightarrow> ucast (strtoul a))"
  proof (cases args)
    case Nil
    then show thesis using assms(2) by (intro that [of 0 "regs s"]) simp_all
  next
    case (Cons a as)
    obtain d where "sysreg_write_scratch drv (ucast (strtoul a)) s = (4, s\<lparr>regs := d\<rparr>)" "good d"
      "reg d = (reg (regs s))(SYSREG_SCRATCH := bytes_of_u32 (ucast (strtoul a)))"
      using write_scratch_working [OF assms(1,2)] by blast
    then show thesis using Cons by (intro that [of 4 d]) simp_all
  qed
  obtain d1 where i: "sysreg_read_info drv i (s\<lparr>regs := d\<rparr>) = (4, info_of (reg d), s\<lparr>regs := d1\<rparr>)" "good d1" "reg d1 = reg d"
    using read_info_working [OF assms(1), of "s\<lparr>regs := d\<rparr>" i] d(1) assms(3,4) by auto
  obtain d2 where r: "sysreg_read_scratch drv stale (Some stale) (s\<lparr>regs := d1\<rparr>) =
      (0, Some (u32_of_bytes (reg d SYSREG_SCRATCH)), s\<lparr>regs := d2\<rparr>)"
    using read_scratch_working [OF assms(1), of "s\<lparr>regs := d1\<rparr>" stale stale] i(2,3) by auto
  show ?thesis using w ret d i r by (simp add: sysreg_main_def Let_def)
qed

text \<open>
  A driver that keeps its registers in a function: the argument \<open>0x2a\<close>; the registers hold \<open>IPv4\<close>, \<open>ab\<close>, version 5 and
  the first second of the first of January.
\<close>

definition plain_driver :: "(string \<Rightarrow> u8 list) driver" where
  "plain_driver = \<lparr>on_fopen = \<lambda>p r. True, on_fread = \<lambda>p n r. (take n (r p), r), on_open = \<lambda>p r. True,
     on_read = \<lambda>p n r. (Some (take n (r p)), r), on_write = \<lambda>p bs r. (int (length bs), r(p := bs))\<rparr>"

lemma plain_driver_working: "working plain_driver (\<lambda>r. \<forall>p. length (r p) = 4) (\<lambda>r. r)"
  by (simp add: working_def plain_driver_def)

definition example_regs :: "string \<Rightarrow> u8 list" where
  "example_regs = (\<lambda>_. [0, 0, 0, 0])(SYSREG_PROJECT := [73, 80, 118, 52], SYSREG_BOARD := [97, 98, 0, 0],
     SYSREG_VERSION := [5, 0, 0, 0], SYSREG_TIMEDATE := [33, 0, 0, 4])"

lemma example_info:
  "info_of example_regs = \<lparr>project = [73, 80, 118, 52], board = [97, 98, 0, 0], version = 5, datetime = 0x4000021\<rparr>"
  by (simp add: info_of_def example_regs_def sysreg_paths u32_of_bytes_def)

lemma example_text:
  "info_text (info_of example_regs) = ''IPv4'' @ newline @ ''ab'' @ newline @ ''00000005'' @ newline @
     ''01:01:00'' @ newline @ ''00.00.01'' @ newline"
proof -
  have "dt_day 0x4000021 = 1" "dt_month 0x4000021 = 1" "dt_year 0x4000021 = 0"
    "dt_hour 0x4000021 = 0" "dt_minute 0x4000021 = 0" "dt_second 0x4000021 = 1"
    by code_simp+
  moreover have "dec2 0 = ''00''" "dec2 1 = ''01''" "hex_upper8 5 = ''00000005''" by code_simp+
  moreover have "first_chars 4 [73, 80, 118, 52] = ''IPv4''" "first_chars 4 [97, 98, 0, 0] = ''ab''" by code_simp+
  ultimately show ?thesis by (simp add: info_text_def example_info)
qed

lemma example_argument: "hex_upper8 (ucast (strtoul ''0x2a'')) = ''0000002A''"
proof -
  have "strtoul ''0x2a'' = 42"
    by (simp add: strtoul_def is_space_def unsigned_number_def digit_value_of_def)
  moreover have "hex_upper8 42 = ''0000002A''" by code_simp
  ultimately show ?thesis by simp
qed

theorem sysreg_main_output_witness:
  "\<exists>s1. sysreg_main plain_driver \<lparr>project = [1, 2, 3, 4], board = [1, 2, 3, 4], version = 9, datetime = 9\<rparr> 7 [''0x2a'']
       \<lparr>regs = example_regs, handles = 0\<rparr> =
     (0, ''IPv4'' @ newline @ ''ab'' @ newline @ ''00000005'' @ newline @ ''01:01:00'' @ newline @
         ''00.00.01'' @ newline @ ''0000002A'' @ newline, s1) \<and> handles s1 = 0"
  using sysreg_main_output [OF plain_driver_working, of "\<lparr>regs = example_regs, handles = 0\<rparr>"
      "\<lparr>project = [1, 2, 3, 4], board = [1, 2, 3, 4], version = 9, datetime = 9\<rparr>" 7 "[''0x2a'']"]
  by (simp add: example_text example_argument) (simp add: example_regs_def)

end
