(* ===== verification/Timestamp.thy ===== *)
theory Timestamp
  imports C_Timer
begin

text \<open>
  \<open>lib/timestamp.c\<close>: a stop watch on a POSIX timer that runs down from \<open>INT32_MAX\<close> seconds. \<open>now\<close> is the clock at the
  moment of a system call.
\<close>

subsection \<open>timestamp.c\<close>

definition INT32_MAX :: int where "INT32_MAX = 2147483647"
definition TIME_NS_IN_S :: int where "TIME_NS_IN_S = 1000000000"

definition timestamp_reset :: "int \<Rightarrow> nat \<Rightarrow> timers \<Rightarrow> int \<times> timers" where
  "timestamp_reset now tid T =
     (let new_value = \<lparr>it_interval = \<lparr>tv_sec = INT32_MAX, tv_nsec = 0\<rparr>, it_value = \<lparr>tv_sec = INT32_MAX, tv_nsec = 0\<rparr>\<rparr>
      in case timer_settime now tid new_value T of (ret, _, T) \<Rightarrow> (ret, T))"

text \<open>\<open>granted\<close> is the timer the system provides; it is what \<open>*tid\<close> holds afterwards.\<close>

definition timestamp_create :: "nat option \<Rightarrow> int \<Rightarrow> timers \<Rightarrow> int \<times> timers" where
  "timestamp_create granted now T =
     (case timer_create granted T of (ret, T) \<Rightarrow>
      if ret < 0 then (- 1, T) else timestamp_reset now (the granted) T)"

definition timestamp_destory :: "nat \<Rightarrow> timers \<Rightarrow> timers" where
  "timestamp_destory tid T = timer_delete tid T"

text \<open>
  \<open>curr_value\<close> is \<^term>\<open>None\<close> for \<open>NULL\<close>, which \<open>timer_gettime\<close> refuses. The difference is taken in \<open>long\<close>,
  stored in a \<open>uint64_t\<close> and passed to \<open>ldiv\<close> as a \<open>long\<close>.
\<close>

definition timestamp_elapsed :: "int \<Rightarrow> nat \<Rightarrow> itimerspec option \<Rightarrow> timers \<Rightarrow> int \<times> itimerspec option" where
  "timestamp_elapsed now tid curr_value T =
     (case (if curr_value = None then (- 1, None)
            else case timer_gettime now tid T of (ret, None) \<Rightarrow> (ret, curr_value) | (ret, Some v) \<Rightarrow> (ret, Some v)) of
        (ret, curr_value) \<Rightarrow>
      if ret < 0 then (- 1, curr_value)
      else (0, case curr_value of None \<Rightarrow> None | Some v \<Rightarrow>
        if tv_sec (it_interval v) > 0 then
          let nsec = word_of_int (tv_sec (it_interval v) * TIME_NS_IN_S -
                       (tv_sec (it_value v) * TIME_NS_IN_S + tv_nsec (it_value v))) :: u64
          in Some (v\<lparr>it_value := \<lparr>tv_sec = c_div (sint nsec) TIME_NS_IN_S, tv_nsec = c_mod (sint nsec) TIME_NS_IN_S\<rparr>\<rparr>)
        else Some v))"

subsection \<open>The stop watch\<close>

text \<open>The timer's period in nanoseconds: 68 years.\<close>

definition SPAN :: int where "SPAN = INT32_MAX * TIME_NS_IN_S"

lemma SPAN_val: "SPAN = 2147483647000000000"
  by (simp add: SPAN_def INT32_MAX_def TIME_NS_IN_S_def)

definition started :: "int \<Rightarrow> ptimer" where
  "started t0 = \<lparr>period = SPAN, expiry = Some (t0 + SPAN)\<rparr>"

definition elapsed_spec :: "int \<Rightarrow> itimerspec" where
  "elapsed_spec d = \<lparr>it_interval = \<lparr>tv_sec = INT32_MAX, tv_nsec = 0\<rparr>, it_value = ts_of (d mod SPAN)\<rparr>"

lemma timestamp_reset_starts:
  "timestamp_reset now tid T = (if T tid = None then (- 1, T) else (0, T(tid \<mapsto> started now)))"
  by (auto simp: timestamp_reset_def timer_settime_def ts_valid_def ts_nanos_def started_def SPAN_val
      INT32_MAX_def split: option.splits)

lemma long_word [simp]: "0 \<le> x \<Longrightarrow> x < 2 ^ 63 \<Longrightarrow> sint (word_of_int x :: u64) = x"
  by (simp add: signed_of_int signed_take_bit_int_eq_self)

lemma timestamp_elapsed_started:
  assumes "T tid = Some (started t0)" and "t0 \<le> now"
  shows "timestamp_elapsed now tid (Some x) T = (0, Some (elapsed_spec (now - t0)))"
proof -
  let ?d = "(now - t0) mod SPAN"
  have d: "0 \<le> ?d" "?d < SPAN" by (simp_all add: SPAN_val)
  have r: "remaining now (started t0) = SPAN - ?d"
    using assms(2) by (simp add: started_def remaining_periodic SPAN_val)
  have "tv_sec (ts_of (SPAN - ?d)) * TIME_NS_IN_S + tv_nsec (ts_of (SPAN - ?d)) = SPAN - ?d"
    by (simp add: ts_of_def TIME_NS_IN_S_def)
  then have diff: "INT32_MAX * TIME_NS_IN_S - (tv_sec (ts_of (SPAN - ?d)) * TIME_NS_IN_S + tv_nsec (ts_of (SPAN - ?d))) = ?d"
    by (simp add: SPAN_def)
  have int: "ts_of SPAN = \<lparr>tv_sec = INT32_MAX, tv_nsec = 0\<rparr>"
    by (simp add: ts_of_def SPAN_val INT32_MAX_def)
  have w: "sint (word_of_int ?d :: u64) = ?d" using d by (simp add: SPAN_val)
  have "timer_spec now (started t0) =
      \<lparr>it_interval = \<lparr>tv_sec = INT32_MAX, tv_nsec = 0\<rparr>, it_value = ts_of (SPAN - ?d)\<rparr>"
    using r int by (simp add: timer_spec_def started_def)
  then show ?thesis
    using assms(1) d(1) diff w
    by (simp add: timestamp_elapsed_def timer_gettime_def elapsed_spec_def Let_def INT32_MAX_def
        c_div_pos c_mod_pos TIME_NS_IN_S_def ts_of_def [of ?d])
qed

text \<open>C36: after a reset at one moment, \<open>timestamp_elapsed\<close> at a later one gives the time between them as
  seconds and nanoseconds, modulo the 68 years of the timer; without the timer, or with \<open>NULL\<close>, it
  returns -1.
\<close>

theorem timestamp_measures:
  assumes "T tid \<noteq> None" and "t0 \<le> t1"
  shows "\<exists>T1 v. timestamp_reset t0 tid T = (0, T1) \<and> timestamp_elapsed t1 tid (Some x) T1 = (0, Some v) \<and>
     ts_valid (it_value v) \<and> ts_nanos (it_value v) = (t1 - t0) mod (INT32_MAX * TIME_NS_IN_S) \<and>
     timestamp_elapsed t1 tid None T1 = (- 1, None) \<and>
     timestamp_reset t0 tid (timestamp_destory tid T1) = (- 1, timestamp_destory tid T1) \<and>
     timestamp_elapsed t1 tid (Some x) (timestamp_destory tid T1) = (- 1, Some x)"
proof -
  have "timestamp_reset t0 tid T = (0, T(tid \<mapsto> started t0))"
    using assms(1) by (simp add: timestamp_reset_starts)
  moreover have "timestamp_elapsed t1 tid (Some x) (T(tid \<mapsto> started t0)) = (0, Some (elapsed_spec (t1 - t0)))"
    using assms(2) by (simp add: timestamp_elapsed_started)
  moreover have "0 \<le> (t1 - t0) mod SPAN" by (simp add: SPAN_val)
  ultimately show ?thesis
    by (simp add: elapsed_spec_def SPAN_def [symmetric] timestamp_reset_starts timestamp_destory_def timer_delete_def)
      (simp add: timestamp_elapsed_def timer_gettime_def)
qed

theorem timestamp_measures_witness:
  "\<exists>T1 v. timestamp_reset 5 1 [1 \<mapsto> \<lparr>period = 0, expiry = None\<rparr>] = (0, T1) \<and>
     timestamp_elapsed 2500000007 1 (Some (elapsed_spec 0)) T1 = (0, Some v) \<and> ts_nanos (it_value v) = 2500000002"
  using timestamp_measures [of "[1 \<mapsto> \<lparr>period = 0, expiry = None\<rparr>]" 1 5 2500000007 "elapsed_spec 0"]
  by (auto simp: INT32_MAX_def TIME_NS_IN_S_def)

end
