(* ===== verification/Event_Loop.thy ===== *)
theory Event_Loop
  imports Main
begin

text \<open>
  The loop of the interactive programs: each event is handled by one step, and the loop is left
  after the step that clears the flag \<open>run\<close>. \<open>examples/timestamp\<close> and \<open>posix/timer\<close> have such a loop each; the
  locale holds what is true of both.
\<close>

locale run_loop =
  fixes step :: "'e \<Rightarrow> 's \<Rightarrow> 's option" and running :: "'s \<Rightarrow> bool"
    and loop :: "'e list \<Rightarrow> 's \<Rightarrow> (bool \<times> 's) option" and stops :: "'e \<Rightarrow> bool"
  assumes loop_none: "loop [] st = Some (False, st)"
    and loop_some: "loop (ev # evs) st =
      Option.bind (step ev st) (\<lambda>st. if running st then loop evs st else Some (True, st))"
    and step_running: "step ev st = Some st' \<Longrightarrow> running st' \<longleftrightarrow> running st \<and> \<not> stops ev"

context run_loop begin

lemma loop_cases:
  assumes "loop (ev # evs) st = Some r" and "running st"
  obtains st1 where "step ev st = Some st1" and "stops ev" and "r = (True, st1)"
    | st1 where "step ev st = Some st1" and "\<not> stops ev" and "running st1" and "loop evs st1 = Some r"
proof -
  obtain st1 where st1: "step ev st = Some st1"
    "(if running st1 then loop evs st1 else Some (True, st1)) = Some r"
    using assms(1) by (auto simp: loop_some bind_eq_Some_conv)
  then show thesis using that(1) [of st1] that(2) [of st1] step_running [OF st1(1)] assms(2)
    by (cases "stops ev") auto
qed

text \<open>The loop has ended exactly when an event that stops it has come.\<close>

lemma ended_iff: "\<lbrakk>loop evs st = Some (ended, st'); running st\<rbrakk> \<Longrightarrow> ended \<longleftrightarrow> list_ex stops evs"
proof (induction evs arbitrary: st)
  case (Cons ev evs)
  then show ?case by (auto elim: loop_cases)
qed (simp add: loop_none)

text \<open>A property that every step keeps holds after the loop.\<close>

lemma loop_invariant:
  assumes "\<And>ev st st'. \<lbrakk>step ev st = Some st'; I st\<rbrakk> \<Longrightarrow> I st'"
  shows "\<lbrakk>loop evs st = Some (ended, st'); running st; I st\<rbrakk> \<Longrightarrow> I st'"
proof (induction evs arbitrary: st)
  case (Cons ev evs)
  then show ?case using assms by (auto elim!: loop_cases)
qed (simp add: loop_none)

text \<open>When every state with a property has a next one with the property, the loop is defined.\<close>

lemma run_defined:
  assumes "\<And>ev st. I st \<Longrightarrow> \<exists>st'. step ev st = Some st' \<and> I st'"
  shows "I st \<Longrightarrow> \<exists>ended st'. loop evs st = Some (ended, st')"
proof (induction evs arbitrary: st)
  case (Cons ev evs)
  then obtain st1 where "step ev st = Some st1" "I st1" using assms by blast
  then show ?case using Cons.IH [of st1] by (cases "running st1") (auto simp: loop_some)
qed (auto simp: loop_none)

text \<open>Events after the one that stops the loop are not handled.\<close>

lemma loop_stopped:
  "\<lbrakk>loop evs st = Some (True, st'); running st\<rbrakk> \<Longrightarrow> loop (evs @ more) st = Some (True, st')"
proof (induction evs arbitrary: st)
  case (Cons ev evs)
  from Cons.prems show ?case
  proof (cases rule: loop_cases)
    case (1 st1)
    then show ?thesis using step_running [OF 1(1)] by (simp add: loop_some)
  next
    case (2 st1)
    then show ?thesis using Cons.IH [OF 2(4,3)] by (simp add: loop_some)
  qed
qed (simp add: loop_none)

end

end
