(* ===== verification/Timestamp_Example.thy ===== *)
theory Timestamp_Example
  imports Timestamp Event_Loop
begin

text \<open>
  \<open>examples/timestamp/timestamp.c\<close>: the program waits for key presses and shows or restarts a stop watch.
  Its state is the timer, the terminal, the flag \<open>run\<close> and the text on \<open>stdout\<close>; messages on \<open>stderr\<close> are
  not modelled. A run is described for every finite sequence of key presses: after the last one
  the program has ended or waits for the next.
\<close>

subsection \<open>The program\<close>

definition getchar_once :: "termios \<Rightarrow> termios" where
  "getchar_once tty = tty\<lparr>icanon := False, echo := False, vmin := 1\<rparr>"

definition termios_reset :: "termios \<Rightarrow> termios" where
  "termios_reset tty = tty\<lparr>icanon := True, echo := True\<rparr>"

definition usage :: string where
  "usage = ''h   show [h]elp text'' @ newline @
     ''e   show time [e]lapsed'' @ newline @
     ''r   [r]eset timestamp timer'' @ newline @
     ''q   [q]uit this program'' @ newline"

definition dump_itimerspec :: "itimerspec \<Rightarrow> string \<Rightarrow> string" where
  "dump_itimerspec t prefix = prefix @ '': it_interval = { .tv_sec = '' @ lu 3 (tv_sec (it_interval t)) @
     '', .tv_nsec = '' @ lu 9 (tv_nsec (it_interval t)) @ '' }, it_value = { .tv_sec = '' @
     lu 3 (tv_sec (it_value t)) @ '', .tv_nsec = '' @ lu 9 (tv_nsec (it_value t)) @ '' }'' @ newline"

record watch =
  w_timers :: timers
  w_run :: bool
  w_out :: string

text \<open>\<open>junk\<close> is what the uninitialised local \<open>elapsed_value\<close> holds.\<close>

definition watch_key :: "itimerspec \<Rightarrow> nat \<Rightarrow> key \<Rightarrow> watch \<Rightarrow> watch" where
  "watch_key junk tid k st = (case k of (c, t, t') \<Rightarrow>
     if c = ord_of (CHR ''h'') then st\<lparr>w_out := w_out st @ [CHR 0x0D] @ usage\<rparr>
     else if c = ord_of (CHR ''e'') then
       (case timestamp_elapsed t tid (Some junk) (w_timers st) of (ret, elapsed_value) \<Rightarrow>
        if ret < 0 then st
        else st\<lparr>w_out := w_out st @ dump_itimerspec (the elapsed_value) ''elapsed''\<rparr>)
     else if c = ord_of (CHR ''r'') then
       (case timestamp_reset t tid (w_timers st) of (ret, T) \<Rightarrow>
        if ret < 0 then st\<lparr>w_timers := T\<rparr>
        else case timestamp_elapsed t' tid (Some junk) T of (ret, elapsed_value) \<Rightarrow>
          if ret < 0 then st\<lparr>w_timers := T\<rparr>
          else st\<lparr>w_timers := T, w_out := w_out st @ dump_itimerspec (the elapsed_value) ''elapsed''\<rparr>)
     else if c = ord_of (CHR ''q'') then st\<lparr>w_run := False\<rparr>
     else st)"

text \<open>The \<open>do\<close> loop; the flag tells whether it has ended.\<close>

fun watch_loop :: "itimerspec \<Rightarrow> nat \<Rightarrow> key list \<Rightarrow> watch \<Rightarrow> bool \<times> watch" where
  "watch_loop junk tid [] st = (False, st)"
| "watch_loop junk tid (k # ks) st =
     (let st = watch_key junk tid k st in if w_run st then watch_loop junk tid ks st else (True, st))"

text \<open>
  \<open>main\<close>: the exit status (\<^term>\<open>None\<close> while the program waits for a key), the output, the terminal and
  the timers.
\<close>

definition watch_main ::
  "itimerspec \<Rightarrow> nat option \<Rightarrow> int \<Rightarrow> key list \<Rightarrow> termios \<Rightarrow> timers \<Rightarrow> int option \<times> string \<times> termios \<times> timers" where
  "watch_main junk granted t0 keys tty T =
     (case timestamp_create granted t0 T of (ret, T) \<Rightarrow>
      if ret < 0 then (Some (- 1), [], tty, T)
      else
        let tty = getchar_once tty in
        case watch_loop junk (the granted) keys \<lparr>w_timers = T, w_run = True, w_out = usage\<rparr> of (ended, st) \<Rightarrow>
        if \<not> ended then (None, w_out st, tty, w_timers st)
        else (Some 0, w_out st, termios_reset tty, timestamp_destory (the granted) (w_timers st)))"

subsection \<open>What it shows\<close>

definition quits :: "key list \<Rightarrow> bool" where
  "quits ks \<longleftrightarrow> ord_of (CHR ''q'') \<in> fst ` set ks"

definition watch_line :: "int \<Rightarrow> string" where
  "watch_line d = dump_itimerspec (elapsed_spec d) ''elapsed''"

text \<open>The text for each key, and the moment of the last reset.\<close>

fun watch_text :: "int \<Rightarrow> key list \<Rightarrow> string" where
  "watch_text since [] = []"
| "watch_text since ((c, t, t') # ks) =
     (if c = ord_of (CHR ''h'') then [CHR 0x0D] @ usage @ watch_text since ks
      else if c = ord_of (CHR ''e'') then watch_line (t - since) @ watch_text since ks
      else if c = ord_of (CHR ''r'') then watch_line (t' - t) @ watch_text t ks
      else if c = ord_of (CHR ''q'') then []
      else watch_text since ks)"

fun last_reset :: "int \<Rightarrow> key list \<Rightarrow> int" where
  "last_reset since [] = since"
| "last_reset since ((c, t, t') # ks) =
     (if c = ord_of (CHR ''q'') then since else last_reset (if c = ord_of (CHR ''r'') then t else since) ks)"

lemma watch_loop_text:
  assumes "clock_ok now ks" and "since \<le> now" and "w_timers st = T(tid \<mapsto> started since)" and "w_run st"
  shows "watch_loop junk tid ks st = (quits ks, \<lparr>w_timers = T(tid \<mapsto> started (last_reset since ks)),
     w_run = (\<not> quits ks), w_out = w_out st @ watch_text since ks\<rparr>)"
  using assms
proof (induction ks arbitrary: now since st)
  case Nil
  then show ?case by (simp add: quits_def)
next
  case (Cons k ks)
  obtain c t t' where k: "k = (c, t, t')" by (cases k)
  have ok: "now \<le> t" "t \<le> t'" "clock_ok t' ks" using Cons.prems(1) k by auto
  have q: "quits (k # ks) \<longleftrightarrow> c = ord_of (CHR ''q'') \<or> quits ks" by (auto simp: quits_def k)
  have later: "since \<le> t" using ok(1) Cons.prems(2) by simp
  have e: "timestamp_elapsed t tid (Some junk) (w_timers st) = (0, Some (elapsed_spec (t - since)))"
    using Cons.prems(3) later by (simp add: timestamp_elapsed_started)
  have r: "timestamp_reset t tid (w_timers st) = (0, T(tid \<mapsto> started t))"
    unfolding Cons.prems(3) timestamp_reset_starts by simp
  have re: "timestamp_elapsed t' tid (Some junk) (T(tid \<mapsto> started t)) = (0, Some (elapsed_spec (t' - t)))"
    using ok(2) by (simp add: timestamp_elapsed_started)
  have IH: "watch_loop junk tid ks st' = (quits ks, \<lparr>w_timers = T(tid \<mapsto> started (last_reset since ks)),
      w_run = (\<not> quits ks), w_out = w_out st' @ watch_text since ks\<rparr>)"
    if "w_timers st' = w_timers st" "w_run st'" for st'
    using Cons.IH [OF ok(3), of since st'] that later ok(2) Cons.prems(3) by (simp only: order_trans [OF later ok(2)])
  have IH_r: "watch_loop junk tid ks st' = (quits ks, \<lparr>w_timers = T(tid \<mapsto> started (last_reset t ks)),
      w_run = (\<not> quits ks), w_out = w_out st' @ watch_text t ks\<rparr>)"
    if "w_timers st' = T(tid \<mapsto> started t)" "w_run st'" for st'
    using Cons.IH [OF ok(3) ok(2) that] .
  show ?case
    using Cons.prems(4) q by (simp add: k watch_key_def e r re watch_line_def IH IH_r)
      (auto simp: Cons.prems(3) fun_upd_def)
qed

text \<open>Whatever the clock does: the loop ends exactly when \<open>q\<close> is pressed, and only the program's own timer
  is touched.\<close>

lemma watch_key_frame:
  "w_run (watch_key junk tid k st) \<longleftrightarrow> w_run st \<and> fst k \<noteq> ord_of (CHR ''q'')"
  "x \<noteq> tid \<Longrightarrow> w_timers (watch_key junk tid k st) x = w_timers st x"
  by (auto simp: watch_key_def timestamp_reset_def timer_settime_def Let_def split: prod.splits option.splits)

interpretation watch_run: run_loop "\<lambda>k st. Some (watch_key junk tid k st)" w_run
    "\<lambda>ks st. Some (watch_loop junk tid ks st)" "\<lambda>k. fst k = ord_of (CHR ''q'')" for junk tid
  by unfold_locales (auto simp: Let_def watch_key_frame(1))

theorem watch_loop_ends:
  assumes "w_run st" and "watch_loop junk tid ks st = (ended, st')"
  shows "(ended \<longleftrightarrow> quits ks) \<and> (\<forall>x. x \<noteq> tid \<longrightarrow> w_timers st' x = w_timers st x) \<and>
    (ended \<longrightarrow> watch_loop junk tid (ks @ later) st = (True, st'))"
proof (intro conjI allI impI)
  have run: "Some (watch_loop junk tid ks st) = Some (ended, st')" using assms(2) by simp
  show "ended \<longleftrightarrow> quits ks" using watch_run.ended_iff [OF run assms(1)] by (simp add: quits_def list_ex_iff image_iff)
  show "w_timers st' x = w_timers st x" if "x \<noteq> tid" for x
    by (rule watch_run.loop_invariant [where I = "\<lambda>s. w_timers s x = w_timers st x", OF _ run assms(1)])
      (use watch_key_frame(2) that in auto)
  show "watch_loop junk tid (ks @ later) st = (True, st')" if "ended"
    using watch_run.loop_stopped [of junk tid ks st st' later] run assms(1) that by simp
qed

theorem watch_loop_ends_witness:
  "watch_loop junk 1 ([(ord_of (CHR ''q''), 5, 5)] @ later) \<lparr>w_timers = T, w_run = True, w_out = []\<rparr> =
     (True, \<lparr>w_timers = T, w_run = False, w_out = []\<rparr>)"
  using watch_loop_ends [of "\<lparr>w_timers = T, w_run = True, w_out = []\<rparr>" junk 1 "[(ord_of (CHR ''q''), 5, 5)]" True
      "\<lparr>w_timers = T, w_run = False, w_out = []\<rparr>" later]
  by (simp add: watch_key_def quits_def)

text \<open>C37: the program, when the system provides a timer: each \<open>e\<close> shows the time since the last \<open>r\<close>, or since
  the start, each \<open>r\<close> starts over, and the first \<open>q\<close> ends the program with status 0, the timer
  deleted and the terminal in canonical mode with echo. Without a \<open>q\<close> it never ends; so not at the end
  of its input either, where \<open>fgetc\<close> returns -1 at once for ever.
\<close>

theorem watch_main_shows:
  assumes "clock_ok t0 ks"
  shows "watch_main junk (Some tid) t0 ks tty T =
     (if quits ks
      then (Some 0, usage @ watch_text t0 ks, tty\<lparr>icanon := True, echo := True, vmin := 1\<rparr>, T(tid := None))
      else (None, usage @ watch_text t0 ks, tty\<lparr>icanon := False, echo := False, vmin := 1\<rparr>,
        T(tid \<mapsto> started (last_reset t0 ks)))) \<and>
   watch_main junk None t0 ks tty T = (Some (- 1), [], tty, T)"
proof -
  have c: "timestamp_create (Some tid) t0 T = (0, T(tid \<mapsto> started t0))" "timestamp_create None t0 T = (- 1, T)"
    by (simp_all add: timestamp_create_def timer_create_def timestamp_reset_starts)
  show ?thesis
    using watch_loop_text [OF assms order_refl, of "\<lparr>w_timers = T(tid \<mapsto> started t0), w_run = True, w_out = usage\<rparr>" T tid junk]
    by (simp add: watch_main_def c getchar_once_def termios_reset_def timestamp_destory_def timer_delete_def)
qed

theorem watch_main_shows_witness:
  "watch_main (elapsed_spec 0) (Some 1) 100
      [(ord_of (CHR ''e''), 200, 200), (ord_of (CHR ''r''), 300, 301), (ord_of (CHR ''e''), 400, 400), (- 1, 400, 400),
       (ord_of (CHR ''q''), 500, 500), (ord_of (CHR ''h''), 600, 600)]
      \<lparr>icanon = True, echo = True, vmin = 0\<rparr> Map.empty =
    (Some 0, usage @ watch_line 100 @ watch_line 1 @ watch_line 100, \<lparr>icanon = True, echo = True, vmin = 1\<rparr>, Map.empty)"
  by (subst watch_main_shows [THEN conjunct1]) (simp_all add: quits_def)

end
