(* ===== verification/Timer.thy ===== *)
theory Timer
  imports C_Timer Event_Loop
begin

text \<open>
  \<open>posix/timer/timer.c\<close>: a program that pauses, resumes and shows an alarm by key presses. What happens
  to it is a list of events: a key press (the value of \<open>fgetc\<close>, the clock at its system call, and the
  system's answer to \<open>timer_getoverrun\<close>), or the delivery of \<open>SIGALRM\<close> while it waits for a key.
  \<open>stored_value\<close> is not initialised, so it is \<^term>\<open>None\<close> until the first pause, and reading it before is
  undefined. The handler's \<open>printf\<close> is taken to print its line, although C does not allow a handler to call it; a
  signal that arrives outside \<open>fgetc\<close> is described as one that arrives at the next \<open>fgetc\<close>. Messages on \<open>stderr\<close>
  are not modelled.
\<close>

subsection \<open>The program\<close>

definition alrm_handler :: string where
  "alrm_handler = ''a timer has expired...'' @ newline"

definition timer_getchar_once :: "termios \<Rightarrow> termios" where
  "timer_getchar_once tty = tty\<lparr>icanon := False, echo := False, vmin := 1\<rparr>"

definition timer_termios_reset :: "termios \<Rightarrow> termios" where
  "timer_termios_reset tty = tty\<lparr>icanon := True, echo := True\<rparr>"

definition timer_usage :: string where
  "timer_usage = ''h   show [h]elp text'' @ newline @
     ''p   [p]ause the timer'' @ newline @
     ''r   [r]esume the timer'' @ newline @
     ''e   show time [e]lapsed'' @ newline @
     ''x   show if timer has e[x]pired'' @ newline @
     ''i   setup [i]nterval mode'' @ newline @
     ''o   setup [o]neshot mode'' @ newline @
     ''q   [q]uit this program'' @ newline"

definition timer_dump :: "itimerspec \<Rightarrow> string \<Rightarrow> string" where
  "timer_dump t pre = pre @ '': it_interval = { .tv_sec = '' @ lu 3 (tv_sec (it_interval t)) @
     '', .tv_nsec = '' @ lu 9 (tv_nsec (it_interval t)) @ '' }, it_value = { .tv_sec = '' @
     lu 3 (tv_sec (it_value t)) @ '', .tv_nsec = '' @ lu 9 (tv_nsec (it_value t)) @ '' }'' @ newline"

definition zero_value :: itimerspec where
  "zero_value = \<lparr>it_interval = \<lparr>tv_sec = 0, tv_nsec = 0\<rparr>, it_value = \<lparr>tv_sec = 0, tv_nsec = 0\<rparr>\<rparr>"

definition default_value :: itimerspec where
  "default_value = \<lparr>it_interval = \<lparr>tv_sec = 5, tv_nsec = 0\<rparr>, it_value = \<lparr>tv_sec = 5, tv_nsec = 0\<rparr>\<rparr>"

definition once_value :: itimerspec where
  "once_value = \<lparr>it_interval = \<lparr>tv_sec = 0, tv_nsec = 0\<rparr>, it_value = \<lparr>tv_sec = 5, tv_nsec = 0\<rparr>\<rparr>"

definition value_zero :: "itimerspec \<Rightarrow> bool" where
  "value_zero v \<longleftrightarrow> tv_sec (it_value v) = 0 \<and> tv_nsec (it_value v) = 0"

datatype event = Key int int int | Alarm

record alarm =
  a_timers :: timers
  a_stored :: "itimerspec option"
  a_run :: bool
  a_out :: string

definition say :: "string \<Rightarrow> alarm \<Rightarrow> alarm" where
  "say s st = st\<lparr>a_out := a_out st @ s\<rparr>"

definition key_pause :: "nat \<Rightarrow> int \<Rightarrow> alarm \<Rightarrow> alarm" where
  "key_pause tid t st =
     (case timer_settime t tid zero_value (a_timers st) of (ret, old, T) \<Rightarrow>
      let st = st\<lparr>a_timers := T\<rparr> in
      case old of None \<Rightarrow> st
      | Some curr_value \<Rightarrow>
          if \<not> value_zero curr_value
          then say (timer_dump curr_value ''paused'') (st\<lparr>a_stored := Some curr_value\<rparr>) else st)"

definition key_resume :: "nat \<Rightarrow> int \<Rightarrow> alarm \<Rightarrow> alarm option" where
  "key_resume tid t st = do {
     stored_value \<leftarrow> a_stored st;
     if value_zero stored_value then Some st
     else case timer_settime t tid stored_value (a_timers st) of (ret, _, T) \<Rightarrow>
       if ret < 0 then Some (st\<lparr>a_timers := T\<rparr>)
       else Some (say (timer_dump stored_value ''resumed'') (st\<lparr>a_timers := T, a_stored := Some zero_value\<rparr>)) }"

definition key_remaining :: "nat \<Rightarrow> int \<Rightarrow> alarm \<Rightarrow> alarm" where
  "key_remaining tid t st =
     (case timer_gettime t tid (a_timers st) of (ret, old) \<Rightarrow>
      case old of None \<Rightarrow> st | Some curr_value \<Rightarrow> say (timer_dump curr_value ''remaining'') st)"

definition key_expired :: "nat \<Rightarrow> int \<Rightarrow> alarm \<Rightarrow> alarm" where
  "key_expired tid n st =
     (if a_timers st tid = None \<or> n < 0 then st
      else say ([CHR 0x0D] @ ''timer has expired ('' @ dec_int n @ '')'' @ newline) st)"

definition key_set :: "nat \<Rightarrow> itimerspec \<Rightarrow> string \<Rightarrow> int \<Rightarrow> alarm \<Rightarrow> alarm" where
  "key_set tid v pre t st =
     (case timer_settime t tid v (a_timers st) of (ret, _, T) \<Rightarrow>
      let st = st\<lparr>a_timers := T\<rparr> in if ret < 0 then st else say (timer_dump v pre) st)"

definition timer_event :: "nat \<Rightarrow> event \<Rightarrow> alarm \<Rightarrow> alarm option" where
  "timer_event tid ev st = (case ev of
     Alarm \<Rightarrow> Some (say alrm_handler st)
   | Key c t n \<Rightarrow>
     if c = ord_of (CHR ''h'') then Some (say timer_usage st)
     else if c = ord_of (CHR ''p'') then Some (key_pause tid t st)
     else if c = ord_of (CHR ''r'') then key_resume tid t st
     else if c = ord_of (CHR ''e'') then Some (key_remaining tid t st)
     else if c = ord_of (CHR ''x'') then Some (key_expired tid n st)
     else if c = ord_of (CHR ''i'') then Some (key_set tid default_value ''invervall'' t st)
     else if c = ord_of (CHR ''o'') then Some (key_set tid once_value ''oneshot'' t st)
     else if c = ord_of (CHR ''q'') then Some (st\<lparr>a_run := False\<rparr>)
     else Some st)"

text \<open>The \<open>do\<close> loop over the events, which is left after the key that clears \<open>run\<close>.\<close>

fun timer_loop :: "nat \<Rightarrow> event list \<Rightarrow> alarm \<Rightarrow> (bool \<times> alarm) option" where
  "timer_loop tid [] st = Some (False, st)"
| "timer_loop tid (ev # evs) st = do {
     st \<leftarrow> timer_event tid ev st;
     if a_run st then timer_loop tid evs st else Some (True, st) }"

definition timer_main ::
  "nat option \<Rightarrow> int \<Rightarrow> event list \<Rightarrow> termios \<Rightarrow> timers \<Rightarrow> (int option \<times> string \<times> termios \<times> timers) option" where
  "timer_main granted t0 evs tty T =
     (case timer_create granted T of (ret, T) \<Rightarrow>
      if ret < 0 then Some (Some (- 1), [], timer_termios_reset tty, T)
      else
        let tid = the granted in
        case timer_settime t0 tid default_value T of (ret, _, T) \<Rightarrow>
        if ret < 0 then Some (Some (- 1), [], timer_termios_reset tty, timer_delete tid T)
        else
          let tty = timer_getchar_once tty in
          Option.bind (timer_loop tid evs \<lparr>a_timers = T, a_stored = None, a_run = True, a_out = timer_usage\<rparr>)
            (\<lambda>(ended, st).
             if \<not> ended then Some (None, a_out st, tty, a_timers st)
             else Some (Some 0, a_out st, timer_termios_reset tty, timer_delete tid (a_timers st))))"

subsection \<open>What pausing does\<close>

lemma ts_of_zero: "0 \<le> n \<Longrightarrow> tv_sec (ts_of n) = 0 \<and> tv_nsec (ts_of n) = 0 \<longleftrightarrow> n = 0"
  by (metis ts_nanos_def ts_nanos_of ts_of_def add_0 div_0 mod_0 mult_zero_left timespec.select_convs)

lemma value_zero_spec: "0 \<le> remaining now t \<Longrightarrow> value_zero (timer_spec now t) \<longleftrightarrow> remaining now t = 0"
  by (simp add: value_zero_def timer_spec_def ts_of_zero)

text \<open>How an armed timer goes on from a moment at which it has some time left.\<close>

lemma remaining_later:
  assumes "0 < remaining t0 t" and "0 \<le> period t" and "0 \<le> d"
  shows "remaining (t0 + d) t = (if d < remaining t0 t then remaining t0 t - d
     else if period t = 0 then 0 else period t - (d - remaining t0 t) mod period t)"
proof -
  obtain e where e: "expiry t = Some e" using assms(1) by (cases "expiry t") (simp_all add: remaining_def)
  show ?thesis
  proof (cases "t0 < e")
    case True
    then show ?thesis using e by (auto simp: remaining_def algebra_simps)
  next
    case False
    then have p: "0 < period t" using assms e by (cases "period t = 0") (simp_all add: remaining_def)
    let ?m = "(t0 - e) mod period t"
    have r: "remaining t0 t = period t - ?m" using False e p by (simp add: remaining_def)
    have m: "0 \<le> ?m" "?m < period t" using p by simp_all
    have later: "remaining (t0 + d) t = period t - (?m + d) mod period t"
    proof -
      have "(?m + d) mod period t = (t0 + d - e) mod period t"
        using mod_add_left_eq [of "t0 - e" "period t" d] by (simp add: algebra_simps)
      then show ?thesis using False e p assms(3) by (simp add: remaining_def)
    qed
    show ?thesis
    proof (cases "d < remaining t0 t")
      case True
      then have "(?m + d) mod period t = ?m + d" using r m assms(3) by simp
      then show ?thesis using True r later by simp
    next
      case far: False
      have "d - remaining t0 t = ?m + d - period t" using r by simp
      then have "(d - remaining t0 t) mod period t = (?m + d) mod period t" by (simp only: minus_mod_self2)
      then show ?thesis using far later p by simp
    qed
  qed
qed

lemma key_pause_armed:
  assumes "a_timers st tid = Some tm" and "0 \<le> period tm" and "0 < remaining t tm"
  shows "key_pause tid t st = say (timer_dump (timer_spec t tm) ''paused'')
    (st\<lparr>a_timers := (a_timers st)(tid \<mapsto> \<lparr>period = 0, expiry = None\<rparr>), a_stored := Some (timer_spec t tm)\<rparr>)"
  using assms value_zero_spec [of t tm]
  by (simp add: key_pause_def timer_settime_def zero_value_def ts_valid_def ts_nanos_def say_def Let_def)

lemma key_resume_stored:
  assumes "a_timers st tid \<noteq> None" and "a_stored st = Some (timer_spec t1 tm)"
    and "0 \<le> period tm" and "0 < remaining t1 tm"
  shows "key_resume tid t st = Some (say (timer_dump (timer_spec t1 tm) ''resumed'')
    (st\<lparr>a_timers := (a_timers st)(tid \<mapsto> \<lparr>period = period tm, expiry = Some (t + remaining t1 tm)\<rparr>),
        a_stored := Some zero_value\<rparr>))"
  using assms value_zero_spec [of t1 tm]
  by (auto simp: key_resume_def timer_settime_def timer_spec_def [of t1 tm] say_def)

text \<open>C38: pausing an armed alarm and resuming it later shifts its time: whatever the remaining time would
  have been some time after the pause, it is that time after the resume. The period is kept, and
  a second resume does nothing.
\<close>

theorem timer_pause_resume:
  assumes "a_timers st tid = Some tm" and "0 \<le> period tm" and "0 < remaining t1 tm" and "a_run st"
  shows "\<exists>st' tm'. timer_loop tid [Key (ord_of (CHR ''p'')) t1 n, Key (ord_of (CHR ''r'')) t2 m] st = Some (False, st') \<and>
     a_timers st' tid = Some tm' \<and> period tm' = period tm \<and>
     (\<forall>d \<ge> 0. remaining (t2 + d) tm' = remaining (t1 + d) tm) \<and>
     timer_event tid (Key (ord_of (CHR ''r'')) t3 k) st' = Some st'"
proof -
  let ?tm' = "\<lparr>period = period tm, expiry = Some (t2 + remaining t1 tm)\<rparr>"
  have shift: "remaining (t2 + d) ?tm' = remaining (t1 + d) tm" if "0 \<le> d" for d
    using remaining_later [OF assms(3,2) that] remaining_later [of t2 ?tm' d] assms(2,3) that
    by (simp add: remaining_def [of t2])
  show ?thesis
    using assms shift
    by (simp add: timer_event_def key_pause_armed key_resume_stored say_def)
      (simp add: key_resume_def value_zero_def zero_value_def)
qed

text \<open>The alarm of five seconds, paused after two seconds and resumed at 100.\<close>

theorem timer_pause_resume_witness:
  "\<exists>st' tm'. timer_loop 1 [Key (ord_of (CHR ''p'')) 2000000000 0, Key (ord_of (CHR ''r'')) 100000000000 0]
       \<lparr>a_timers = [1 \<mapsto> \<lparr>period = 5000000000, expiry = Some 5000000000\<rparr>], a_stored = None, a_run = True, a_out = []\<rparr> =
       Some (False, st') \<and> a_timers st' 1 = Some tm' \<and> remaining 100500000000 tm' = 2500000000"
proof -
  let ?tm = "\<lparr>period = 5000000000, expiry = Some 5000000000\<rparr>"
  let ?st = "\<lparr>a_timers = [1 \<mapsto> ?tm], a_stored = None, a_run = True, a_out = []\<rparr>"
  have "\<exists>st' tm'. timer_loop 1 [Key (ord_of (CHR ''p'')) 2000000000 0, Key (ord_of (CHR ''r'')) 100000000000 0] ?st =
       Some (False, st') \<and> a_timers st' 1 = Some tm' \<and> period tm' = period ?tm \<and>
     (\<forall>d \<ge> 0. remaining (100000000000 + d) tm' = remaining (2000000000 + d) ?tm) \<and>
     timer_event 1 (Key (ord_of (CHR ''r'')) 0 0) st' = Some st'"
    by (rule timer_pause_resume) (simp_all add: remaining_def)
  then obtain st' tm' where "timer_loop 1 [Key (ord_of (CHR ''p'')) 2000000000 0, Key (ord_of (CHR ''r'')) 100000000000 0] ?st =
       Some (False, st')" "a_timers st' 1 = Some tm'"
    and d: "\<forall>d \<ge> 0. remaining (100000000000 + d) tm' = remaining (2000000000 + d) ?tm"
    by blast
  moreover have "remaining 100500000000 tm' = 2500000000"
    using d [rule_format, of 500000000] by (simp add: remaining_def)
  ultimately show ?thesis by blast
qed

subsection \<open>Whole runs\<close>

definition is_key :: "char \<Rightarrow> event \<Rightarrow> bool" where
  "is_key c ev = (case ev of Key k _ _ \<Rightarrow> k = ord_of c | Alarm \<Rightarrow> False)"

lemma event_stored:
  assumes "\<not> is_key (CHR ''p'') ev" and "\<not> is_key (CHR ''r'') ev"
  obtains st' where "timer_event tid ev st = Some st'" and "a_stored st' = a_stored st"
    and "a_run st' \<longleftrightarrow> a_run st \<and> \<not> is_key (CHR ''q'') ev"
proof -
  have "\<exists>st'. timer_event tid ev st = Some st' \<and> a_stored st' = a_stored st \<and>
      (a_run st' \<longleftrightarrow> a_run st \<and> \<not> is_key (CHR ''q'') ev)"
    using assms
    by (cases ev) (auto simp: timer_event_def is_key_def say_def key_remaining_def key_expired_def key_set_def Let_def
        split: prod.split option.split)
  then show thesis using that by blast
qed

lemma loop_unstored:
  assumes "\<forall>ev \<in> set evs. \<not> is_key (CHR ''p'') ev \<and> \<not> is_key (CHR ''r'') ev \<and> \<not> is_key (CHR ''q'') ev"
    and "a_stored st = None" and "a_run st"
  shows "timer_loop tid (evs @ Key (ord_of (CHR ''r'')) t n # rest) st = None"
  using assms
proof (induction evs arbitrary: st)
  case Nil
  then show ?case by (simp add: timer_event_def key_resume_def)
next
  case (Cons ev evs)
  then obtain st' where "timer_event tid ev st = Some st'" "a_stored st' = None" "a_run st'"
    by (auto elim: event_stored [of ev tid st])
  then show ?case using Cons by simp
qed

text \<open>Resuming before the first pause reads \<open>stored_value\<close>, which has not been initialised: such a run is
  undefined.
\<close>

theorem timer_resume_first_undefined:
  assumes "\<forall>ev \<in> set evs. \<not> is_key (CHR ''p'') ev \<and> \<not> is_key (CHR ''r'') ev \<and> \<not> is_key (CHR ''q'') ev"
  shows "timer_main (Some tid) t0 (evs @ Key (ord_of (CHR ''r'')) t n # rest) tty T = None"
  using loop_unstored [OF assms]
  by (simp add: timer_main_def timer_create_def timer_settime_def default_value_def ts_valid_def ts_nanos_def Let_def)

theorem timer_resume_first_undefined_witness:
  "timer_main (Some 1) 0 ([Key (ord_of (CHR ''e'')) 1 0, Alarm] @ Key (ord_of (CHR ''r'')) 2 0 # [])
     \<lparr>icanon = True, echo = True, vmin = 0\<rparr> Map.empty = None"
  by (rule timer_resume_first_undefined) (simp add: is_key_def)

lemmas timer_keys = key_pause_def key_resume_def key_remaining_def key_expired_def key_set_def

lemma event_frame:
  assumes "timer_event tid ev st = Some st'"
  shows "a_run st' \<longleftrightarrow> a_run st \<and> \<not> is_key (CHR ''q'') ev"
    and "x \<noteq> tid \<Longrightarrow> a_timers st' x = a_timers st x"
    and "a_stored st \<noteq> None \<Longrightarrow> a_stored st' \<noteq> None"
  using assms
  by (auto simp: timer_event_def is_key_def timer_keys say_def timer_settime_def timer_gettime_def Let_def bind_Some_iff
      split: event.splits if_splits option.splits)

interpretation alarm_loop: run_loop "timer_event tid" a_run "timer_loop tid" "is_key (CHR ''q'')" for tid
  using event_frame(1) by unfold_locales simp_all

lemma loop_frame:
  assumes "timer_loop tid evs st = Some (ended, st')" and "a_run st"
  shows "ended \<longleftrightarrow> list_ex (is_key (CHR ''q'')) evs" and "x \<noteq> tid \<Longrightarrow> a_timers st' x = a_timers st x"
proof -
  show "ended \<longleftrightarrow> list_ex (is_key (CHR ''q'')) evs" by (rule alarm_loop.ended_iff [OF assms])
  show "a_timers st' x = a_timers st x" if "x \<noteq> tid"
    by (rule alarm_loop.loop_invariant [where I = "\<lambda>s. a_timers s x = a_timers st x", OF _ assms])
      (use event_frame(2) that in simp_all)
qed

lemma event_defined: "a_stored st \<noteq> None \<Longrightarrow> \<exists>st'. timer_event tid ev st = Some st'"
  by (cases ev) (auto simp: timer_event_def key_resume_def split: prod.split)

lemma loop_defined: "a_stored st \<noteq> None \<Longrightarrow> \<exists>ended st'. timer_loop tid evs st = Some (ended, st')"
  by (rule alarm_loop.run_defined [where I = "\<lambda>st. a_stored st \<noteq> None"]) (use event_defined event_frame(3) in blast)+

text \<open>
  When a run reads \<open>stored_value\<close> before it is set. Before the first pause that stores something the timer runs in
  interval mode, or once until some time, or not at all; a pause stores something unless the timer has no time left,
  which in interval mode it always has.
\<close>

datatype arming = Interval | Until int | Off

fun time_left :: "arming \<Rightarrow> int \<Rightarrow> bool" where
  "time_left Interval t \<longleftrightarrow> True"
| "time_left (Until e) t \<longleftrightarrow> t < e"
| "time_left Off t \<longleftrightarrow> False"

definition arms :: "arming \<Rightarrow> event \<Rightarrow> arming" where
  "arms a ev = (case ev of Alarm \<Rightarrow> a | Key c t n \<Rightarrow>
     if c = ord_of (CHR ''p'') then Off
     else if c = ord_of (CHR ''i'') then Interval
     else if c = ord_of (CHR ''o'') then Until (t + 5000000000)
     else a)"

definition stores :: "arming \<Rightarrow> event \<Rightarrow> bool" where
  "stores a ev \<longleftrightarrow> (case ev of Alarm \<Rightarrow> False | Key c t n \<Rightarrow> c = ord_of (CHR ''p'') \<and> time_left a t)"

fun resumes_unset :: "arming \<Rightarrow> event list \<Rightarrow> bool" where
  "resumes_unset a [] \<longleftrightarrow> False"
| "resumes_unset a (ev # evs) \<longleftrightarrow> is_key (CHR ''r'') ev \<or>
     (\<not> stores a ev \<and> \<not> is_key (CHR ''q'') ev \<and> resumes_unset (arms a ev) evs)"

fun armed_as :: "arming \<Rightarrow> ptimer \<Rightarrow> bool" where
  "armed_as Interval tm \<longleftrightarrow> period tm = 5000000000 \<and> expiry tm \<noteq> None"
| "armed_as (Until e) tm \<longleftrightarrow> tm = \<lparr>period = 0, expiry = Some e\<rparr>"
| "armed_as Off tm \<longleftrightarrow> tm = \<lparr>period = 0, expiry = None\<rparr>"

lemma remaining_armed: "armed_as a tm \<Longrightarrow> 0 \<le> remaining t tm \<and> (0 < remaining t tm \<longleftrightarrow> time_left a t)"
  using pos_mod_bound [of 5000000000 "t - e" for e] by (cases a) (auto simp: remaining_def not_less le_less)

definition unset :: "nat \<Rightarrow> arming \<Rightarrow> alarm \<Rightarrow> bool" where
  "unset tid a st \<longleftrightarrow> a_stored st = None \<and> (\<exists>tm. a_timers st tid = Some tm \<and> armed_as a tm)"

lemma pause_unset:
  assumes "unset tid a st"
  shows "if time_left a t then a_stored (key_pause tid t st) \<noteq> None else unset tid Off (key_pause tid t st)"
proof -
  obtain tm where tm: "a_timers st tid = Some tm" "armed_as a tm" and st: "a_stored st = None"
    using assms by (auto simp: unset_def)
  have "value_zero (timer_spec t tm) \<longleftrightarrow> \<not> time_left a t"
    using value_zero_spec [of t tm] remaining_armed [OF tm(2), of t] by auto
  then show ?thesis
    using tm(1) st
    by (simp add: key_pause_def timer_settime_def zero_value_def ts_valid_def ts_nanos_def say_def unset_def Let_def)
qed

lemma event_unset:
  assumes u: "unset tid a st" and r: "\<not> is_key (CHR ''r'') ev"
  obtains st' where "timer_event tid ev st = Some st'"
    and "if stores a ev then a_stored st' \<noteq> None else unset tid (arms a ev) st'"
proof (cases "is_key (CHR ''p'') ev")
  case True
  then obtain t n where ev: "ev = Key (ord_of (CHR ''p'')) t n" by (auto simp: is_key_def split: event.splits)
  then have "timer_event tid ev st = Some (key_pause tid t st)" by (simp add: timer_event_def)
  moreover have "if stores a ev then a_stored (key_pause tid t st) \<noteq> None else unset tid (arms a ev) (key_pause tid t st)"
    using pause_unset [OF u, of t] by (simp add: ev stores_def arms_def)
  ultimately show thesis by (rule that)
next
  case False
  have "\<exists>st'. timer_event tid ev st = Some st' \<and> unset tid (arms a ev) st'"
    using u r False
    by (cases ev) (auto simp: timer_event_def is_key_def unset_def arms_def say_def key_remaining_def key_expired_def key_set_def
        timer_settime_def default_value_def once_value_def ts_valid_def ts_nanos_def Let_def split: prod.split option.split)
  moreover have "\<not> stores a ev" using False by (auto simp: stores_def is_key_def split: event.splits)
  ultimately show thesis using that by auto
qed

lemma loop_unset:
  "unset tid a st \<Longrightarrow> a_run st \<Longrightarrow> timer_loop tid evs st = None \<longleftrightarrow> resumes_unset a evs"
proof (induction evs arbitrary: a st)
  case (Cons ev evs)
  show ?case
  proof (cases "is_key (CHR ''r'') ev")
    case True
    then obtain t n where "ev = Key (ord_of (CHR ''r'')) t n" by (auto simp: is_key_def split: event.splits)
    then have "timer_event tid ev st = None"
      using Cons.prems(1) by (simp add: timer_event_def key_resume_def unset_def)
    then show ?thesis using True by simp
  next
    case False
    then obtain st1 where st1: "timer_event tid ev st = Some st1"
      "if stores a ev then a_stored st1 \<noteq> None else unset tid (arms a ev) st1"
      using event_unset [OF Cons.prems(1)] by blast
    note run = event_frame(1) [OF st1(1)]
    show ?thesis
    proof (cases "stores a ev")
      case True
      then have "\<exists>ended st'. timer_loop tid evs st1 = Some (ended, st')" using st1(2) by (intro loop_defined) simp
      then show ?thesis using st1(1) True \<open>\<not> is_key (CHR ''r'') ev\<close> by auto
    next
      case False
      then show ?thesis
        using st1 run Cons.prems(2) Cons.IH [of "arms a ev" st1] \<open>\<not> is_key (CHR ''r'') ev\<close> by simp
    qed
  qed
qed simp

text \<open>C39: a run is undefined exactly when it resumes before a pause has stored what to resume; a pause stores nothing
  when the timer has run out after \<open>o\<close>, or is paused already. Every other run ends exactly when \<open>q\<close> is pressed,
  with status 0, the timer deleted and the terminal in canonical mode with echo, and never touches
  another timer of the system. Without a timer the program ends with -1.
\<close>

theorem timer_main_ends:
  assumes "T tid = None"
  shows "(if resumes_unset Interval evs then timer_main (Some tid) t0 evs tty T = None
    else \<exists>out T'. timer_main (Some tid) t0 evs tty T =
      Some (if list_ex (is_key (CHR ''q'')) evs
        then (Some 0, out, tty\<lparr>icanon := True, echo := True, vmin := 1\<rparr>, T)
        else (None, out, tty\<lparr>icanon := False, echo := False, vmin := 1\<rparr>, T')) \<and> T'(tid := None) = T) \<and>
    timer_main None t0 evs tty T = Some (Some (- 1), [], tty\<lparr>icanon := True, echo := True\<rparr>, T)"
proof -
  let ?T = "T(tid \<mapsto> \<lparr>period = 5000000000, expiry = Some (t0 + 5000000000)\<rparr>)"
  let ?st = "\<lparr>a_timers = ?T, a_stored = None, a_run = True, a_out = timer_usage\<rparr>"
  have start: "timer_settime t0 tid default_value (T(tid \<mapsto> \<lparr>period = 0, expiry = None\<rparr>)) =
      (0, Some (timer_spec t0 \<lparr>period = 0, expiry = None\<rparr>), ?T)"
    by (simp add: timer_settime_def default_value_def ts_valid_def ts_nanos_def)
  note main = timer_main_def timer_create_def start timer_getchar_once_def timer_termios_reset_def timer_delete_def Let_def
  have unset: "timer_loop tid evs ?st = None \<longleftrightarrow> resumes_unset Interval evs"
    by (rule loop_unset) (simp_all add: unset_def)
  have none: "timer_main None t0 evs tty T = Some (Some (- 1), [], tty\<lparr>icanon := True, echo := True\<rparr>, T)"
    by (simp add: timer_main_def timer_create_def timer_termios_reset_def)
  show ?thesis
  proof (cases "timer_loop tid evs ?st")
    case None
    then show ?thesis using unset none by (simp add: main)
  next
    case (Some r)
    then obtain ended st' where l: "timer_loop tid evs ?st = Some (ended, st')" by (cases r) simp
    have T: "(a_timers st')(tid := None) = T"
      using loop_frame(2) [OF l] assms by (auto simp: fun_eq_iff)
    have "timer_main (Some tid) t0 evs tty T =
        Some (if list_ex (is_key (CHR ''q'')) evs
          then (Some 0, a_out st', tty\<lparr>icanon := True, echo := True, vmin := 1\<rparr>, T)
          else (None, a_out st', tty\<lparr>icanon := False, echo := False, vmin := 1\<rparr>, a_timers st'))"
      using loop_frame(1) [OF l] T l by (simp add: main)
    moreover have "\<not> resumes_unset Interval evs" using unset l by simp
    ultimately show ?thesis using T none by auto
  qed
qed

text \<open>A run that pauses, resumes and ends; and one whose pause comes after the alarm has run out.\<close>

theorem timer_main_ends_witness:
  "(\<exists>out. timer_main (Some 1) 0
      [Key (ord_of (CHR ''p'')) 2000000000 0, Key (ord_of (CHR ''r'')) 100000000000 0, Alarm, Key (ord_of (CHR ''q'')) 0 0]
      \<lparr>icanon = True, echo = True, vmin = 0\<rparr> Map.empty =
    Some (Some 0, out, \<lparr>icanon = True, echo = True, vmin = 1\<rparr>, Map.empty)) \<and>
   timer_main (Some 1) 0
      [Key (ord_of (CHR ''o'')) 1000000000 0, Alarm, Key (ord_of (CHR ''p'')) 10000000000 0, Key (ord_of (CHR ''r'')) 11000000000 0]
      \<lparr>icanon = True, echo = True, vmin = 0\<rparr> Map.empty = None"
  using timer_main_ends [of Map.empty 1 "[Key (ord_of (CHR ''p'')) 2000000000 0, Key (ord_of (CHR ''r'')) 100000000000 0, Alarm,
      Key (ord_of (CHR ''q'')) 0 0]" 0 "\<lparr>icanon = True, echo = True, vmin = 0\<rparr>"]
    timer_main_ends [of Map.empty 1 "[Key (ord_of (CHR ''o'')) 1000000000 0, Alarm, Key (ord_of (CHR ''p'')) 10000000000 0,
      Key (ord_of (CHR ''r'')) 11000000000 0]" 0 "\<lparr>icanon = True, echo = True, vmin = 0\<rparr>"]
  by (auto simp: is_key_def stores_def arms_def)

end
