(* ===== verification/Module.thy ===== *)
theory Module
  imports Prelude
begin

text \<open>
  \<open>posix/module\<close>: modules register their start and exit functions in sections of the program, and
  \<open>do_initcalls\<close> and \<open>do_exitcalls\<close> run what the linker has gathered there. A compilation unit is the list
  of its section entries. The linker joins a section's entries in the order of the units and
  defines its \<open>__start_\<close> and \<open>__stop_\<close> symbols when it has entries; a function acts on the state of the
  program.
\<close>

subsection \<open>Registration: module.h\<close>

datatype 's call = Initcall "'s \<Rightarrow> int \<times> 's" | Exitcall "'s \<Rightarrow> 's"

type_synonym 's placement = "string \<times> 's call"

definition define_initcall :: "('s \<Rightarrow> int \<times> 's) \<Rightarrow> nat \<Rightarrow> 's placement" where
  "define_initcall fn level = (''initcall'' @ dec_nat level @ ''_init'', Initcall fn)"

definition core_initcall :: "('s \<Rightarrow> int \<times> 's) \<Rightarrow> 's placement" where
  "core_initcall fn = define_initcall fn 1"

definition user_initcall :: "('s \<Rightarrow> int \<times> 's) \<Rightarrow> 's placement" where
  "user_initcall fn = define_initcall fn 6"

definition late_initcall :: "('s \<Rightarrow> int \<times> 's) \<Rightarrow> 's placement" where
  "late_initcall fn = define_initcall fn 7"

definition exitcall :: "('s \<Rightarrow> 's) \<Rightarrow> 's placement" where
  "exitcall fn = (''exitcall_exit'', Exitcall fn)"

definition module_init :: "('s \<Rightarrow> int \<times> 's) \<Rightarrow> 's placement" where
  "module_init fn = user_initcall fn"

definition module_exit :: "('s \<Rightarrow> 's) \<Rightarrow> 's placement" where
  "module_exit fn = exitcall fn"

subsection \<open>The linked program\<close>

type_synonym 's image = "string \<Rightarrow> 's call list"

definition link :: "'s placement list list \<Rightarrow> 's image" where
  "link units = (\<lambda>sec. map snd (filter (\<lambda>e. fst e = sec) (concat units)))"

text \<open>Pointers into a section are indices; the symbols of an empty section do not exist.\<close>

record call_info =
  section_name :: string
  start :: nat
  stop :: nat

definition section_symbols :: "string \<Rightarrow> 's image \<Rightarrow> call_info option" where
  "section_symbols sec img = (if img sec = [] then None
     else Some \<lparr>section_name = sec, start = 0, stop = length (img sec)\<rparr>)"

subsection \<open>module.c\<close>

text \<open>The tables; \<^term>\<open>None\<close> when a symbol they name is not defined and the program does not link.\<close>

definition initcall_levels :: "'s image \<Rightarrow> call_info list option" where
  "initcall_levels img = do {
     l1 \<leftarrow> section_symbols ''initcall1_init'' img;
     l6 \<leftarrow> section_symbols ''initcall6_init'' img;
     l7 \<leftarrow> section_symbols ''initcall7_init'' img;
     Some [l1, l6, l7] }"

definition exitcalls :: "'s image \<Rightarrow> call_info list option" where
  "exitcalls img = do { e \<leftarrow> section_symbols ''exitcall_exit'' img; Some [e] }"

definition call_at :: "'s image \<Rightarrow> string \<Rightarrow> nat \<Rightarrow> 's call option" where
  "call_at img sec i = (if i < length (img sec) then Some (img sec ! i) else None)"

definition initcall_from_entry :: "'s image \<Rightarrow> string \<Rightarrow> nat \<Rightarrow> ('s \<Rightarrow> int \<times> 's) option" where
  "initcall_from_entry img sec i = (case call_at img sec i of Some (Initcall fn) \<Rightarrow> Some fn | _ \<Rightarrow> None)"

definition do_one_initcall :: "('s \<Rightarrow> int \<times> 's) \<Rightarrow> 's \<Rightarrow> int \<times> 's" where
  "do_one_initcall fn s = fn s"

function level_loop :: "'s image \<Rightarrow> call_info \<Rightarrow> nat \<Rightarrow> 's \<Rightarrow> 's option" where
  "level_loop img info i s =
     (if i < stop info
      then Option.bind (initcall_from_entry img (section_name info) i)
        (\<lambda>fn. level_loop img info (Suc i) (snd (do_one_initcall fn s)))
      else Some s)"
  by pat_completeness auto
termination by (relation "measure (\<lambda>(img, info, i, s). stop info - i)") auto

declare level_loop.simps [simp del]

definition do_initcall_level :: "'s image \<Rightarrow> call_info list \<Rightarrow> nat \<Rightarrow> 's \<Rightarrow> 's option" where
  "do_initcall_level img levels level s = level_loop img (levels ! level) (start (levels ! level)) s"

function levels_loop :: "'s image \<Rightarrow> call_info list \<Rightarrow> nat \<Rightarrow> 's \<Rightarrow> 's option" where
  "levels_loop img levels level s =
     (if level < length levels
      then Option.bind (do_initcall_level img levels level s) (levels_loop img levels (Suc level))
      else Some s)"
  by pat_completeness auto
termination by (relation "measure (\<lambda>(img, levels, level, s). length levels - level)") auto

declare levels_loop.simps [simp del]

definition do_initcalls :: "'s image \<Rightarrow> 's \<Rightarrow> 's option" where
  "do_initcalls img s = do { levels \<leftarrow> initcall_levels img; levels_loop img levels 0 s }"

definition exitcall_from_entry :: "'s image \<Rightarrow> string \<Rightarrow> nat \<Rightarrow> ('s \<Rightarrow> 's) option" where
  "exitcall_from_entry img sec i = (case call_at img sec i of Some (Exitcall fn) \<Rightarrow> Some fn | _ \<Rightarrow> None)"

definition do_one_exitcall :: "('s \<Rightarrow> 's) \<Rightarrow> 's \<Rightarrow> 's" where
  "do_one_exitcall fn s = fn s"

function exit_loop :: "'s image \<Rightarrow> call_info \<Rightarrow> nat \<Rightarrow> 's \<Rightarrow> 's option" where
  "exit_loop img info i s =
     (if i < stop info
      then Option.bind (exitcall_from_entry img (section_name info) i)
        (\<lambda>fn. exit_loop img info (Suc i) (do_one_exitcall fn s))
      else Some s)"
  by pat_completeness auto
termination by (relation "measure (\<lambda>(img, info, i, s). stop info - i)") auto

declare exit_loop.simps [simp del]

definition do_exitcalls :: "'s image \<Rightarrow> 's \<Rightarrow> 's option" where
  "do_exitcalls img s = do { ex \<leftarrow> exitcalls img; exit_loop img (hd ex) (start (hd ex)) s }"

definition dummy_init :: "'s \<Rightarrow> int \<times> 's" where "dummy_init s = (0, s)"
definition dummy_exit :: "'s \<Rightarrow> 's" where "dummy_exit s = s"

definition module_unit :: "'s placement list" where
  "module_unit = [core_initcall dummy_init, user_initcall dummy_init, late_initcall dummy_init, module_exit dummy_exit]"

subsection \<open>What is called, and when\<close>

text \<open>The placements the macros make: exit functions and only they are in the exit section.\<close>

definition macro_made :: "'s placement \<Rightarrow> bool" where
  "macro_made e \<longleftrightarrow> (case snd e of Initcall _ \<Rightarrow> fst e \<noteq> ''exitcall_exit'' | Exitcall _ \<Rightarrow> fst e = ''exitcall_exit'')"

lemma macro_made_simps [simp]:
  "macro_made (sec, Initcall fn) \<longleftrightarrow> sec \<noteq> ''exitcall_exit''"
  "macro_made (sec, Exitcall f) \<longleftrightarrow> sec = ''exitcall_exit''"
  by (simp_all add: macro_made_def)

fun init_fns :: "'s call list \<Rightarrow> ('s \<Rightarrow> int \<times> 's) list" where
  "init_fns [] = []"
| "init_fns (Initcall fn # cs) = fn # init_fns cs"
| "init_fns (Exitcall fn # cs) = init_fns cs"

fun exit_fns :: "'s call list \<Rightarrow> ('s \<Rightarrow> 's) list" where
  "exit_fns [] = []"
| "exit_fns (Initcall fn # cs) = exit_fns cs"
| "exit_fns (Exitcall fn # cs) = fn # exit_fns cs"

text \<open>The functions registered on a level, and the exit functions, in the order of the units.\<close>

definition inits :: "nat \<Rightarrow> 's placement list list \<Rightarrow> ('s \<Rightarrow> int \<times> 's) list" where
  "inits level units = init_fns (map snd (filter (\<lambda>e. fst e = ''initcall'' @ dec_nat level @ ''_init'') (concat units)))"

definition exits :: "'s placement list list \<Rightarrow> ('s \<Rightarrow> 's) list" where
  "exits units = exit_fns (map snd (concat units))"

definition run_inits :: "('s \<Rightarrow> int \<times> 's) list \<Rightarrow> 's \<Rightarrow> 's" where
  "run_inits fns s = fold (\<lambda>fn s. snd (fn s)) fns s"

lemma init_fns_all: "\<forall>c \<in> set cs. \<exists>fn. c = Initcall fn \<Longrightarrow> map Initcall (init_fns cs) = cs"
  by (induction cs rule: init_fns.induct) auto

lemma exit_fns_all: "\<forall>c \<in> set cs. \<exists>fn. c = Exitcall fn \<Longrightarrow> map Exitcall (exit_fns cs) = cs"
  by (induction cs rule: exit_fns.induct) auto

lemma level_loop_runs:
  assumes "img (section_name info) = map Initcall fns" and "stop info = length fns" and "i \<le> length fns"
  shows "level_loop img info i s = Some (run_inits (drop i fns) s)"
  using assms(3)
proof (induction "length fns - i" arbitrary: i s)
  case 0
  then show ?case using assms(2) by (subst level_loop.simps) (simp add: run_inits_def)
next
  case (Suc n)
  then have i: "i < length fns" by simp
  have "level_loop img info (Suc i) s' = Some (run_inits (drop (Suc i) fns) s')" for s'
    by (rule Suc.hyps(1)) (use Suc.hyps(2) i in simp_all)
  then show ?case
    using i assms(1,2) Cons_nth_drop_Suc [OF i, symmetric]
    by (subst level_loop.simps) (simp add: initcall_from_entry_def call_at_def do_one_initcall_def run_inits_def)
qed

lemma exit_loop_runs:
  assumes "img (section_name info) = map Exitcall fns" and "stop info = length fns" and "i \<le> length fns"
  shows "exit_loop img info i s = Some (fold (\<lambda>fn. fn) (drop i fns) s)"
  using assms(3)
proof (induction "length fns - i" arbitrary: i s)
  case 0
  then show ?case using assms(2) by (subst exit_loop.simps) simp
next
  case (Suc n)
  then have i: "i < length fns" by simp
  have "exit_loop img info (Suc i) s' = Some (fold (\<lambda>fn. fn) (drop (Suc i) fns) s')" for s'
    by (rule Suc.hyps(1)) (use Suc.hyps(2) i in simp_all)
  then show ?case
    using i assms(1,2) Cons_nth_drop_Suc [OF i, symmetric]
    by (subst exit_loop.simps) (simp add: exitcall_from_entry_def call_at_def do_one_exitcall_def)
qed

lemma link_set: "c \<in> set (link units sec) \<longleftrightarrow> (\<exists>u \<in> set units. (sec, c) \<in> set u)"
  by (force simp: link_def)

lemma link_inits:
  assumes "\<forall>u \<in> set units. \<forall>e \<in> set u. macro_made e" and "''initcall'' @ dec_nat level @ ''_init'' = sec"
  shows "link units sec = map Initcall (inits level units)"
proof -
  have "sec \<noteq> ''exitcall_exit''" using assms(2) by (auto dest: arg_cong [where f = hd])
  then have "\<exists>fn. c = Initcall fn" if "c \<in> set (link units sec)" for c
  proof (cases c)
    case (Exitcall f)
    then obtain u where "u \<in> set units" "(sec, Exitcall f) \<in> set u" using \<open>c \<in> set (link units sec)\<close> by (auto simp: link_set)
    then have "macro_made (sec, Exitcall f)" using assms(1) by blast
    then show ?thesis using \<open>sec \<noteq> ''exitcall_exit''\<close> by simp
  qed simp
  then have "\<forall>c \<in> set (link units sec). \<exists>fn. c = Initcall fn" by blast
  then have "map Initcall (init_fns (link units sec)) = link units sec" by (rule init_fns_all)
  then show ?thesis using assms(2) by (simp add: link_def inits_def)
qed

lemma link_exits:
  assumes "\<forall>u \<in> set units. \<forall>e \<in> set u. macro_made e"
  shows "link units ''exitcall_exit'' = map Exitcall (exits units)"
proof -
  have "exit_fns (map snd es) = exit_fns (map snd (filter (\<lambda>e. fst e = ''exitcall_exit'') es))"
    if "\<forall>e \<in> set es. macro_made e" for es :: "'a placement list"
    using that by (induction es) (auto simp: macro_made_def split: call.splits)
  then have e: "exits units = exit_fns (link units ''exitcall_exit'')"
    using assms by (auto simp: exits_def link_def)
  have "\<exists>fn. c = Exitcall fn" if c: "c \<in> set (link units ''exitcall_exit'')" for c
  proof (cases c)
    case (Initcall f)
    then obtain u where "u \<in> set units" "(''exitcall_exit'', Initcall f) \<in> set u"
      using c unfolding link_set by auto
    then have "macro_made (''exitcall_exit'', Initcall f)" using assms by blast
    then show ?thesis by simp
  qed simp
  then have "\<forall>c \<in> set (link units ''exitcall_exit''). \<exists>fn. c = Exitcall fn" by blast
  then show ?thesis unfolding e by (rule exit_fns_all [symmetric])
qed

lemma level_names: "''initcall'' @ dec_nat 1 @ ''_init'' = ''initcall1_init''"
  "''initcall'' @ dec_nat 6 @ ''_init'' = ''initcall6_init''" "''initcall'' @ dec_nat 7 @ ''_init'' = ''initcall7_init''"
  by code_simp+

lemma calls_run:
  fixes units :: "'s placement list list"
  assumes "\<forall>u \<in> set units. \<forall>e \<in> set u. macro_made e" and "module_unit \<in> set units"
  shows "do_initcalls (link units) s = Some (run_inits (inits 1 units @ inits 6 units @ inits 7 units) s) \<and>
    do_exitcalls (link units) s = Some (fold (\<lambda>fn. fn) (exits units) s)"
proof -
  note sec = link_inits [OF assms(1) level_names(1)] link_inits [OF assms(1) level_names(2)]
    link_inits [OF assms(1) level_names(3)] link_exits [OF assms(1)]
  have there: "link units sec \<noteq> []" if sec_in: "sec \<in> fst ` set (module_unit :: 's placement list)" for sec
  proof -
    obtain c where "(sec, c) \<in> set (module_unit :: 's placement list)" using sec_in by force
    then have "c \<in> set (link units sec)" using assms(2) by (auto simp: link_set)
    then show ?thesis by auto
  qed
  have "''initcall1_init'' \<in> fst ` set (module_unit :: 's placement list)"
    "''initcall6_init'' \<in> fst ` set (module_unit :: 's placement list)"
    "''initcall7_init'' \<in> fst ` set (module_unit :: 's placement list)"
    "''exitcall_exit'' \<in> fst ` set (module_unit :: 's placement list)"
    unfolding module_unit_def core_initcall_def user_initcall_def late_initcall_def define_initcall_def
      module_exit_def exitcall_def level_names by simp_all
  note some = this [THEN there, unfolded sec map_is_Nil_conv]
  have "inits 1 units \<noteq> []" "inits 6 units \<noteq> []" "inits 7 units \<noteq> []" "exits units \<noteq> []"
    using some by simp_all
  then show ?thesis
    using sec by (simp add: do_initcalls_def initcall_levels_def do_exitcalls_def exitcalls_def section_symbols_def
        levels_loop.simps do_initcall_level_def level_loop_runs exit_loop_runs run_inits_def)
qed

text \<open>C28: whatever the units register, a program that contains \<open>module.c\<close> links and runs, in this order, the
  functions of the core, the user and the late level, each level in the order of the units and
  whatever the functions return; functions of other levels never run. The exit functions run in
  the order of the units too, not in the reverse.
\<close>

theorem initcalls_in_level_order:
  fixes units :: "'s placement list list"
  assumes "\<forall>u \<in> set units. \<forall>e \<in> set u. macro_made e" and "module_unit \<in> set units"
  shows "do_initcalls (link units) s = Some (run_inits (inits 1 units @ inits 6 units @ inits 7 units) s) \<and>
    do_exitcalls (link units) s = Some (fold (\<lambda>fn. fn) (exits units) s)"
  by (rule calls_run [OF assms])

subsection \<open>The program\<close>

text \<open>The state is the text on \<open>stdout\<close>. \<open>mod1.c\<close> and \<open>mod2.c\<close> print where they are.\<close>

definition trace_line :: "string \<Rightarrow> string \<Rightarrow> nat \<Rightarrow> string" where
  "trace_line file func line = file @ ''/'' @ func @ '':'' @ dec_nat line @ newline"

definition mod1_init :: "string \<Rightarrow> int \<times> string" where
  "mod1_init out = (0, out @ trace_line ''mod1.c'' ''mod1_init'' 21)"

definition mod1_exit :: "string \<Rightarrow> string" where
  "mod1_exit out = out @ trace_line ''mod1.c'' ''mod1_exit'' 27"

definition mod2_init :: "string \<Rightarrow> int \<times> string" where
  "mod2_init out = (0, out @ trace_line ''mod2.c'' ''mod2_init'' 21)"

definition mod2_exit :: "string \<Rightarrow> string" where
  "mod2_exit out = out @ trace_line ''mod2.c'' ''mod2_exit'' 27"

definition mod1_unit :: "string placement list" where
  "mod1_unit = [module_init mod1_init, module_exit mod1_exit]"

definition mod2_unit :: "string placement list" where
  "mod2_unit = [module_init mod2_init, module_exit mod2_exit]"

definition module_main :: "string placement list list \<Rightarrow> (int \<times> string) option" where
  "module_main units = do {
     out \<leftarrow> do_initcalls (link units) [];
     let out = out @ ''do something...'' @ newline;
     out \<leftarrow> do_exitcalls (link units) out;
     Some (0, out) }"

text \<open>The functions a list of units registers, unit by unit.\<close>

lemma inits_Nil [simp]: "inits n [] = []" and exits_Nil [simp]: "exits [] = []"
  by (simp_all add: inits_def exits_def)

lemma init_fns_append: "init_fns (xs @ ys) = init_fns xs @ init_fns ys"
  by (induction xs rule: init_fns.induct) auto

lemma exit_fns_append: "exit_fns (xs @ ys) = exit_fns xs @ exit_fns ys"
  by (induction xs rule: exit_fns.induct) auto

lemma inits_Cons: "inits n (u # us) = inits n [u] @ inits n us"
  by (simp add: inits_def init_fns_append)

lemma exits_Cons: "exits (u # us) = exits [u] @ exits us"
  by (simp add: exits_def exit_fns_append)

lemmas registrations = module_init_def module_exit_def core_initcall_def user_initcall_def late_initcall_def
  define_initcall_def exitcall_def level_names

lemma inits_unit:
  "inits 1 [module_unit] = [dummy_init]" "inits 6 [module_unit] = [dummy_init]" "inits 7 [module_unit] = [dummy_init]"
  "inits 1 [mod1_unit] = []" "inits 6 [mod1_unit] = [mod1_init]" "inits 7 [mod1_unit] = []"
  "inits 1 [mod2_unit] = []" "inits 6 [mod2_unit] = [mod2_init]" "inits 7 [mod2_unit] = []"
  "inits n [[]] = []"
  unfolding inits_def level_names module_unit_def mod1_unit_def mod2_unit_def registrations by simp_all

lemma exits_unit:
  "exits [module_unit] = [dummy_exit]" "exits [mod1_unit] = [mod1_exit]" "exits [mod2_unit] = [mod2_exit]" "exits [[]] = []"
  unfolding exits_def level_names module_unit_def mod1_unit_def mod2_unit_def registrations by simp_all

lemma units_made: "u \<in> {[], mod1_unit, mod2_unit, module_unit} \<Longrightarrow> e \<in> set u \<Longrightarrow> macro_made e"
  unfolding mod1_unit_def mod2_unit_def module_unit_def registrations by auto

lemma module_main_run:
  assumes "set units \<subseteq> {[], mod1_unit, mod2_unit, module_unit}" and "module_unit \<in> set units"
  shows "module_main units = Some (0, fold (\<lambda>fn. fn) (exits units)
    (run_inits (inits 1 units @ inits 6 units @ inits 7 units) [] @ ''do something...'' @ newline))"
proof -
  have "\<forall>u \<in> set units. \<forall>e \<in> set u. macro_made e" using assms(1) units_made by blast
  note calls = calls_run [OF this assms(2)]
  show ?thesis by (simp add: module_main_def calls)
qed

text \<open>
  The program of \<open>posix/module\<close>, for two orders of its objects on the linker's command line: the
  modules start before and stop after \<open>main\<close> does its work, and stop in the order in which they
  started.
\<close>

theorem module_main_output:
  "module_main [[], mod1_unit, mod2_unit, module_unit] = Some (0,
     ''mod1.c/mod1_init:21'' @ newline @ ''mod2.c/mod2_init:21'' @ newline @ ''do something...'' @ newline @
     ''mod1.c/mod1_exit:27'' @ newline @ ''mod2.c/mod2_exit:27'' @ newline) \<and>
   module_main [module_unit, mod2_unit, mod1_unit, []] = Some (0,
     ''mod2.c/mod2_init:21'' @ newline @ ''mod1.c/mod1_init:21'' @ newline @ ''do something...'' @ newline @
     ''mod2.c/mod2_exit:27'' @ newline @ ''mod1.c/mod1_exit:27'' @ newline)"
proof -
  have lines: "dec_nat 21 = ''21''" "dec_nat 27 = ''27''" by code_simp+
  let ?a = "[[], mod1_unit, mod2_unit, module_unit]" and ?b = "[module_unit, mod2_unit, mod1_unit, []]"
  have i: "inits n ?a = inits n [mod1_unit] @ inits n [mod2_unit] @ inits n [module_unit]"
    "inits n ?b = inits n [module_unit] @ inits n [mod2_unit] @ inits n [mod1_unit]" for n
    by (simp_all add: inits_def init_fns_append)
  have e: "exits ?a = [mod1_exit, mod2_exit, dummy_exit]" "exits ?b = [dummy_exit, mod2_exit, mod1_exit]"
    using exits_unit by (simp_all add: exits_def exit_fns_append)
  have "module_main ?a = Some (0, fold (\<lambda>fn. fn) (exits ?a)
    (run_inits (inits 1 ?a @ inits 6 ?a @ inits 7 ?a) [] @ ''do something...'' @ newline))"
    "module_main ?b = Some (0, fold (\<lambda>fn. fn) (exits ?b)
    (run_inits (inits 1 ?b @ inits 6 ?b @ inits 7 ?b) [] @ ''do something...'' @ newline))"
    by (rule module_main_run; simp)+
  then show ?thesis
    unfolding i e inits_unit
    by (simp add: run_inits_def dummy_init_def dummy_exit_def mod1_init_def mod2_init_def mod1_exit_def
        mod2_exit_def trace_line_def lines)
qed

theorem initcalls_in_level_order_witness:
  "do_initcalls (link [mod1_unit, module_unit]) [] = Some (''mod1.c/mod1_init:21'' @ newline) \<and>
   do_exitcalls (link [mod1_unit, module_unit]) [] = Some (''mod1.c/mod1_exit:27'' @ newline)"
proof -
  have lines: "dec_nat 21 = ''21''" "dec_nat 27 = ''27''" by code_simp+
  have i: "inits n [mod1_unit, module_unit] = inits n [mod1_unit] @ inits n [module_unit]" for n
    by (simp add: inits_def init_fns_append)
  have e: "exits [mod1_unit, module_unit] = [mod1_exit, dummy_exit]"
    using exits_unit by (simp add: exits_def exit_fns_append)
  have "do_initcalls (link [mod1_unit, module_unit]) [] = Some (run_inits (inits 1 [mod1_unit, module_unit] @
      inits 6 [mod1_unit, module_unit] @ inits 7 [mod1_unit, module_unit]) []) \<and>
    do_exitcalls (link [mod1_unit, module_unit]) [] = Some (fold (\<lambda>fn. fn) (exits [mod1_unit, module_unit]) [])"
    by (rule initcalls_in_level_order) (use units_made in auto)
  then show ?thesis
    unfolding i e inits_unit
    by (simp add: run_inits_def dummy_init_def dummy_exit_def mod1_init_def mod1_exit_def trace_line_def lines)
qed

end
