(* ===== verification/Sockets.thy ===== *)
theory Sockets
  imports C_Strtol
begin

text \<open>
  The socket programs of \<open>posix\<close>: what the UDP and the TCP programs share. The network is not part of the
  repository. A resolver gives the answer of \<open>getaddrinfo\<close>, and each of its addresses says what
  \<open>socket\<close> and \<open>bind\<close> answer for it. \<open>fds\<close> is the set of open descriptors. Messages on \<open>stderr\<close> are not
  modelled.
\<close>

datatype sock_type = SOCK_STREAM | SOCK_DGRAM

record addrinfo =
  ai_socket :: int
  ai_bound :: bool

text \<open>\<open>Inl\<close> an error code, or the list of addresses.\<close>

type_synonym resolver = "sock_type \<Rightarrow> string \<Rightarrow> string option \<Rightarrow> int + addrinfo list"

text \<open>\<open>socket\<close> answers -1 or a descriptor that was not open.\<close>

definition addr_ok :: "int set \<Rightarrow> addrinfo \<Rightarrow> bool" where
  "addr_ok fds a \<longleftrightarrow> ai_socket a = - 1 \<or> (0 \<le> ai_socket a \<and> ai_socket a \<notin> fds)"

text \<open>The loop over the addresses.\<close>

fun addr_loop :: "addrinfo list \<Rightarrow> int \<Rightarrow> int set \<Rightarrow> int \<times> int set" where
  "addr_loop [] sd fds = (sd, fds)"
| "addr_loop (rp # rps) sd fds =
     (let sd = ai_socket rp in
      if sd = - 1 then addr_loop rps sd fds
      else let fds = insert sd fds in
        if ai_bound rp then (sd, fds)
        else addr_loop rps sd (fds - {sd}))"

definition socket_tcp :: "resolver \<Rightarrow> string \<Rightarrow> string option \<Rightarrow> int set \<Rightarrow> int \<times> int set" where
  "socket_tcp resolve node service fds =
     (case resolve SOCK_STREAM node service of Inl _ \<Rightarrow> (- 1, fds) | Inr res \<Rightarrow> addr_loop res (- 1) fds)"

definition socket_udp :: "resolver \<Rightarrow> string \<Rightarrow> string option \<Rightarrow> int set \<Rightarrow> int \<times> int set" where
  "socket_udp resolve node service fds =
     (case resolve SOCK_DGRAM node service of Inl _ \<Rightarrow> (- 1, fds) | Inr res \<Rightarrow> addr_loop res (- 1) fds)"

text \<open>The clients have their own copies of these functions.\<close>

definition client_socket_tcp :: "resolver \<Rightarrow> string \<Rightarrow> string option \<Rightarrow> int set \<Rightarrow> int \<times> int set" where
  "client_socket_tcp resolve node service fds =
     (case resolve SOCK_STREAM node service of Inl _ \<Rightarrow> (- 1, fds) | Inr res \<Rightarrow> addr_loop res (- 1) fds)"

definition client_socket_udp :: "resolver \<Rightarrow> string \<Rightarrow> string option \<Rightarrow> int set \<Rightarrow> int \<times> int set" where
  "client_socket_udp resolve node service fds =
     (case resolve SOCK_DGRAM node service of Inl _ \<Rightarrow> (- 1, fds) | Inr res \<Rightarrow> addr_loop res (- 1) fds)"

text \<open>\<open>socket_port\<close>: the answer of \<open>getsockname\<close> and \<open>*port\<close>, here in host order.\<close>

definition socket_port :: "(int \<Rightarrow> int \<times> u16) \<Rightarrow> int \<Rightarrow> int \<times> u16" where
  "socket_port getsockname fd = getsockname fd"

text \<open>
  The address a client sends to, \<open>sin_addr\<close> and \<open>sin_port\<close> in host order. A port that \<open>atoi\<close> cannot
  read into an \<open>int\<close> is undefined; when \<open>inet_aton\<close> refuses the host the address stays uninitialised (\<^term>\<open>None\<close>).
\<close>

type_synonym sockaddr = "u32 \<times> u16"

definition destination :: "(string \<Rightarrow> u32 option) \<Rightarrow> string \<Rightarrow> string \<Rightarrow> sockaddr option" where
  "destination inet_aton host port = do { n \<leftarrow> atoi port; a \<leftarrow> inet_aton host; Some (a, word_of_int n) }"

text \<open>An address for the examples: \<open>inet_aton\<close> that knows one host.\<close>

definition one_host :: "string \<Rightarrow> u32 option" where
  "one_host h = (if h = ''10.0.0.1'' then Some 0x0a000001 else None)"

lemma one_host_destination: "destination one_host ''10.0.0.1'' ''7'' = Some (0x0a000001, 7)"
  by (simp add: destination_def one_host_def atoi_def is_space_def digit_value_of_def)

text \<open>The size of the programs' buffers.\<close>

definition BUF_SIZE :: nat where "BUF_SIZE = 1500"

definition listening :: "string \<Rightarrow> u16 \<Rightarrow> string" where
  "listening proto port = ''listening '' @ proto @ '' on 0.0.0.0:'' @ dec_nat (unat port) @ newline"

definition received_from :: "nat \<Rightarrow> string \<times> string \<Rightarrow> string" where
  "received_from n nm = ''received '' @ dec_nat n @ '' bytes from '' @ fst nm @ '':'' @ snd nm @ newline"

subsection \<open>Which descriptor comes out\<close>

definition bindable :: "addrinfo \<Rightarrow> bool" where
  "bindable a \<longleftrightarrow> ai_socket a \<noteq> - 1 \<and> ai_bound a"

lemma addr_loop_result:
  assumes "list_all (addr_ok fds) rps"
  shows "addr_loop rps sd fds = (case find bindable rps of
      Some a \<Rightarrow> (ai_socket a, insert (ai_socket a) fds)
    | None \<Rightarrow> (if rps = [] then sd else ai_socket (last rps), fds))"
  using assms by (induction rps arbitrary: sd) (auto simp: bindable_def addr_ok_def Let_def split: option.splits)

text \<open>
  The contract of the four copies: the programs rely on no more. \<open>opens_one\<close> is the usual case, \<open>opens_no_more\<close> says
  that at most the descriptor returned stays open.
\<close>

locale socket_opener =
  fixes opens :: "resolver \<Rightarrow> string \<Rightarrow> string option \<Rightarrow> int set \<Rightarrow> int \<times> int set" and kind :: sock_type
  assumes refused: "resolve kind node service = Inl er \<Longrightarrow> opens resolve node service fds = (- 1, fds)"
    and tried: "\<lbrakk>resolve kind node service = Inr res; list_all (addr_ok fds) res\<rbrakk> \<Longrightarrow>
      opens resolve node service fds = (case find bindable res of
          Some a \<Rightarrow> (ai_socket a, insert (ai_socket a) fds)
        | None \<Rightarrow> (if res = [] then - 1 else ai_socket (last res), fds))"

context socket_opener begin

lemma opens_one:
  "\<lbrakk>resolve kind node service = Inr [\<lparr>ai_socket = sd, ai_bound = True\<rparr>]; 0 \<le> sd; sd \<notin> fds\<rbrakk> \<Longrightarrow>
   opens resolve node service fds = (sd, insert sd fds)"
  using tried [of resolve node service "[\<lparr>ai_socket = sd, ai_bound = True\<rparr>]" fds]
  by (simp add: addr_ok_def bindable_def)

lemma opens_no_more:
  assumes "\<And>res. resolve kind node service = Inr res \<Longrightarrow> list_all (addr_ok fds) res"
    and "opens resolve node service fds = (sd, fds')"
  shows "fds' = fds \<or> 0 \<le> sd \<and> sd \<notin> fds \<and> fds' = insert sd fds"
proof (cases "resolve kind node service")
  case (Inl er)
  then show ?thesis using refused [of resolve node service er fds] assms(2) by simp
next
  case (Inr res)
  note ok = assms(1) [OF Inr]
  show ?thesis
    using tried [of resolve node service res fds, OF Inr ok] assms(2) ok
    by (auto simp: find_Some_iff bindable_def addr_ok_def list_all_iff split: option.splits)
qed

end

interpretation tcp_open: socket_opener socket_tcp SOCK_STREAM
  by unfold_locales (simp_all add: socket_tcp_def addr_loop_result)

interpretation udp_open: socket_opener socket_udp SOCK_DGRAM
  by unfold_locales (simp_all add: socket_udp_def addr_loop_result)

interpretation tcp_client_open: socket_opener client_socket_tcp SOCK_STREAM
  by unfold_locales (simp_all add: client_socket_tcp_def addr_loop_result)

interpretation udp_client_open: socket_opener client_socket_udp SOCK_DGRAM
  by unfold_locales (simp_all add: client_socket_udp_def addr_loop_result)

text \<open>C33: the functions that open a socket, in the servers and the clients. When some address can be bound
  they return the socket of the first such, and it alone has been opened. When none can, nothing
  stays open, but the result is the answer of \<open>socket\<close> for the last address: -1 when \<open>socket\<close> failed for it, or
  there is no address; if that socket was opened and could not be bound the caller gets a closed descriptor, and no
  error.
\<close>

theorem socket_first_bindable:
  assumes "resolve SOCK_STREAM node service = Inr res" and "resolve SOCK_DGRAM node service = Inr res"
    and "list_all (addr_ok fds) res"
  shows "(case find bindable res of
      Some a \<Rightarrow> socket_tcp resolve node service fds = (ai_socket a, insert (ai_socket a) fds) \<and> 0 \<le> ai_socket a
    | None \<Rightarrow> socket_tcp resolve node service fds = (if res = [] then - 1 else ai_socket (last res), fds)) \<and>
   socket_udp resolve node service fds = socket_tcp resolve node service fds \<and>
   client_socket_tcp resolve node service fds = socket_tcp resolve node service fds \<and>
   client_socket_udp resolve node service fds = socket_tcp resolve node service fds"
proof -
  have pos: "0 \<le> ai_socket a" if "find bindable res = Some a" for a
    using that assms(3) by (auto simp: find_Some_iff bindable_def addr_ok_def list_all_iff)
  show ?thesis
    using pos tcp_open.tried [of resolve node service res fds, OF assms(1,3)] udp_open.tried [of resolve node service res fds, OF assms(2,3)]
      tcp_client_open.tried [of resolve node service res fds, OF assms(1,3)] udp_client_open.tried [of resolve node service res fds, OF assms(2,3)]
    by (auto split: option.splits)
qed

text \<open>One address whose port is taken: descriptor 3 is returned, and it is closed.\<close>

theorem socket_first_bindable_witness:
  "socket_tcp (\<lambda>_ _ _. Inr [\<lparr>ai_socket = 3, ai_bound = False\<rparr>]) ''0.0.0.0'' (Some ''80'') {0, 1, 2} = (3, {0, 1, 2})"
  using socket_first_bindable [of "\<lambda>_ _ _. Inr [\<lparr>ai_socket = 3, ai_bound = False\<rparr>]" "''0.0.0.0''" "Some ''80''"
      "[\<lparr>ai_socket = 3, ai_bound = False\<rparr>]" "{0, 1, 2}"]
  by (simp add: addr_ok_def bindable_def)

end
