(* ===== verification/Udp.thy ===== *)
theory Udp
  imports Sockets
begin

text \<open>
  \<open>posix/udp_server\<close> and \<open>posix/udp_client\<close>. What the system answers in one turn of a loop is a record; a run
  is described for every finite list of turns, after which the program has ended or waits for more.
  A peer is an address and port, kept as a number; \<open>getnameinfo\<close> gives its name or fails.
\<close>

type_synonym peer = nat

subsection \<open>The server\<close>

record turn =
  u_poll :: int
  u_recv :: "(u8 list \<times> peer) option"
  u_name :: "(string \<times> string) option"

text \<open>\<open>u_sent\<close> is what the server has handed to \<open>sendto\<close>, whose failure it only reports.\<close>

record udp_state =
  u_sent :: "(peer \<times> u8 list) list"
  u_out :: string

fun echo_server :: "turn list \<Rightarrow> udp_state \<Rightarrow> int option \<times> udp_state" where
  "echo_server [] st = (None, st)"
| "echo_server (e # es) st =
     (if u_poll e < 0 then (Some (- 1), st)
      else if u_poll e = 0 then echo_server es st
      else case u_recv e of
        None \<Rightarrow> (Some (- 1), st)
      | Some (dgram, from) \<Rightarrow>
          let buf = take BUF_SIZE dgram; nread = length buf in
          if nread = 0 then echo_server es st
          else
            let st = (case u_name e of Some nm \<Rightarrow> st\<lparr>u_out := u_out st @ received_from nread nm\<rparr> | None \<Rightarrow> st)
            in echo_server es (st\<lparr>u_sent := u_sent st @ [(from, buf)]\<rparr>))"

text \<open>\<open>main\<close> with the arguments after the program's name: the exit status, what it sent and printed, and the
  open descriptors.\<close>

definition udp_server_main ::
  "resolver \<Rightarrow> (int \<Rightarrow> int \<times> u16) \<Rightarrow> string list \<Rightarrow> turn list \<Rightarrow> int set \<Rightarrow> int option \<times> udp_state \<times> int set" where
  "udp_server_main resolve getsockname args es fds =
     (let st = \<lparr>u_sent = [], u_out = []\<rparr>;
          service = (case args of [] \<Rightarrow> None | a # _ \<Rightarrow> Some a) in
      case socket_udp resolve ''0.0.0.0'' service fds of (sd, fds) \<Rightarrow>
      if sd < 0 then (Some (- 1), st, fds)
      else case socket_port getsockname sd of (ret, port) \<Rightarrow>
        if ret < 0 then (Some (- 1), st, fds - {sd})
        else case echo_server es (st\<lparr>u_out := u_out st @ listening ''udp'' port\<rparr>) of
            (None, st) \<Rightarrow> (None, st, fds)
          | (Some _, st) \<Rightarrow> (Some 0, st, fds - {sd}))"

text \<open>A turn that makes the server give up, and the replies to the others.\<close>

definition turn_fails :: "turn \<Rightarrow> bool" where
  "turn_fails e \<longleftrightarrow> u_poll e < 0 \<or> (u_poll e > 0 \<and> u_recv e = None)"

definition reply :: "turn \<Rightarrow> (peer \<times> u8 list) list" where
  "reply e = (case u_recv e of Some (dgram, from) \<Rightarrow>
     if u_poll e > 0 \<and> dgram \<noteq> [] then [(from, take 1500 dgram)] else [] | None \<Rightarrow> [])"

definition report :: "turn \<Rightarrow> string" where
  "report e = (case (u_recv e, u_name e) of
     (Some (dgram, from), Some nm) \<Rightarrow> if u_poll e > 0 \<and> dgram \<noteq> [] then received_from (length (take 1500 dgram)) nm else []
   | _ \<Rightarrow> [])"

lemma echo_server_replies:
  "fst (echo_server es st) = (if list_ex turn_fails es then Some (- 1) else None)"
  "u_sent (snd (echo_server es st)) = u_sent st @ concat (map reply (takeWhile (\<lambda>e. \<not> turn_fails e) es))"
  "u_out (snd (echo_server es st)) = u_out st @ concat (map report (takeWhile (\<lambda>e. \<not> turn_fails e) es))"
  by (induction es arbitrary: st)
    (auto simp: turn_fails_def reply_def report_def BUF_SIZE_def Let_def split: option.splits)

text \<open>C31: the UDP server hands to \<open>sendto\<close> every datagram it receives, cut to 1500 bytes, to where it came from and
  in their order, and prints a line for each whose sender has a name; it ignores time-outs and empty datagrams, and it ends, with status 0 and its
  socket closed, exactly when \<open>poll\<close> or \<open>recvfrom\<close> fails.
\<close>

theorem udp_server_echoes:
  assumes "resolve SOCK_DGRAM ''0.0.0.0'' (Some service) = Inr [\<lparr>ai_socket = sd, ai_bound = True\<rparr>]"
    and "0 \<le> sd" and "sd \<notin> fds" and "getsockname sd = (0, port)"
  shows "udp_server_main resolve getsockname (service # args) es fds =
     (if list_ex turn_fails es then Some 0 else None,
      \<lparr>u_sent = concat (map reply (takeWhile (\<lambda>e. \<not> turn_fails e) es)),
       u_out = listening ''udp'' port @ concat (map report (takeWhile (\<lambda>e. \<not> turn_fails e) es))\<rparr>,
      if list_ex turn_fails es then fds else insert sd fds)"
proof -
  let ?st = "\<lparr>u_sent = [], u_out = listening ''udp'' port\<rparr>" and ?served = "takeWhile (\<lambda>e. \<not> turn_fails e) es"
  obtain s st where e: "echo_server es ?st = (s, st)" by (cases "echo_server es ?st")
  have "s = (if list_ex turn_fails es then Some (- 1) else None)"
    and "st = \<lparr>u_sent = concat (map reply ?served), u_out = listening ''udp'' port @ concat (map report ?served)\<rparr>"
    using echo_server_replies [of es ?st] e by simp_all
  then show ?thesis
    using assms(2-4) e udp_open.opens_one [of resolve, OF assms(1-3)] by (auto simp: udp_server_main_def socket_port_def Let_def)
qed

subsection \<open>The client\<close>

text \<open>\<open>c_sent\<close> is the answer of \<open>sendto\<close>. The client keeps what it has handed to \<open>sendto\<close>, with the address.\<close>

record answered =
  c_sent :: int
  c_poll :: int
  c_recv :: "u8 list option"
  c_name :: "(string \<times> string) option"

record client_state =
  c_msgs :: "(sockaddr \<times> string) list"
  c_out :: string

text \<open>\<open>recvfrom\<close> writes to the variable that holds the address, but each round fills it in again before it sends.\<close>

fun udp_client :: "sockaddr option \<Rightarrow> string list \<Rightarrow> answered list \<Rightarrow> client_state \<Rightarrow> (int option \<times> client_state) option" where
  "udp_client dest [] es st = Some (Some 0, st)"
| "udp_client dest (a # as) es st =
     (if length a > BUF_SIZE then udp_client dest as es st
      else case dest of None \<Rightarrow> None | Some peer \<Rightarrow>
      case es of
        [] \<Rightarrow> Some (None, st)
      | e # es \<Rightarrow>
          let st = st\<lparr>c_msgs := c_msgs st @ [(peer, a)]\<rparr> in
          if c_sent e \<noteq> int (length a) then Some (Some (- 1), st)
          else if c_poll e < 0 then Some (Some (- 1), st)
          else if c_poll e = 0 then udp_client dest as es st
          else case c_recv e of
            None \<Rightarrow> Some (Some (- 1), st)
          | Some dgram \<Rightarrow>
              let nread = length (take BUF_SIZE dgram) in
              if nread = 0 then udp_client dest as es st
              else case c_name e of
                Some nm \<Rightarrow> udp_client dest as es (st\<lparr>c_out := c_out st @ received_from nread nm\<rparr>)
              | None \<Rightarrow> udp_client dest as es st)"

text \<open>\<open>argv\<close> after the program's name: host, port and messages.\<close>

definition udp_client_main ::
  "resolver \<Rightarrow> (string \<Rightarrow> u32 option) \<Rightarrow> string list \<Rightarrow> answered list \<Rightarrow> int set \<Rightarrow>
    (int option \<times> client_state \<times> int set) option" where
  "udp_client_main resolve inet_aton args es fds =
     (let st = \<lparr>c_msgs = [], c_out = []\<rparr> in
      if length args < 2 then Some (Some (- 1), st, fds)
      else case client_socket_udp resolve ''0.0.0.0'' None fds of (sd, fds) \<Rightarrow>
        if sd < 0 then Some (Some (- 1), st, fds)
        else case udp_client (destination inet_aton (args ! 0) (args ! 1)) (drop 2 args) es st of
            None \<Rightarrow> None
          | Some (None, st) \<Rightarrow> Some (None, st, fds)
          | Some (Some _, st) \<Rightarrow> Some (Some 0, st, fds - {sd}))"

theorem udp_server_echoes_witness:
  "udp_server_main (\<lambda>_ _ _. Inr [\<lparr>ai_socket = 3, ai_bound = True\<rparr>]) (\<lambda>_. (0, 7)) [''7'']
      [\<lparr>u_poll = 0, u_recv = None, u_name = None\<rparr>, \<lparr>u_poll = 1, u_recv = Some ([1, 2], 9), u_name = None\<rparr>,
       \<lparr>u_poll = - 1, u_recv = None, u_name = None\<rparr>, \<lparr>u_poll = 1, u_recv = Some ([3], 9), u_name = None\<rparr>] {0, 1, 2} =
    (Some 0, \<lparr>u_sent = [(9, [1, 2])], u_out = listening ''udp'' 7\<rparr>, {0, 1, 2})"
  using udp_server_echoes [of "\<lambda>_ _ _. Inr [\<lparr>ai_socket = 3, ai_bound = True\<rparr>]" "''7''" 3 "{0, 1, 2}" "\<lambda>_. (0, 7)" 7 "[]"
      "[\<lparr>u_poll = 0, u_recv = None, u_name = None\<rparr>, \<lparr>u_poll = 1, u_recv = Some ([1, 2], 9), u_name = None\<rparr>,
       \<lparr>u_poll = - 1, u_recv = None, u_name = None\<rparr>, \<lparr>u_poll = 1, u_recv = Some ([3], 9), u_name = None\<rparr>]"]
  by (simp add: turn_fails_def reply_def report_def)

subsection \<open>What a client does\<close>

text \<open>An attempt is a message with what the system answers to it. \<open>gave_up\<close>: the client returns -1 there.\<close>

definition gave_up :: "string \<times> answered \<Rightarrow> bool" where
  "gave_up a \<longleftrightarrow> c_sent (snd a) \<noteq> int (length (fst a)) \<or> c_poll (snd a) < 0 \<or>
     (c_poll (snd a) > 0 \<and> c_recv (snd a) = None)"

definition noted :: "string \<times> answered \<Rightarrow> string" where
  "noted a = (case (c_recv (snd a), c_name (snd a)) of
     (Some dgram, Some nm) \<Rightarrow> if c_poll (snd a) > 0 \<and> dgram \<noteq> [] then received_from (length (take 1500 dgram)) nm else []
   | _ \<Rightarrow> [])"

lemma udp_client_exact:
  assumes "short = filter (\<lambda>m. length m \<le> 1500) ms" and "tries = zip short es"
    and "served = takeWhile (\<lambda>a. \<not> gave_up a) tries"
  shows "udp_client (Some peer) ms es st =
    Some (if list_ex gave_up tries then Some (- 1) else if length short \<le> length es then Some 0 else None,
      \<lparr>c_msgs = c_msgs st @ map (Pair peer \<circ> fst) (take (Suc (length served)) tries),
       c_out = c_out st @ concat (map noted served)\<rparr>)"
  using assms
proof (induction ms arbitrary: short tries served es st)
  case (Cons a ms)
  show ?case
  proof (cases "length a > 1500 \<or> es = []")
    case True
    then show ?thesis using Cons.prems by (cases es) (auto simp: BUF_SIZE_def Cons.IH [OF refl refl refl])
  next
    case False
    then obtain e rest where es: "es = e # rest" by (cases es) auto
    show ?thesis
      using False unfolding Cons.prems es
      by (cases "c_recv e"; cases "c_name e")
        (auto simp: BUF_SIZE_def Let_def gave_up_def noted_def min_def Cons.IH [OF refl refl refl] split: if_splits)
  qed
qed simp

lemma udp_client_nowhere:
  "udp_client None ms es st = (if filter (\<lambda>m. length m \<le> 1500) ms = [] then Some (Some 0, st) else None)"
  by (induction ms) (auto simp: BUF_SIZE_def)

text \<open>C30: the UDP client, for any answers of the system. With a socket it could bind it hands to \<open>sendto\<close> its
  messages of at most 1500 bytes, in their order and to the address of its arguments, up to the first of which
  \<open>sendto\<close> does not take all bytes, or after which \<open>poll\<close> or \<open>recvfrom\<close> fails; a time-out, an empty datagram and a
  sender without a name stop nothing, every other datagram gives a line with its length, cut to 1500. It ends when it
  has given up or has no message left, with status 0 also when it gave up, and its socket is closed then. When
  its arguments give no address it is undefined exactly when it has a message to send.
\<close>

theorem udp_client_main_sends:
  assumes "resolve SOCK_DGRAM ''0.0.0.0'' None = Inr res" and "list_all (addr_ok fds) res" and "find bindable res = Some a"
    and "short = filter (\<lambda>m. length m \<le> 1500) ms" and "tries = zip short es"
    and "served = takeWhile (\<lambda>a. \<not> gave_up a) tries" and "ends = (list_ex gave_up tries \<or> length short \<le> length es)"
  shows "udp_client_main resolve inet_aton (host # port # ms) es fds =
    (case destination inet_aton host port of
      None \<Rightarrow> if short = [] then Some (Some 0, \<lparr>c_msgs = [], c_out = []\<rparr>, fds) else None
    | Some peer \<Rightarrow> Some (if ends then Some 0 else None,
        \<lparr>c_msgs = map (Pair peer \<circ> fst) (take (Suc (length served)) tries), c_out = concat (map noted served)\<rparr>,
        if ends then fds else insert (ai_socket a) fds))"
proof -
  have sd: "0 \<le> ai_socket a" "ai_socket a \<notin> fds"
    using assms(2,3) by (auto simp: find_Some_iff bindable_def addr_ok_def list_all_iff)
  have "client_socket_udp resolve ''0.0.0.0'' None fds = (ai_socket a, insert (ai_socket a) fds)"
    using udp_client_open.tried [of resolve, OF assms(1,2)] assms(3) by simp
  then show ?thesis
    using sd udp_client_nowhere [of ms es] by (auto simp: udp_client_main_def udp_client_exact [OF assms(4-6)] assms(4,7) Let_def split: option.splits)
qed

text \<open>Of four messages one is too long; the second comes back, the third is not sent whole.\<close>

theorem udp_client_main_sends_witness:
  "udp_client_main (\<lambda>_ _ _. Inr [\<lparr>ai_socket = 3, ai_bound = True\<rparr>]) one_host
      [''10.0.0.1'', ''7'', ''a'', replicate 1501 CHR ''x'', ''bc'', ''d'', ''e'']
      [\<lparr>c_sent = 1, c_poll = 0, c_recv = None, c_name = None\<rparr>,
       \<lparr>c_sent = 2, c_poll = 1, c_recv = Some [98, 99], c_name = Some (''h'', ''7'')\<rparr>,
       \<lparr>c_sent = - 1, c_poll = 0, c_recv = None, c_name = None\<rparr>, \<lparr>c_sent = 1, c_poll = 0, c_recv = None, c_name = None\<rparr>] {0} =
    Some (Some 0, \<lparr>c_msgs = [((0x0a000001, 7), ''a''), ((0x0a000001, 7), ''bc''), ((0x0a000001, 7), ''d'')],
      c_out = ''received 2 bytes from h:7'' @ newline\<rparr>, {0})"
proof -
  have line: "received_from (Suc (Suc 0)) (''h'', ''7'') = ''received 2 bytes from h:7'' @ newline" by code_simp
  show ?thesis
    by (subst udp_client_main_sends [OF _ _ _ refl refl refl refl, of _ "[\<lparr>ai_socket = 3, ai_bound = True\<rparr>]" _ "\<lparr>ai_socket = 3, ai_bound = True\<rparr>"])
      (simp_all add: addr_ok_def bindable_def one_host_destination gave_up_def noted_def line)
qed

end
