(* ===== verification/Tcp.thy ===== *)
theory Tcp
  imports Sockets
begin

text \<open>
  \<open>posix/tcp_server\<close> and \<open>posix/tcp_client\<close>. As for UDP, a turn holds what the system answers, and a run is
  described for every finite list of turns. The server starts a thread for every connection; the
  threads share nothing but \<open>stdout\<close>, so each is described alone.
\<close>

subsection \<open>A connection\<close>

text \<open>
  \<open>recv\<close> answers an error, or some bytes of the stream; none when the peer has shut it down. \<open>send\<close> answers -1 or
  how many of the bytes it took; the server only reports it when they are not all.
\<close>

record stream_turn =
  t_poll :: int
  t_recv :: "u8 list option"
  t_send :: int

record conn =
  t_sent :: "u8 list"
  t_out :: string

text \<open>
  \<open>echo_server\<close> after \<open>getnameinfo\<close>: when that failed the name is not initialised, and printing it is
  undefined (\<^term>\<open>None\<close>). The flag tells whether the thread has ended.
\<close>

fun conn_loop :: "(string \<times> string) option \<Rightarrow> stream_turn list \<Rightarrow> conn \<Rightarrow> (bool \<times> conn) option" where
  "conn_loop nm [] st = Some (False, st)"
| "conn_loop nm (e # es) st =
     (if t_poll e < 0 then Some (True, st)
      else if t_poll e = 0 then conn_loop nm es st
      else case t_recv e of
        None \<Rightarrow> Some (True, st)
      | Some bs \<Rightarrow>
          let buf = take BUF_SIZE bs; nread = length buf in
          if nread = 0 then conn_loop nm es st
          else case nm of
            None \<Rightarrow> None
          | Some n \<Rightarrow> conn_loop nm es
              (st\<lparr>t_out := t_out st @ received_from nread n, t_sent := t_sent st @ take (nat (t_send e)) buf\<rparr>))"

definition echo_thread :: "(string \<times> string) option \<Rightarrow> stream_turn list \<Rightarrow> (bool \<times> conn) option" where
  "echo_thread nm es = conn_loop nm es \<lparr>t_sent = [], t_out = []\<rparr>"

subsection \<open>The server\<close>

text \<open>
  What the system answers while the server waits for one connection. \<open>v_peers\<close> are the sockets in the
  \<open>peer_data_s\<close> blocks that are allocated, each handed to a thread.
\<close>

record accept_turn =
  v_memory :: bool
  v_listen :: int
  v_accept :: int

record server =
  v_fds :: "int set"
  v_peers :: "int list"

fun tcp_server :: "accept_turn list \<Rightarrow> server \<Rightarrow> int option \<times> server" where
  "tcp_server [] st = (None, st)"
| "tcp_server (e # es) st =
     (if \<not> v_memory e then (Some (- 1), st)
      else if v_listen e < 0 then (Some (- 1), st)
      else if v_accept e < 0 then (Some (- 1), st)
      else tcp_server es (st\<lparr>v_fds := insert (v_accept e) (v_fds st), v_peers := v_peers st @ [v_accept e]\<rparr>))"

definition tcp_server_main ::
  "resolver \<Rightarrow> (int \<Rightarrow> int \<times> u16) \<Rightarrow> string list \<Rightarrow> accept_turn list \<Rightarrow> int set \<Rightarrow> int option \<times> string \<times> server" where
  "tcp_server_main resolve getsockname args es fds =
     (let service = (case args of [] \<Rightarrow> None | a # _ \<Rightarrow> Some a) in
      case socket_tcp resolve ''0.0.0.0'' service fds of (sd, fds) \<Rightarrow>
      if sd < 0 then (Some (- 1), [], \<lparr>v_fds = fds, v_peers = []\<rparr>)
      else case socket_port getsockname sd of (ret, port) \<Rightarrow>
        if ret < 0 then (Some (- 1), [], \<lparr>v_fds = fds - {sd}, v_peers = []\<rparr>)
        else case tcp_server es \<lparr>v_fds = fds, v_peers = []\<rparr> of
            (None, st) \<Rightarrow> (None, listening ''tcp'' port, st)
          | (Some _, st) \<Rightarrow> (Some 0, listening ''tcp'' port, st\<lparr>v_fds := v_fds st - {sd}\<rparr>))"

definition accepts :: "accept_turn \<Rightarrow> bool" where
  "accepts e \<longleftrightarrow> v_memory e \<and> 0 \<le> v_listen e \<and> 0 \<le> v_accept e"

lemma tcp_server_peers:
  "tcp_server es st = (if list_all accepts es then None else Some (- 1),
     \<lparr>v_fds = v_fds st \<union> v_accept ` set (takeWhile accepts es), v_peers = v_peers st @ map v_accept (takeWhile accepts es)\<rparr>)"
  by (induction es arbitrary: st) (auto simp: accepts_def)

text \<open>
  The TCP server accepts connections, each handed to a thread with its own block, until memory,
  \<open>listen\<close> or \<open>accept\<close> fails; then it ends with status 0 and closes the socket it listened on. No socket of a
  connection is ever closed, and no block freed.
\<close>

theorem tcp_server_accepts:
  assumes "resolve SOCK_STREAM ''0.0.0.0'' (Some service) = Inr [\<lparr>ai_socket = sd, ai_bound = True\<rparr>]"
    and "0 \<le> sd" and "sd \<notin> fds" and "sd \<notin> v_accept ` set es" and "getsockname sd = (0, port)"
  shows "tcp_server_main resolve getsockname (service # args) es fds =
     (if list_all accepts es then None else Some 0, listening ''tcp'' port,
      \<lparr>v_fds = fds \<union> v_accept ` set (takeWhile accepts es) \<union> (if list_all accepts es then {sd} else {}),
       v_peers = map v_accept (takeWhile accepts es)\<rparr>)"
proof -
  have "sd \<notin> v_accept ` set (takeWhile accepts es)" using assms(4) by (auto dest: set_takeWhileD)
  then show ?thesis
    using assms(2-5) tcp_open.opens_one [of resolve, OF assms(1-3)]
    by (auto simp: tcp_server_main_def socket_port_def tcp_server_peers Let_def)
qed

theorem tcp_server_accepts_witness:
  "tcp_server_main (\<lambda>_ _ _. Inr [\<lparr>ai_socket = 3, ai_bound = True\<rparr>]) (\<lambda>_. (0, 7)) [''7'']
      [\<lparr>v_memory = True, v_listen = 0, v_accept = 4\<rparr>, \<lparr>v_memory = True, v_listen = 0, v_accept = - 1\<rparr>] {0} =
    (Some 0, listening ''tcp'' 7, \<lparr>v_fds = {0, 4}, v_peers = [4]\<rparr>)"
  by (subst tcp_server_accepts [of _ "''7''" 3 _ _ _ 7 "[]"]) (auto simp: accepts_def)

text \<open>A turn that ends a connection's thread.\<close>

definition conn_fails :: "stream_turn \<Rightarrow> bool" where
  "conn_fails e \<longleftrightarrow> t_poll e < 0 \<or> (t_poll e > 0 \<and> t_recv e = None)"

definition echoed :: "stream_turn \<Rightarrow> u8 list" where
  "echoed e = (if t_poll e > 0 then take (nat (t_send e)) (take 1500 (case t_recv e of None \<Rightarrow> [] | Some bs \<Rightarrow> bs)) else [])"

text \<open>What a thread gets at the end of the stream, and a turn in which \<open>send\<close> takes all that was received.\<close>

definition end_of_stream :: stream_turn where
  "end_of_stream = \<lparr>t_poll = 1, t_recv = Some [], t_send = 0\<rparr>"

definition all_taken :: "stream_turn \<Rightarrow> bool" where
  "all_taken e = (case t_recv e of None \<Rightarrow> True | Some bs \<Rightarrow> length bs \<le> 1500 \<and> t_send e = int (length bs))"

definition arrived :: "stream_turn \<Rightarrow> u8 list" where
  "arrived e = (if t_poll e > 0 then (case t_recv e of None \<Rightarrow> [] | Some bs \<Rightarrow> bs) else [])"

lemma echoed_all_taken: "list_all all_taken es \<Longrightarrow> concat (map echoed es) = concat (map arrived es)"
  by (induction es) (auto simp: all_taken_def echoed_def arrived_def split: option.splits)

definition reported :: "string \<times> string \<Rightarrow> stream_turn \<Rightarrow> string" where
  "reported n e = (if arrived e = [] then [] else received_from (length (take 1500 (arrived e))) n)"

lemma conn_loop_echo:
  "conn_loop (Some n) es st = Some (list_ex conn_fails es,
     \<lparr>t_sent = t_sent st @ concat (map echoed (takeWhile (\<lambda>e. \<not> conn_fails e) es)),
      t_out = t_out st @ concat (map (reported n) (takeWhile (\<lambda>e. \<not> conn_fails e) es))\<rparr>)"
proof (induction es arbitrary: st)
  case (Cons e es)
  show ?case
    by (cases "t_recv e")
      (auto simp: Cons.IH conn_fails_def echoed_def reported_def arrived_def BUF_SIZE_def Let_def)
qed simp

lemma echo_thread_result:
  "echo_thread (Some n) es = Some (list_ex conn_fails es,
     \<lparr>t_sent = concat (map echoed (takeWhile (\<lambda>e. \<not> conn_fails e) es)),
      t_out = concat (map (reported n) (takeWhile (\<lambda>e. \<not> conn_fails e) es))\<rparr>)"
  by (simp add: echo_thread_def conn_loop_echo)

lemma concat_served:
  assumes "f end_of_stream = []"
  shows "concat (map f (takeWhile (\<lambda>e. \<not> conn_fails e) (es @ replicate k end_of_stream))) =
    concat (map f (takeWhile (\<lambda>e. \<not> conn_fails e) es))"
  by (induction es) (simp_all add: assms takeWhile_replicate)

text \<open>C32: a thread sends back the bytes it receives, in their order, as many of each read as \<open>send\<close> takes, prints
  a line for each read, and ends when \<open>poll\<close> or \<open>recv\<close> fails; what a short \<open>send\<close> leaves is lost, and when every
  \<open>send\<close> takes all, exactly the received bytes come back. The end of the stream, where \<open>recv\<close> answers at once with
  nothing, does not end the thread and changes nothing: it then polls for ever.
\<close>

theorem echo_thread_echoes:
  assumes "served = takeWhile (\<lambda>e. \<not> conn_fails e) es"
  shows "echo_thread (Some n) es =
      Some (list_ex conn_fails es, \<lparr>t_sent = concat (map echoed served), t_out = concat (map (reported n) served)\<rparr>) \<and>
    (list_all all_taken served \<longrightarrow> concat (map echoed served) = concat (map arrived served)) \<and>
    echo_thread (Some n) (es @ replicate k end_of_stream) = echo_thread (Some n) es"
proof -
  have eof: "\<not> conn_fails end_of_stream" "echoed end_of_stream = []" "reported n end_of_stream = []"
    by (simp_all add: conn_fails_def echoed_def end_of_stream_def reported_def arrived_def)
  have "list_ex conn_fails (es @ replicate k end_of_stream) = list_ex conn_fails es"
    using eof(1) by (induction k) (simp_all add: list_ex_iff)
  then show ?thesis
    using eof echoed_all_taken [of served] by (simp add: echo_thread_result assms concat_served)
qed

text \<open>Three bytes of which \<open>send\<close> takes two, then the end of the stream.\<close>

theorem echo_thread_echoes_witness:
  "echo_thread (Some (''host'', ''7'')) ([\<lparr>t_poll = 1, t_recv = Some [1, 2, 3], t_send = 2\<rparr>] @ replicate 5 end_of_stream) =
    Some (False, \<lparr>t_sent = [1, 2], t_out = ''received 3 bytes from host:7'' @ newline\<rparr>)"
proof -
  have "reported (''host'', ''7'') \<lparr>t_poll = 1, t_recv = Some [1, 2, 3], t_send = 2\<rparr> = ''received 3 bytes from host:7'' @ newline"
    by code_simp
  then show ?thesis
    using echo_thread_echoes [OF refl, of "(''host'', ''7'')" "[\<lparr>t_poll = 1, t_recv = Some [1, 2, 3], t_send = 2\<rparr>]" 5]
    by (simp add: conn_fails_def echoed_def)
qed

subsection \<open>The client\<close>

record tcp_answer =
  r_sent :: int
  r_poll :: int
  r_recv :: "u8 list option"

record tcp_client_state =
  r_msgs :: "string list"
  r_out :: string

fun tcp_client :: "string list \<Rightarrow> tcp_answer list \<Rightarrow> tcp_client_state \<Rightarrow> int option \<times> tcp_client_state" where
  "tcp_client [] es st = (Some 0, st)"
| "tcp_client (a # as) es st =
     (if length a > BUF_SIZE then tcp_client as es st
      else case es of
        [] \<Rightarrow> (None, st)
      | e # es \<Rightarrow>
          let st = st\<lparr>r_msgs := r_msgs st @ [a]\<rparr> in
          if r_sent e \<noteq> int (length a) then (Some (- 1), st)
          else if r_poll e < 0 then (Some (- 1), st)
          else if r_poll e = 0 then tcp_client as es st
          else case r_recv e of
            None \<Rightarrow> (Some (- 1), st)
          | Some bs \<Rightarrow>
              let nread = length (take BUF_SIZE bs) in
              if nread = 0 then tcp_client as es st
              else tcp_client as es (st\<lparr>r_out := r_out st @ ''received '' @ dec_nat nread @ '' bytes'' @ newline\<rparr>))"

text \<open>\<open>connect\<close> is the system's answer for an address.\<close>

definition tcp_client_main ::
  "resolver \<Rightarrow> (string \<Rightarrow> u32 option) \<Rightarrow> (sockaddr \<Rightarrow> int) \<Rightarrow> string list \<Rightarrow> tcp_answer list \<Rightarrow> int set \<Rightarrow>
    (int option \<times> tcp_client_state \<times> int set) option" where
  "tcp_client_main resolve inet_aton connect args es fds =
     (let st = \<lparr>r_msgs = [], r_out = []\<rparr> in
      if length args < 2 then Some (Some (- 1), st, fds)
      else case client_socket_tcp resolve ''0.0.0.0'' None fds of (sd, fds) \<Rightarrow>
        if sd < 0 then Some (Some (- 1), st, fds)
        else case destination inet_aton (args ! 0) (args ! 1) of None \<Rightarrow> None | Some peer_addr \<Rightarrow>
        if connect peer_addr < 0 then Some (Some (- 1), st, fds - {sd})
        else Some (case tcp_client (drop 2 args) es st of
            (None, st) \<Rightarrow> (None, st, fds)
          | (Some _, st) \<Rightarrow> (Some 0, st, fds - {sd})))"

text \<open>As for UDP: an attempt is a message with what the system answers to it.\<close>

definition tcp_gave_up :: "string \<times> tcp_answer \<Rightarrow> bool" where
  "tcp_gave_up a \<longleftrightarrow> r_sent (snd a) \<noteq> int (length (fst a)) \<or> r_poll (snd a) < 0 \<or>
     (r_poll (snd a) > 0 \<and> r_recv (snd a) = None)"

definition counted :: "string \<times> tcp_answer \<Rightarrow> string" where
  "counted a = (case r_recv (snd a) of
     Some bs \<Rightarrow> if r_poll (snd a) > 0 \<and> bs \<noteq> [] then ''received '' @ dec_nat (length (take 1500 bs)) @ '' bytes'' @ newline else []
   | None \<Rightarrow> [])"

lemma tcp_client_exact:
  assumes "short = filter (\<lambda>m. length m \<le> 1500) ms" and "tries = zip short es"
    and "served = takeWhile (\<lambda>a. \<not> tcp_gave_up a) tries"
  shows "tcp_client ms es st =
    (if list_ex tcp_gave_up tries then Some (- 1) else if length short \<le> length es then Some 0 else None,
     \<lparr>r_msgs = r_msgs st @ map fst (take (Suc (length served)) tries), r_out = r_out st @ concat (map counted served)\<rparr>)"
  using assms
proof (induction ms arbitrary: short tries served es st)
  case (Cons a ms)
  show ?case
  proof (cases "length a > 1500 \<or> es = []")
    case True
    then show ?thesis using Cons.prems by (cases es) (auto simp: BUF_SIZE_def Cons.IH [OF refl refl refl])
  next
    case False
    then obtain e rest where es: "es = e # rest" by (cases es) auto
    show ?thesis
      using False unfolding Cons.prems es
      by (cases "r_recv e")
        (auto simp: BUF_SIZE_def Let_def tcp_gave_up_def counted_def min_def Cons.IH [OF refl refl refl] split: if_splits)
  qed
qed simp

text \<open>C29: the TCP client, for any answers of the system. With a socket it could bind it connects to the address of
  its arguments, and when that fails it ends with -1. Otherwise it hands to \<open>send\<close> its messages of at most 1500
  bytes in their order, up to the first of which \<open>send\<close> does not take all bytes, or after which \<open>poll\<close> or \<open>recv\<close>
  fails; a time-out and the end of the stream stop nothing, every other read gives a line with how many bytes
  it got, at most 1500 each. It ends when it has given up or has no message left, with status 0 also when it gave up.
  Its socket is closed whenever it ends. Arguments that give no address make it undefined, with or without
  messages.
\<close>

theorem tcp_client_main_sends:
  assumes "resolve SOCK_STREAM ''0.0.0.0'' None = Inr res" and "list_all (addr_ok fds) res" and "find bindable res = Some a"
    and "short = filter (\<lambda>m. length m \<le> 1500) ms" and "tries = zip short es"
    and "served = takeWhile (\<lambda>a. \<not> tcp_gave_up a) tries" and "ends = (list_ex tcp_gave_up tries \<or> length short \<le> length es)"
  shows "tcp_client_main resolve inet_aton connect (host # port # ms) es fds =
    (case destination inet_aton host port of
      None \<Rightarrow> None
    | Some peer \<Rightarrow> Some (if connect peer < 0 then (Some (- 1), \<lparr>r_msgs = [], r_out = []\<rparr>, fds)
        else (if ends then Some 0 else None,
          \<lparr>r_msgs = map fst (take (Suc (length served)) tries), r_out = concat (map counted served)\<rparr>,
          if ends then fds else insert (ai_socket a) fds)))"
proof -
  have sd: "0 \<le> ai_socket a" "ai_socket a \<notin> fds"
    using assms(2,3) by (auto simp: find_Some_iff bindable_def addr_ok_def list_all_iff)
  have "client_socket_tcp resolve ''0.0.0.0'' None fds = (ai_socket a, insert (ai_socket a) fds)"
    using tcp_client_open.tried [of resolve, OF assms(1,2)] assms(3) by simp
  then show ?thesis
    using sd by (auto simp: tcp_client_main_def tcp_client_exact [OF assms(4-6)] assms(7) Let_def split: option.splits)
qed

text \<open>Two messages come back as one read of three bytes; the third is not sent whole.\<close>

theorem tcp_client_main_sends_witness:
  "tcp_client_main (\<lambda>_ _ _. Inr [\<lparr>ai_socket = 3, ai_bound = True\<rparr>]) one_host (\<lambda>_. 0)
      [''10.0.0.1'', ''7'', ''ab'', replicate 1501 CHR ''x'', ''c'', ''de'', ''f'']
      [\<lparr>r_sent = 2, r_poll = 0, r_recv = None\<rparr>, \<lparr>r_sent = 1, r_poll = 1, r_recv = Some [97, 98, 99]\<rparr>,
       \<lparr>r_sent = 1, r_poll = 1, r_recv = Some [100]\<rparr>] {0} =
    Some (Some 0, \<lparr>r_msgs = [''ab'', ''c'', ''de''], r_out = ''received 3 bytes'' @ newline\<rparr>, {0})"
proof -
  have three: "dec_nat (Suc (Suc (Suc 0))) = ''3''" by code_simp
  show ?thesis
    by (subst tcp_client_main_sends [OF _ _ _ refl refl refl refl, of _ "[\<lparr>ai_socket = 3, ai_bound = True\<rparr>]" _ "\<lparr>ai_socket = 3, ai_bound = True\<rparr>"])
      (simp_all add: addr_ok_def bindable_def one_host_destination tcp_gave_up_def counted_def three)
qed

end
