(* ===== verification/Streams.thy ===== *)
theory Streams
  imports Printlog C_Strtol
begin

text \<open>
  The programs of \<open>posix/pipe\<close> and \<open>posix/memstream\<close>, which pass bytes through streams. Messages on \<open>stderr\<close>
  are not modelled.
\<close>

subsection \<open>The source of the pipe\<close>

definition SEND_CNT :: nat where "SEND_CNT = 256"

text \<open>The exit status and the bytes on \<open>stdout\<close>; \<open>memory\<close> is whether \<open>malloc\<close> succeeds.\<close>

definition source_main :: "bool \<Rightarrow> int \<times> u8 list" where
  "source_main memory = (if \<not> memory then (- 1, []) else (0, map (\<lambda>i. of_nat i AND 0xff) [0..<SEND_CNT]))"

subsection \<open>The sink of the pipe\<close>

definition BUF_SZ :: nat where "BUF_SZ = 8"

text \<open>\<open>%s\<close> of an array that holds a terminator.\<close>

definition c_str :: "u8 list \<Rightarrow> string" where
  "c_str bs = map (\<lambda>b. char_of (unat b)) (takeWhile (\<lambda>b. b \<noteq> 0) bs)"

text \<open>The loop: the buffer is cleared, and \<open>fread\<close> takes up to seven bytes of what is left of the input.\<close>

function sink_loop :: "u8 list \<Rightarrow> int \<Rightarrow> string \<Rightarrow> int \<times> string" where
  "sink_loop inp count out =
     (let chunk = take (BUF_SZ - 1) inp; ret = int (length chunk) in
      if ret \<le> 0 then (count, out)
      else let buf = chunk @ replicate (BUF_SZ - length chunk) 0
        in sink_loop (drop (BUF_SZ - 1) inp) (count + 1) (out @ ''received '' @ c_str buf @ newline))"
  by pat_completeness auto
termination by (relation "measure (\<lambda>(inp, count, out). length inp)") (auto simp: BUF_SZ_def)

declare sink_loop.simps [simp del]

definition sink_main :: "string \<Rightarrow> u8 list \<Rightarrow> int \<times> string" where
  "sink_main argv0 inp =
     (case sink_loop inp 0 (argv0 @ newline @ ''press C^d to send EOF'' @ newline) of (count, out) \<Rightarrow>
      (0, out @ ''read '' @ dec_int count @ '' * '' @ dec_int (int BUF_SZ - 1) @ newline))"

text \<open>The input in pieces of seven bytes.\<close>

definition piece :: "u8 list \<Rightarrow> nat \<Rightarrow> u8 list" where
  "piece inp k = take 7 (drop (7 * k) inp)"

definition pieces :: "nat \<Rightarrow> nat" where
  "pieces n = (n + 6) div 7"

lemma c_str_padded: "c_str (bs @ replicate n 0) = c_str bs"
  by (induction bs) (simp_all add: c_str_def takeWhile_append)

lemma sink_loop_pieces:
  "sink_loop inp count out = (count + int (pieces (length inp)),
     out @ concat (map (\<lambda>k. ''received '' @ c_str (piece inp k) @ newline) [0..<pieces (length inp)]))"
proof (induction inp count out rule: sink_loop.induct)
  case (1 inp count out)
  show ?case
  proof (cases "inp = []")
    case True
    then show ?thesis by (subst sink_loop.simps) (simp add: pieces_def)
  next
    case False
    have p: "pieces (length inp) = Suc (pieces (length inp - 7))"
    proof (cases "7 \<le> length inp")
      case True
      then have "length inp + 6 = (length inp - 7 + 6) + 7" by simp
      then show ?thesis unfolding pieces_def by simp
    next
      case short: False
      then show ?thesis using False by (simp add: pieces_def) (cases "length inp"; simp)
    qed
    have range: "[0..<Suc n] = 0 # map Suc [0..<n]" for n by (simp add: upt_conv_Cons map_Suc_upt del: upt_Suc)
    have "sink_loop inp count out = sink_loop (drop 7 inp) (count + 1)
        (out @ ''received '' @ c_str (take 7 inp @ replicate (8 - length (take 7 inp)) 0) @ newline)"
      using False by (subst sink_loop.simps) (simp add: BUF_SZ_def Let_def)
    also have "\<dots> = (count + 1 + int (pieces (length inp - 7)),
        out @ ''received '' @ c_str (take 7 inp) @ newline @
        concat (map (\<lambda>k. ''received '' @ c_str (piece (drop 7 inp) k) @ newline) [0..<pieces (length inp - 7)]))"
      using "1.IH" [OF refl refl _ refl] False by (simp add: BUF_SZ_def c_str_padded)
    also have "\<dots> = (count + int (pieces (length inp)),
        out @ concat (map (\<lambda>k. ''received '' @ c_str (piece inp k) @ newline) [0..<pieces (length inp)]))"
      unfolding p range by (simp add: piece_def comp_def add.commute)
    finally show ?thesis .
  qed
qed

text \<open>
  The two programs as a pipe. The sink gets the 256 bytes in 37 pieces, prints one line for each and
  says that it has read 37 times 7 bytes, three more than came; of a piece it shows the characters
  before the first zero, so of the first piece nothing.
\<close>

theorem pipe_source_to_sink:
  "sink_main argv0 (snd (source_main True)) = (0, argv0 @ newline @ ''press C^d to send EOF'' @ newline @
     concat (map (\<lambda>k. ''received '' @ c_str (map of_nat [7 * k..<min 256 (7 * k + 7)]) @ newline) [0..<37]) @
     ''read 37 * 7'' @ newline) \<and>
   c_str (map of_nat [7 * 0..<min 256 (7 * 0 + 7)]) = []"
proof
  let ?inp = "map (\<lambda>i. of_nat i AND 0xff :: u8) [0..<256]"
  have and_ff: "of_nat i AND 0xff = (of_nat i :: u8)" for i
  proof -
    have "(0xff :: u8) = - 1" by code_simp
    then show ?thesis by (simp only: and.right_neutral)
  qed
  have piece: "piece ?inp k = map of_nat [7 * k..<min 256 (7 * k + 7)]" for k
    by (simp add: piece_def and_ff drop_map take_map drop_upt take_upt min_def)
  have nums: "dec_int 37 = ''37''" "dec_int 7 = ''7''" by code_simp+
  show "sink_main argv0 (snd (source_main True)) = (0, argv0 @ newline @ ''press C^d to send EOF'' @ newline @
     concat (map (\<lambda>k. ''received '' @ c_str (map of_nat [7 * k..<min 256 (7 * k + 7)]) @ newline) [0..<37]) @
     ''read 37 * 7'' @ newline)"
    by (simp add: sink_main_def source_main_def SEND_CNT_def sink_loop_pieces piece pieces_def BUF_SZ_def nums
        del: upt_Suc upt_rec_numeral)
  show "c_str (map of_nat [7 * 0..<min 256 (7 * 0 + 7)]) = []"
    by (simp add: c_str_def upt_conv_Cons)
qed

subsection \<open>The memory stream\<close>

text \<open>
  \<open>posix/memstream\<close>. \<open>last\<close> is the ninth byte of \<open>buf\<close>, which the program does not initialise; when it is not
  zero \<open>strlen\<close> reads behind the array. \<open>opened\<close> and \<open>writes\<close> are the answers of the system to
  \<open>open_memstream\<close> and to the calls of \<open>fwrite\<close>, which succeed when the list is exhausted. The memory behind
  the stream's contents begins with a terminator.
\<close>

definition memstream_buf :: "u8 \<Rightarrow> u8 list" where
  "memstream_buf ninth = replicate 8 0x37 @ [ninth]"

definition buf_strlen :: "u8 list \<Rightarrow> nat option" where
  "buf_strlen buf = (if 0 \<in> set buf then Some (length (takeWhile (\<lambda>b. b \<noteq> 0) buf)) else None)"

fun write_loop :: "nat \<Rightarrow> u8 list \<Rightarrow> bool list \<Rightarrow> u8 list \<Rightarrow> bool \<times> u8 list" where
  "write_loop 0 data writes contents = (True, contents)"
| "write_loop (Suc n) data writes contents =
     (if writes \<noteq> [] \<and> \<not> hd writes then (False, contents)
      else write_loop n data (tl writes) (contents @ data))"

definition word_count :: "string list \<Rightarrow> nat option" where
  "word_count args = (case args of [] \<Rightarrow> Some 1
     | a # _ \<Rightarrow> map_option (\<lambda>wc. if wc < 1 then 1 else nat wc) (atoi a))"

definition memstream_main :: "u8 \<Rightarrow> bool \<Rightarrow> bool list \<Rightarrow> string list \<Rightarrow> (int \<times> stream) option" where
  "memstream_main ninth opened writes args = do {
     wc \<leftarrow> word_count args;
     let buf = memstream_buf ninth;
     n \<leftarrow> buf_strlen buf;
     let out = ''strlen(buf): '' @ dec_nat n @ newline;
     if \<not> opened then Some (- 1, out)
     else case write_loop wc (take n buf) writes [] of (ok, contents) \<Rightarrow>
       if \<not> ok then Some (- 1, out)
       else do {
         out \<leftarrow> hexdump out (contents @ [0]) (of_nat (length contents)) (Some ''memstream buffer'');
         Some (0, out) } }"

lemma write_loop_ok: "list_all (\<lambda>w. w) writes \<Longrightarrow> write_loop n data writes contents = (True, contents @ concat (replicate n data))"
proof (induction n arbitrary: writes contents)
  case (Suc n)
  then have "list_all (\<lambda>w. w) (tl writes)" by (cases writes) auto
  then show ?case using Suc by (cases writes) auto
qed simp

lemma concat_replicate_replicate: "concat (replicate n (replicate m x)) = replicate (n * m) x"
  by (induction n) (simp_all add: replicate_add)

text \<open>C40: With an argument \<open>n\<close>, at least 1, the memory stream holds eight times \<open>n\<close> sevens and the program prints
  their hex dump. The byte behind them that the dump reads for an odd \<open>n\<close> is the terminator of the
  stream, so here the read is defined. But the program is defined only when the byte of \<open>buf\<close> that it
  does not initialise happens to be zero.\<close>

theorem memstream_main_result:
  assumes "atoi a = Some (int n)" and "1 \<le> n" and "list_all (\<lambda>w. w) writes"
  shows "memstream_main ninth True writes (a # args) = (if ninth \<noteq> 0 then None else
     Some (0, ruler ''     '' (''strlen(buf): 8'' @ newline @ ''memstream buffer'' @ newline) @
       lines_text (hexdump_line (replicate (8 * n) 0x37 @ [0]) (8 * n)) [0..<rows_of (8 * n)] @ newline))"
proof -
  have n: "n < 2 ^ 31" using assms(1) by (auto simp: atoi_def Let_def split: if_splits)
  have wc: "word_count (a # args) = Some n" using assms(1,2) by (simp add: word_count_def)
  have len: "buf_strlen (memstream_buf ninth) = (if ninth = 0 then Some 8 else None)"
    by (simp add: buf_strlen_def memstream_buf_def takeWhile_append takeWhile_replicate)
  have w: "write_loop n (take 8 (memstream_buf x)) writes [] = (True, replicate (8 * n) 0x37)" for x
    using write_loop_ok [OF assms(3)] by (simp add: memstream_buf_def concat_replicate_replicate mult.commute)
  have "unat (of_nat (8 * n) :: size_t) = 8 * n" using n by (intro unat_of_nat_64) simp
  moreover have "bytes_read (8 * n) \<le> Suc (8 * n)" by (simp add: bytes_read_def)
  moreover have "dec_nat 8 = ''8''" by code_simp
  moreover have "hexdump f p sz fmt = fhexdump f p sz fmt" for f p sz fmt
    by (simp add: hexdump_def fhexdump_def)
  ultimately show ?thesis
    by (simp add: memstream_main_def wc len w fhexdump_eq prefix_text_def del: of_nat_mult)
qed

theorem memstream_main_result_witness:
  "memstream_main 0 True [] [''1''] = Some (0, ruler ''     '' (''strlen(buf): 8'' @ newline @ ''memstream buffer'' @ newline) @
       ''0000 37 37 37 37 37 37 37 37                            77777777        '' @ newline)"
proof -
  have a: "atoi ''1'' = Some (int 1)"
    by (simp add: atoi_def is_space_def digit_value_of_def)
  have "hexdump_line (replicate (8 * 1) 0x37 @ [0]) (8 * 1) 0 =
      ''0000 37 37 37 37 37 37 37 37                            77777777        ''"
    by (subst hexdump_line_low, simp) code_simp
  moreover have "[0..<rows_of (8 * 1)] = [0]" by code_simp
  ultimately show ?thesis
    using memstream_main_result [OF a, of "[]" 0 "[]"] by (simp add: lines_text_def)
qed

end
