(* ===== verification/Devices.thy ===== *)
theory Devices
  imports C_Strtol
begin

text \<open>
  \<open>posix/i2cdev\<close> and \<open>posix/gpiod\<close>, which talk to devices. The kernel's I2C driver and the library \<open>libgpiod\<close> are not
  part of the repository: their answers are parameters. Messages on \<open>stderr\<close> are not modelled.
\<close>

subsection \<open>I2C\<close>

text \<open>A message of the kernel's interface; \<open>im_buf\<close> is the object its pointer points to.\<close>

record i2c_msg =
  im_addr :: u16
  im_flags :: u16
  im_len :: u16
  im_buf :: "u8 list"

definition I2C_M_RD :: u16 where "I2C_M_RD = 1"

text \<open>
  The driver takes the messages of a transfer and answers a result and the contents of the objects of
  the messages afterwards.
\<close>

type_synonym i2c_driver = "int \<Rightarrow> i2c_msg list \<Rightarrow> int \<times> u8 list list"

definition i2c_open_dev :: "(string \<Rightarrow> int) \<Rightarrow> string \<Rightarrow> int" where
  "i2c_open_dev open_rdwr i2cdev = open_rdwr i2cdev"

text \<open>\<open>snprintf\<close> keeps the first 19 characters.\<close>

definition i2c_open :: "(string \<Rightarrow> int) \<Rightarrow> u32 \<Rightarrow> int" where
  "i2c_open open_rdwr i2cnum = i2c_open_dev open_rdwr (take 19 (''/dev/i2c-'' @ dec_nat (unat i2cnum)))"

text \<open>The pointers \<open>tx\<close> and \<open>rx\<close> may be \<open>NULL\<close>. The result, and what \<open>rx\<close> points to afterwards.\<close>

definition i2c_xfer ::
  "i2c_driver \<Rightarrow> int \<Rightarrow> u16 \<Rightarrow> u8 list option \<Rightarrow> size_t \<Rightarrow> u8 list option \<Rightarrow> size_t \<Rightarrow> int \<times> u8 list option" where
  "i2c_xfer ioctl fd addr tx tx_len rx rx_len =
     (let msg = (case tx of
            Some buf \<Rightarrow> if tx_len > 0 then [\<lparr>im_addr = addr, im_flags = 0, im_len = ucast tx_len, im_buf = buf\<rparr>] else []
          | None \<Rightarrow> []);
          msgs = (case rx of
            Some buf \<Rightarrow> if rx_len > 0 then msg @ [\<lparr>im_addr = addr, im_flags = I2C_M_RD, im_len = ucast rx_len, im_buf = buf\<rparr>] else msg
          | None \<Rightarrow> msg)
      in case ioctl fd msgs of (ret, bufs) \<Rightarrow> (ret, if length msg < length msgs then Some (bufs ! length msg) else rx))"

definition i2c_write :: "i2c_driver \<Rightarrow> int \<Rightarrow> u16 \<Rightarrow> u8 list \<Rightarrow> size_t \<Rightarrow> int" where
  "i2c_write ioctl fd addr buf len = fst (i2c_xfer ioctl fd addr (Some buf) len None 0)"

definition i2c_write_reg8 :: "i2c_driver \<Rightarrow> int \<Rightarrow> u16 \<Rightarrow> u8 \<Rightarrow> u8 list \<Rightarrow> size_t \<Rightarrow> int" where
  "i2c_write_reg8 ioctl fd addr reg buf len = fst (ioctl fd
     [\<lparr>im_addr = addr, im_flags = 0, im_len = 1, im_buf = [reg]\<rparr>,
      \<lparr>im_addr = addr, im_flags = 0, im_len = ucast len, im_buf = buf\<rparr>])"

text \<open>The bytes of the register's number lie in memory in the order of the platform, low byte first.\<close>

definition i2c_write_reg16 :: "i2c_driver \<Rightarrow> int \<Rightarrow> u16 \<Rightarrow> u16 \<Rightarrow> u8 list \<Rightarrow> size_t \<Rightarrow> int" where
  "i2c_write_reg16 ioctl fd addr reg buf len = fst (ioctl fd
     [\<lparr>im_addr = addr, im_flags = 0, im_len = 2, im_buf = [ucast reg, ucast (drop_bit 8 reg)]\<rparr>,
      \<lparr>im_addr = addr, im_flags = 0, im_len = ucast len, im_buf = buf\<rparr>])"

text \<open>\<open>argv\<close> after the program's name. A number that is no \<open>int\<close> is undefined; the descriptors that are open.\<close>

definition i2cdev_main :: "(string \<Rightarrow> int) \<Rightarrow> string list \<Rightarrow> int set \<Rightarrow> (int \<times> int set) option" where
  "i2cdev_main open_rdwr args fds =
     (if length args < 2 then Some (- 1, fds)
      else do {
        n \<leftarrow> atoi (args ! 0);
        let fd = i2c_open open_rdwr (word_of_int n);
        if fd < 0 then Some (- 1, fds) else Some (0, insert fd fds - {fd}) })"

text \<open>What a driver that follows the interface puts on the bus for a message that writes.\<close>

definition on_bus :: "i2c_msg \<Rightarrow> u8 list" where
  "on_bus m = take (unat (im_len m)) (im_buf m)"

definition recording :: "int \<Rightarrow> i2c_msg list \<Rightarrow> int \<times> u8 list list" where
  "recording fd msgs = (int (length msgs), map im_buf msgs)"

lemma dec_nat_length: "n < 10 ^ k \<Longrightarrow> 0 < k \<Longrightarrow> length (dec_nat n) \<le> k"
  unfolding dec_nat_def
proof (induction k arbitrary: n)
  case (Suc k)
  show ?case
  proof (cases "n < 10")
    case False
    then have "0 < k" using Suc.prems by (cases k) auto
    moreover have "n div 10 < 10 ^ k" using Suc.prems(1) by (simp add: less_mult_imp_div_less mult.commute)
    ultimately show ?thesis using False Suc.IH [of "n div 10"] by (simp add: numeral_in.simps [of 10 n])
  qed (simp add: numeral_in.simps [of 10 n])
qed simp

text \<open>The name of a device is never cut: the array has room for ten digits.\<close>

lemma i2c_open_name: "i2c_open open_rdwr n = open_rdwr (''/dev/i2c-'' @ dec_nat (unat n))"
proof -
  have "unat n < 10 ^ 10" using unsigned_less [of n, where ?'a = nat] by simp
  then have "length (dec_nat (unat n)) \<le> 10" by (rule dec_nat_length) simp
  then show ?thesis by (simp add: i2c_open_def i2c_open_dev_def)
qed

lemma take_len: "take (unat (ucast (len :: size_t) :: u16)) buf = take (unat len mod 65536) buf"
  by (simp add: unsigned_ucast_eq take_bit_eq_mod)

text \<open>
  What the writing functions put on the bus, for every driver. A length counts modulo \<open>2 ^ 16\<close>, so of 65536
  bytes none are written. A register's number and its data are two messages, and a 16-bit number
  goes out low byte first.
\<close>

lemma i2c_writes_on_bus:
  "\<exists>ms. (\<forall>ioctl fd. i2c_write ioctl fd addr buf len = fst (ioctl fd ms)) \<and>
     map on_bus ms = (if len = 0 then [] else [take (unat len mod 65536) buf])"
  "\<exists>ms. (\<forall>ioctl fd. i2c_write_reg8 ioctl fd addr reg buf len = fst (ioctl fd ms)) \<and>
     map on_bus ms = [[reg], take (unat len mod 65536) buf]"
  "\<exists>ms. (\<forall>ioctl fd. i2c_write_reg16 ioctl fd addr reg' buf len = fst (ioctl fd ms)) \<and>
     map on_bus ms = [[ucast reg', ucast (drop_bit 8 reg')], take (unat len mod 65536) buf]"
proof -
  let ?m = "\<lparr>im_addr = addr, im_flags = 0, im_len = ucast len, im_buf = buf\<rparr>"
  show "\<exists>ms. (\<forall>ioctl fd. i2c_write ioctl fd addr buf len = fst (ioctl fd ms)) \<and>
     map on_bus ms = (if len = 0 then [] else [take (unat len mod 65536) buf])"
    by (rule exI [of _ "if len = 0 then [] else [?m]"])
      (auto simp: i2c_write_def i2c_xfer_def on_bus_def take_len word_gt_0 split: prod.splits)
  show "\<exists>ms. (\<forall>ioctl fd. i2c_write_reg8 ioctl fd addr reg buf len = fst (ioctl fd ms)) \<and>
     map on_bus ms = [[reg], take (unat len mod 65536) buf]"
    by (rule exI [of _ "[\<lparr>im_addr = addr, im_flags = 0, im_len = 1, im_buf = [reg]\<rparr>, ?m]"])
      (simp add: i2c_write_reg8_def on_bus_def take_len)
  show "\<exists>ms. (\<forall>ioctl fd. i2c_write_reg16 ioctl fd addr reg' buf len = fst (ioctl fd ms)) \<and>
     map on_bus ms = [[ucast reg', ucast (drop_bit 8 reg')], take (unat len mod 65536) buf]"
    by (rule exI [of _ "[\<lparr>im_addr = addr, im_flags = 0, im_len = 2, im_buf = [ucast reg', ucast (drop_bit 8 reg')]\<rparr>, ?m]"])
      (simp add: i2c_write_reg16_def on_bus_def take_len)
qed

text \<open>A transfer that writes and reads, and one of nothing: the driver gets an empty list of messages.\<close>

lemma i2c_xfer_messages:
  assumes "0 < tx_len" and "0 < rx_len"
  shows "i2c_xfer ioctl fd addr (Some tx) tx_len (Some rx) rx_len =
     (case ioctl fd [\<lparr>im_addr = addr, im_flags = 0, im_len = ucast tx_len, im_buf = tx\<rparr>,
        \<lparr>im_addr = addr, im_flags = I2C_M_RD, im_len = ucast rx_len, im_buf = rx\<rparr>] of (ret, bufs) \<Rightarrow> (ret, Some (bufs ! 1)))"
    and "i2c_xfer ioctl fd addr tx' 0 rx' 0 = (fst (ioctl fd []), rx')"
  using assms by (auto simp: i2c_xfer_def split: option.splits prod.splits)

text \<open>The program opens the device and closes it again.\<close>

lemma i2cdev_main_result:
  assumes "atoi num = Some n" and "open_rdwr (''/dev/i2c-'' @ dec_nat (unat (word_of_int n :: u32))) \<notin> fds"
  shows "i2cdev_main open_rdwr (num # a # args) fds =
    Some (if open_rdwr (''/dev/i2c-'' @ dec_nat (unat (word_of_int n :: u32))) < 0 then - 1 else 0, fds)"
  using assms by (auto simp: i2cdev_main_def i2c_open_name)

subsection \<open>GPIO lines\<close>

text \<open>
  \<open>posix/gpiod\<close>. What \<open>strdup\<close> and the library answer in a turn of the loop, whatever line it has been asked for:
  \<open>g_request\<close> is the answer to either request, \<open>g_set\<close> and \<open>g_get\<close> those to setting and reading the line.
\<close>

record line_turn =
  g_memory :: bool
  g_request :: int
  g_set :: int
  g_get :: int

text \<open>The text on \<open>stdout\<close>, the values set, whether the chip is open and the copies of arguments still allocated.\<close>

record gpio =
  g_out :: string
  g_levels :: "(int \<times> int) list"
  g_chip :: bool
  g_copies :: "string list"

definition gpio_fail :: "gpio \<Rightarrow> (int \<times> gpio) option" where
  "gpio_fail st = Some (- 1, st\<lparr>g_chip := False\<rparr>)"

fun gpio_loop :: "(nat \<Rightarrow> line_turn) \<Rightarrow> nat \<Rightarrow> string list \<Rightarrow> gpio \<Rightarrow> (int \<times> gpio) option" where
  "gpio_loop lib i [] st = Some (0, st)"
| "gpio_loop lib i (a # as) st =
     (let e = lib i in
      if \<not> g_memory e then gpio_fail st
      else
        let copies = g_copies st; st = st\<lparr>g_copies := copies @ [a]\<rparr>;
          linenum = takeWhile (\<lambda>c. c \<noteq> CHR ''='') a; rest = dropWhile (\<lambda>c. c \<noteq> CHR ''='') a
        in do {
          n \<leftarrow> atoi linenum;
          if rest \<noteq> []
          then
            if g_request e < 0 then gpio_fail st
            else do {
              v \<leftarrow> atoi (tl rest);
              if g_set e < 0 then gpio_fail st
              else gpio_loop lib (Suc i) as (st\<lparr>g_levels := g_levels st @ [(n, v)], g_copies := copies\<rparr>) }
          else
            if g_request e < 0 then gpio_fail st
            else gpio_loop lib (Suc i) as
              (st\<lparr>g_out := g_out st @ dec_int n @ '' '' @ dec_int (g_get e) @ newline, g_copies := copies\<rparr>) })"

text \<open>\<open>chip\<close> is whether \<open>gpiod_chip_open\<close> opens the device of that name; its array has room for every number.\<close>

definition gpio_main :: "(string \<Rightarrow> bool) \<Rightarrow> (nat \<Rightarrow> line_turn) \<Rightarrow> string list \<Rightarrow> (int \<times> gpio) option" where
  "gpio_main chip lib args =
     (let st = \<lparr>g_out = [], g_levels = [], g_chip = False, g_copies = []\<rparr> in
      if length args < 2 then Some (- 1, st)
      else do {
        n \<leftarrow> atoi (args ! 0);
        if \<not> chip (take 31 (''/dev/gpiochip'' @ dec_nat (unat (word_of_int n :: u32)))) then Some (- 1, st)
        else gpio_loop lib 0 (drop 1 args) (st\<lparr>g_chip := True\<rparr>) })"

text \<open>
  A run that ends with 0 leaves the chip open and frees its copies; one that fails after it has opened the
  chip closes it, but leaks the copy of the argument it was at unless that copy could not be made.
\<close>

lemma gpio_loop_ends:
  assumes "gpio_loop lib i as st = Some (r, st')" and "g_chip st" and "g_copies st = []"
  shows "if r = 0 then g_chip st' \<and> g_copies st' = []
    else r = - 1 \<and> \<not> g_chip st' \<and> (g_copies st' = [] \<or> (\<exists>a \<in> set as. g_copies st' = [a]))"
  using assms
proof (induction as arbitrary: i st)
  case (Cons a as)
  show ?case
  proof (cases "\<exists>st1. g_chip st1 \<and> g_copies st1 = [] \<and> gpio_loop lib (Suc i) as st1 = Some (r, st')")
    case True
    then show ?thesis using Cons.IH by (fastforce split: if_splits)
  next
    case False
    then show ?thesis using Cons.prems
      by (auto simp: Let_def bind_Some_iff gpio_fail_def split: if_splits)
  qed
qed auto

end
