(* ===== verification/Spec2Isabelle.thy ===== *)
theory Spec2Isabelle
  imports Ctypes Lfsr_Period List_Calls Cstring Vector_Example Vector_Calls Dictionary_Failures
    Queue_Threads Printlog_Levels Sysreg_Example Timestamp_Example Timer Module Udp Tcp Streams Devices
begin

text \<open>
  A verification development of \<open>ohmylib\<close>, a collection of C modules for Linux user space with example
  programs.

  \<^bold>\<open>The program.\<close> \<open>lib/\<close> holds the modules, \<open>includes/\<close> their headers and two modules that are headers only
  (\<open>list.h\<close>, \<open>ctypes.h\<close> with \<open>error_ptr.h\<close>), \<open>examples/\<close> one program per module, \<open>posix/\<close> programs that use the
  system only. The modules do not call each other; an example calls its module, and \<open>posix/memstream\<close> calls
  the hex dump of \<open>lib/printlog.c\<close>.

  \<^bold>\<open>Conventions.\<close> The platform is LP64. A word of the width of the C type stands for an integer wherever
  the code can wrap around or cuts a value, \<open>int\<close> or \<open>nat\<close> elsewhere. A function that can be undefined (an access
  outside an object, a use of freed memory, a double free, an uninitialised value that matters, a mutex not
  held, a number that \<open>atoi\<close> cannot represent) has an option type, and \<open>None\<close> is undefined; so \<open>f x = Some r\<close>
  says that the call is defined, ends and gives \<open>r\<close>. Return codes, \<open>errno\<close> and exit statuses are values of the
  result. Memory is a heap of blocks (\<open>C_Heap\<close>) with a list of answers that decides which allocations fail and
  which \<open>realloc\<close> moves; a freed handle is not given out again. Text written to \<open>stdout\<close> or a file is a string.
  Messages on \<open>stderr\<close> are not modelled, except where writing them is the purpose (\<open>printlog\<close>).

  \<^bold>\<open>Theories and sources.\<close>
  \<^item> \<open>Prelude\<close>: types, facts on options and lists, the printing of numbers. \<open>C_Heap\<close>: \<open>malloc\<close>, \<open>calloc\<close>, \<open>realloc\<close>,
    \<open>free\<close>. \<open>C_Timer\<close>: times, POSIX timers, terminal settings. \<open>C_Strtol\<close>: \<open>strtoul\<close>, \<open>atoi\<close>. \<open>Event_Loop\<close>: what holds of a
    program that handles events until one ends it.
  \<^item> \<open>Ctypes\<close>: the macros of \<open>ctypes.h\<close> and the error pointers of \<open>error_ptr.h\<close>, with their bounds.
  \<^item> \<open>Lfsr\<close>, \<open>Lfsr_Period\<close>: \<open>lib/lfsr.c\<close>. What the function writes, and that the register with the documented
    polynomial runs through all 65535 states that are not zero.
  \<^item> \<open>Linked_List\<close>, \<open>Linked_List_More\<close>: \<open>includes/list.h\<close>. The memory maps addresses to \<open>list_head\<close> records. \<open>dlist m h xs\<close>
    says that the ring at \<open>h\<close> has the entries \<open>xs\<close>; the lemmas give, for each function, the list it leaves and the
    nodes it changes, and for each iteration macro the entries it visits. \<open>List_Calls\<close>: any sequence of calls on any number
    of lists, as a refinement of a map from heads to entries (\<open>rings m L\<close>); \<open>Refinement\<close> has runs of calls.
  \<^item> \<open>Cstring\<close>: \<open>lib/cstring.c\<close>, the macro \<open>iter_substr\<close> and \<open>examples/comma_separated_list\<close>.
  \<^item> \<open>Cvector\<close>: \<open>lib/cvector.c\<close> with the contract \<open>ptr_vector\<close>. \<open>Vector_Calls\<close>: any sequence of calls when allocations
    may fail. \<open>Vector_Example\<close>: \<open>examples/vector\<close>.
  \<^item> \<open>Dictionary\<close> (the functions of \<open>lib/dictionary.c\<close>), \<open>Dictionary_Rep\<close> (heap, slots and map), \<open>Dictionary_Ops\<close> (each
    function on the slots), \<open>Dictionary_Spec\<close> (the map, and the contract \<open>string_dict\<close>), \<open>Dictionary_Properties\<close>,
    \<open>Dictionary_Safety\<close> (any sequence of calls when allocations may fail), \<open>Dictionary_Example\<close> (\<open>examples/dictionary\<close>),
    \<open>Dictionary_Failures\<close> (the same when allocations fail).
    \<open>dict_wf\<close> is the invariant that survives a failed allocation; \<open>dict_rep\<close> adds that \<open>count\<close> is exact and that no value
    lacks its key. \<open>is_dict h dp m fp\<close> says that the dictionary at \<open>dp\<close> stands for the
    map \<open>m\<close> and owns the blocks \<open>fp\<close>; \<open>step_mem\<close> accounts for the blocks a call frees and allocates.
  \<^item> \<open>Queue\<close> (the functions of \<open>lib/queue.c\<close>), \<open>Queue_Ring\<close> (the ring of bytes), \<open>Queue_Spec\<close> (the queue as a list of
    messages, critical sections as steps of several threads), \<open>Queue_Calls\<close> (a whole call with its waits),
    \<open>Queue_Properties\<close> (the contract \<open>bounded_queue\<close>, creation, destruction, the properties), \<open>Queue_Example\<close>
    (\<open>examples/queue\<close>), \<open>Queue_Threads\<close> (\<open>examples/queue_multithreaded\<close>, for every schedule of its threads, whose steps
    are single calls).
  \<^item> \<open>Printlog\<close>: the dumps of \<open>lib/printlog.c\<close>, as closed formulas for their text. \<open>Printlog_Levels\<close>: the logging macros
    of \<open>includes/printlog.h\<close> for every build, and \<open>examples/printlog\<close>.
  \<^item> \<open>Sysreg\<close>, \<open>Sysreg_Example\<close>: \<open>lib/sysreg.c\<close> over a driver of the files below \<open>/proc\<close>, a record of its answers to \<open>fopen\<close>,
    \<open>fread\<close>, \<open>open\<close>, \<open>read\<close> and \<open>write\<close> which may be short or fail, and \<open>examples/sysreg\<close>.
  \<^item> \<open>Timestamp\<close>, \<open>Timestamp_Example\<close>: \<open>lib/timestamp.c\<close> and \<open>examples/timestamp\<close>, which refines a stop watch.
    \<open>Timer\<close>: \<open>posix/timer\<close>, for every sequence of keys and signals.
  \<^item> \<open>Module\<close>: \<open>posix/module\<close>. A unit is the list of its section entries, the linker joins the sections of the
    units; the lemmas say which functions run, and in which order.
  \<^item> \<open>Sockets\<close>, \<open>Udp\<close>, \<open>Tcp\<close>: \<open>posix/udp_server\<close>, \<open>udp_client\<close>, \<open>tcp_server\<close>, \<open>tcp_client\<close>, for every list of answers of the
    system: what each program sends and prints, when it ends, and which sockets it closes.
  \<^item> \<open>Streams\<close>: \<open>posix/pipe\<close>, source and sink alone and connected, and \<open>posix/memstream\<close>.
  \<^item> \<open>Devices\<close>: \<open>posix/i2cdev\<close> and \<open>posix/gpiod\<close>.

  \<^bold>\<open>Interfaces.\<close> Locales state what a client may rely on, each interpreted on the functions of the code.
  \<^item> Containers: \<open>ptr_vector\<close> (a sequence of pointers) with \<open>tracked_vector\<close> (the same with failing allocations and a
    frame for memory), \<open>string_dict\<close> (a finite map and a frame for memory), \<open>lossy_dict\<close> (what is left of it when
    allocations fail) and \<open>bounded_queue\<close> (a bounded list of messages); the interpretations are \<open>cv\<close>, \<open>tv\<close>, \<open>dict\<close>, \<open>lossy\<close>
    and \<open>rq\<close>. The theorems about sequences of calls rest on their facts: \<open>vector_calls_refine\<close>, \<open>dictionary_life\<close>,
    \<open>dictionary_survives_failures\<close>, \<open>queue_fill_drain\<close>.
  \<^item> Runs: \<open>simulation\<close> (a step function refines a specification of each call), interpreted as \<open>ring\<close> on the functions of
    \<open>list.h\<close>, and \<open>exact_simulation\<close> (it is undefined where the specification is, too), a consequence of the contract
    \<open>tracked_vector\<close>; \<open>list_calls_refine\<close> and \<open>vector_calls_refine\<close> rest on them.
  \<^item> Programs: \<open>run_loop\<close> (handle events until one ends the program; \<open>alarm_loop\<close> and \<open>watch_run\<close>) and \<open>socket_opener\<close> (open
    a socket for the first usable address; the four functions of the network programs). The theorems about these programs
    rest on them, among them \<open>timer_main_ends\<close>, \<open>watch_loop_ends\<close>, \<open>udp_client_main_sends\<close> and \<open>tcp_client_main_sends\<close>.

  \<^bold>\<open>Refinement.\<close> The dictionary refines a finite map in two steps, heap to slots and slots to map. The queue
  refines a bounded list; with several threads each call is one atomic step after what the other threads did
  while it waited (\<open>queue_send_atomic\<close>, \<open>queue_recv_atomic\<close>), and the steps are first in, first out
  (\<open>queue_concurrent_fifo\<close>). The lists of \<open>list.h\<close>, any number of them in one memory, refine a map from heads to
  lists of entries (\<open>list_calls_refine\<close>). How long a call waits is a matter of the order of times, an instance of \<open>linorder\<close> in
  \<open>C_Timer\<close> (\<open>queue_waits_for_timeout\<close>). The theory \<open>Queue_Threads\<close> builds on this: a call on the
  queue is one step of its schedules, and so is every allocation, every line printed and every \<open>free\<close>.

  \<^bold>\<open>Loops.\<close> A loop over an index or a list is a total function, with a measure where the recursion is not
  structural. A loop whose end depends on the memory it walks (the iteration macros of \<open>list.h\<close>, the rows of the
  dumps, the loops of \<open>examples/queue\<close> and of \<open>examples/vector\<close> that empty a container) is a \<open>partial_function\<close> into
  an option type, where not ending is \<open>None\<close> too; the theorems then say that the result is \<open>Some\<close>. No fuel is
  used. A program that waits for keys, packets, connections or threads is described for every finite list of
  what comes; after the list it has ended or waits for more, and the result tells which.

  \<^bold>\<open>The environment.\<close> What is not in the repository is a parameter, and a theorem holds for all its values
  unless it says otherwise: the answers of the allocator, the clock and what other threads do during a wait,
  the driver below \<open>/proc\<close>, timers the system grants, the resolver, sockets and the network, the I2C driver,
  \<open>libgpiod\<close>, the contents of uninitialised variables, the bytes that can be read behind an array, and the text
  to which a format of a log message expands.

  \<^bold>\<open>Not modelled.\<close> The second half of \<open>list.h\<close> (hash lists) and the other code under \<open>#if 0\<close> or in comments (among
  it two earlier programs in \<open>timer.c\<close>). The headers in \<open>includes/sort\<close>, which declare functions that the repository
  does not define. Attribute macros, which only direct the compiler. \<open>core_module\<close>, \<open>user_module\<close> and \<open>late_module\<close> of
  \<open>module.h\<close>, which do not compile. The exact value of \<open>errno\<close> after failing system calls. \<open>SIGPIPE\<close>, which ends a
  program that writes to a stream whose reader is gone. A signal handler that interrupts \<open>stdio\<close>: \<open>posix/timer\<close> prints in
  its handler, which is taken to run while the program waits for a key. The cancellation of a
  thread in the middle of a call on a queue: the one program that cancels threads is undefined before it does.

  \<^bold>\<open>What it showed.\<close> The theorems that describe a defect of the code: \<open>dictionary_create_truncates\<close>,
  \<open>dictionary_destroy_leaks_array\<close>, \<open>dictionary_add_failures\<close>, \<open>dictionary_add_loses_key\<close>, \<open>dictionary_add_undefined\<close>,
  \<open>dictionary_add_leaks_value\<close>,
  \<open>substr_NUL_overruns\<close>, \<open>queue_create_static_overruns\<close>, \<open>queue_create_tail_wraps\<close>, \<open>queue_empty_wait_undefined\<close>,
  \<open>queue_ts_add_deadline\<close>, \<open>fdump_text\<close> (a read behind the buffer), \<open>sysreg_read_info_branches\<close> (failed reads go
  unnoticed), \<open>sysreg_scratch_roundtrip\<close> (so do short ones), \<open>timer_resume_first_undefined\<close>, \<open>socket_first_bindable\<close> (a closed descriptor as result),
  \<open>echo_thread_echoes\<close> (no end at the end of the stream), \<open>tcp_server_accepts\<close> (connections are never closed),
  \<open>udp_client_main_sends\<close> and \<open>tcp_client_main_sends\<close> (failures end with status 0, a refused host is used),
  \<open>memstream_main_result\<close>, \<open>queue_main_any_allocator\<close> (objects in a queue that is destroyed), \<open>dict_main_any_allocator\<close>
  (errors ignored), \<open>threads_main_fifo\<close>, \<open>i2c_writes_on_bus\<close> and \<open>gpio_loop_ends\<close>.
\<close>

end
